(* ===== verification/Prelude.thy ===== *)
theory Prelude
  imports Main "HOL-Library.Word"
begin

text \<open>
  Shared vocabulary of the development: the machine types of the C++ code, the answers of
  system calls, undefined behaviour as a value, reads and writes inside a block of storage,
  and two interfaces that several components share, a state machine driven by a list of
  operations and a transition system with an inductive invariant.
\<close>

unbundle bit_operations_syntax

named_theorems buffer_simps \<open>unfolding rules of the buffer operations under their invariant\<close>
named_theorems poll_simps \<open>unfolding rules of channel and registry operations\<close>
named_theorems conn_simps \<open>unfolding rules of connection operations\<close>

section \<open>Machine types and answers of system calls\<close>

type_synonym byte = "8 word"
type_synonym uint32 = "32 word"
type_synonym uint64 = "64 word"
type_synonym fd = int

text \<open>
  A system call returns a count or the value -1 with an error number.  The code tests only
  \<open>EAGAIN\<close>, \<open>EWOULDBLOCK\<close> and \<open>EINTR\<close> by name; every other number is \<open>Errno n\<close>.
\<close>

datatype errno = EAGAIN | EWOULDBLOCK | EINTR | Errno nat

datatype io_answer = Done nat | Fail errno

text \<open>The answer of a call that fills a buffer carries the bytes it delivered.\<close>

datatype read_answer = Delivered "byte list" | ReadFail errno

section \<open>Faults as values\<close>

text \<open>
  An execution of C++ code that leaves the language's defined behaviour, or that ends the
  process by \<open>std::terminate\<close> or \<open>abort()\<close>, yields one of these values.  \<open>'a res\<close> is the
  type of an operation that can do so.
\<close>

datatype fault = OutOfBounds | UseAfterFree | NullDeref | StdTerminate | Aborted

type_synonym 'a res = "fault + 'a"

definition bind_res :: "'a res \<Rightarrow> ('a \<Rightarrow> 'b res) \<Rightarrow> 'b res" where
  "bind_res m f = (case m of Inl e \<Rightarrow> Inl e | Inr x \<Rightarrow> f x)"

lemma bind_res_simps [simp]:
  "bind_res (Inl e) f = Inl e" "bind_res (Inr x) f = f x"
  by (simp_all add: bind_res_def)

lemma bind_res_eq_Inr: "bind_res m f = Inr y \<longleftrightarrow> (\<exists>x. m = Inr x \<and> f x = Inr y)"
  by (cases m) simp_all

lemma bind_res_assoc: "bind_res (bind_res m f) g = bind_res m (\<lambda>x. bind_res (f x) g)"
  by (cases m) simp_all

section \<open>Unsigned 64-bit subtraction and addition on \<open>size_t\<close>\<close>

definition size_sub :: "nat \<Rightarrow> nat \<Rightarrow> nat" where
  "size_sub a b = (if b \<le> a then a - b else 2 ^ 64 + a - b)"

definition size_add :: "nat \<Rightarrow> nat \<Rightarrow> nat" where
  "size_add a b = (a + b) mod 2 ^ 64"

lemma size_sub_le [simp]: "b \<le> a \<Longrightarrow> size_sub a b = a - b"
  by (simp add: size_sub_def)

lemma size_add_small [simp]: "a + b < 2 ^ 64 \<Longrightarrow> size_add a b = a + b"
  by (simp add: size_add_def)

section \<open>Blocks of storage\<close>

text \<open>\<open>load\<close> reads \<open>n\<close> elements from offset \<open>i\<close>, \<open>store\<close> writes a list there.\<close>

definition load :: "'a list \<Rightarrow> nat \<Rightarrow> nat \<Rightarrow> 'a list res" where
  "load xs i n = (if i + n \<le> length xs then Inr (take n (drop i xs)) else Inl OutOfBounds)"

definition store :: "'a list \<Rightarrow> nat \<Rightarrow> 'a list \<Rightarrow> 'a list res" where
  "store xs i ys = (if i + length ys \<le> length xs
     then Inr (take i xs @ ys @ drop (i + length ys) xs) else Inl OutOfBounds)"

lemma load_in: "i + n \<le> length xs \<Longrightarrow> load xs i n = Inr (take n (drop i xs))"
  by (simp add: load_def)

lemma store_in:
  "i + length ys \<le> length xs \<Longrightarrow> store xs i ys = Inr (take i xs @ ys @ drop (i + length ys) xs)"
  by (simp add: store_def)

text \<open>The part \<open>xs[i..<j]\<close> of a block, and what a store at \<open>j\<close> makes of it.\<close>

definition segment :: "'a list \<Rightarrow> nat \<Rightarrow> nat \<Rightarrow> 'a list" where
  "segment xs i j = take (j - i) (drop i xs)"

lemma length_segment: "length (segment xs i j) = min (j - i) (length xs - i)"
  by (simp add: segment_def min.commute)

lemma segment_empty [simp]: "segment xs i i = []"
  by (simp add: segment_def)

lemma segment_drop: "i + k \<le> j \<Longrightarrow> segment xs (i + k) j = drop k (segment xs i j)"
  by (simp add: segment_def drop_take add.commute)

lemma segment_take: "k \<le> j - i \<Longrightarrow> take k (segment xs i j) = take k (drop i xs)"
  by (simp add: segment_def)

lemma segment_prefix: "j \<le> length xs \<Longrightarrow> segment (xs @ ys) i j = segment xs i j"
  by (simp add: segment_def)

lemma segment_store:
  assumes "i \<le> j" "j \<le> length xs"
  shows "segment (take j xs @ ys @ zs) i (j + length ys) = segment xs i j @ ys"
  using assms by (simp add: segment_def drop_take)

section \<open>Decimal text\<close>

text \<open>The text of \<open>std::to_string\<close> and of a number in a stream, the reference for every conversion.\<close>

fun decimal :: "nat \<Rightarrow> string" where
  "decimal n = (if n < 10 then [char_of (48 + n)] else decimal (n div 10) @ [char_of (48 + n mod 10)])"

declare decimal.simps [simp del]

text \<open>The bytes of a text.\<close>

definition bytes_of :: "string \<Rightarrow> byte list" where
  "bytes_of = map of_char"

section \<open>C strings\<close>

text \<open>What \<open>std::cout << buffer\<close> prints: the text before the first null; without one it reads on.\<close>

definition c_string :: "byte list \<Rightarrow> byte list res" where
  "c_string xs = (if 0 \<in> set xs then Inr (takeWhile (\<lambda>x. x \<noteq> 0) xs) else Inl OutOfBounds)"

lemma c_string_padded [simp]:
  "0 \<notin> set data \<Longrightarrow> 0 < n \<Longrightarrow> c_string (data @ replicate n 0) = Inr data"
  by (auto simp: c_string_def takeWhile_tail takeWhile_append)

section \<open>A machine driven by operations\<close>

text \<open>
  A component whose operations can be called in any order: \<open>exec\<close> runs one operation (and
  may end in a fault), \<open>run_ops\<close> runs a list of them.  The interface \<open>op_invariant\<close> asks
  for a well-formedness invariant that one operation keeps, \<open>op_machine\<close> also for an
  abstraction and an abstract step; both give the facts about every sequence.
\<close>

fun run_ops :: "('op \<Rightarrow> 's \<Rightarrow> 's res) \<Rightarrow> 'op list \<Rightarrow> 's \<Rightarrow> 's res" where
  "run_ops exec [] s = Inr s"
| "run_ops exec (op # ops) s = bind_res (exec op s) (run_ops exec ops)"

lemma run_ops_append:
  "run_ops exec (xs @ ys) s = bind_res (run_ops exec xs s) (run_ops exec ys)"
proof (induction xs arbitrary: s)
  case (Cons x xs)
  then show ?case by (cases "exec x s") simp_all
qed simp

text \<open>
  \<open>allowed\<close> says that every operation of a run meets its precondition in the state
  where it is called; past a fault it asks for nothing.
\<close>

fun allowed :: "('op \<Rightarrow> 's \<Rightarrow> 's res) \<Rightarrow> ('op \<Rightarrow> 's \<Rightarrow> bool) \<Rightarrow> 'op list \<Rightarrow> 's \<Rightarrow> bool" where
  "allowed exec ok [] s = True"
| "allowed exec ok (op # ops) s = (ok op s \<and>
     (case exec op s of Inl e \<Rightarrow> True | Inr s' \<Rightarrow> allowed exec ok ops s'))"

lemma allowed_append:
  "allowed exec ok (xs @ ys) s \<Longrightarrow> run_ops exec xs s = Inr t \<Longrightarrow>
   allowed exec ok xs s \<and> allowed exec ok ys t"
proof (induction xs arbitrary: s)
  case (Cons x xs)
  then show ?case by (cases "exec x s") auto
qed simp

locale op_invariant =
  fixes exec :: "'op \<Rightarrow> 's \<Rightarrow> 's res"
    and wf :: "'s \<Rightarrow> bool"
    and ok :: "'op \<Rightarrow> 's \<Rightarrow> bool"
  assumes exec_safe: "wf s \<Longrightarrow> ok op s \<Longrightarrow> \<exists>s'. exec op s = Inr s' \<and> wf s'"
begin

lemma run_safe:
  "wf s \<Longrightarrow> allowed exec ok ops s \<Longrightarrow> \<exists>s'. run_ops exec ops s = Inr s' \<and> wf s'"
proof (induction ops arbitrary: s)
  case (Cons op ops)
  then obtain s1 where "exec op s = Inr s1" "wf s1" using exec_safe [of s op] by auto
  with Cons.prems Cons.IH [of s1] show ?case by simp
qed simp

end

locale op_machine = op_invariant exec wf ok
  for exec :: "'op \<Rightarrow> 's \<Rightarrow> 's res" and wf :: "'s \<Rightarrow> bool" and ok :: "'op \<Rightarrow> 's \<Rightarrow> bool" +
  fixes abs :: "'s \<Rightarrow> 'a"
    and spec :: "'op \<Rightarrow> 'a \<Rightarrow> 'a"
  assumes exec_refines: "wf s \<Longrightarrow> ok op s \<Longrightarrow> exec op s = Inr s' \<Longrightarrow> abs s' = spec op (abs s)"
begin

lemma run_refines:
  "wf s \<Longrightarrow> allowed exec ok ops s \<Longrightarrow>
   \<exists>s'. run_ops exec ops s = Inr s' \<and> wf s' \<and> abs s' = fold spec ops (abs s)"
proof (induction ops arbitrary: s)
  case (Cons op ops)
  then obtain s1 where s1: "exec op s = Inr s1" "wf s1" using exec_safe [of s op] by auto
  with Cons.prems have "abs s1 = spec op (abs s)" using exec_refines [of s op s1] by simp
  with s1 Cons.prems Cons.IH [of s1] show ?case by simp
qed simp

end

section \<open>Transition systems\<close>

text \<open>
  For the components that several threads drive: the states reachable from an initial
  predicate through a step relation, and the interface of an inductive invariant.
\<close>

inductive reach :: "('s \<Rightarrow> bool) \<Rightarrow> ('s \<Rightarrow> 's \<Rightarrow> bool) \<Rightarrow> 's \<Rightarrow> bool" for init step where
  reach_init: "init s \<Longrightarrow> reach init step s"
| reach_step: "reach init step s \<Longrightarrow> step s t \<Longrightarrow> reach init step t"

locale inductive_invariant =
  fixes init :: "'s \<Rightarrow> bool" and step :: "'s \<Rightarrow> 's \<Rightarrow> bool" and inv :: "'s \<Rightarrow> bool"
  assumes inv_start: "init s \<Longrightarrow> inv s"
    and inv_next: "step s t \<Longrightarrow> inv s \<Longrightarrow> inv t"
begin

lemma inv_reach: "reach init step s \<Longrightarrow> inv s"
  by (induction rule: reach.induct) (auto intro: inv_start inv_next)

end

end
