(* ===== verification/Net_Buffer.thy ===== *)
theory Net_Buffer
  imports Prelude
begin

text \<open>
  The application buffer of a connection (\<open>reactor/Buffer.h\<close>, \<open>reactor/Buffer.cpp\<close>): one
  vector of bytes with a read and a write index.  The operations are proved to refine a FIFO
  queue of bytes, the interface \<open>byte_fifo\<close> through which the connection uses the buffer.
\<close>

section \<open>State and operations\<close>

record buffer =
  buf :: "byte list"
  read_index :: nat
  write_index :: nat

definition new_buffer :: "nat \<Rightarrow> buffer" where
  "new_buffer initial_size = \<lparr>buf = replicate initial_size 0, read_index = 0, write_index = 0\<rparr>"

definition readableBytes :: "buffer \<Rightarrow> nat" where
  "readableBytes b = size_sub (write_index b) (read_index b)"

definition writableBytes :: "buffer \<Rightarrow> nat" where
  "writableBytes b = size_sub (length (buf b)) (write_index b)"

text \<open>A pointer into the storage is its offset.\<close>

definition peek :: "buffer \<Rightarrow> nat" where
  "peek b = read_index b"

definition retrieveAll :: "buffer \<Rightarrow> buffer" where
  "retrieveAll b = b\<lparr>read_index := 0, write_index := 0\<rparr>"

definition retrieve :: "nat \<Rightarrow> buffer \<Rightarrow> buffer" where
  "retrieve len b = (if len < readableBytes b
     then b\<lparr>read_index := read_index b + len\<rparr> else retrieveAll b)"

definition retrieveAsString :: "nat \<Rightarrow> buffer \<Rightarrow> (byte list \<times> buffer) res" where
  "retrieveAsString len b =
     bind_res (load (buf b) (peek b) len) (\<lambda>result. Inr (result, retrieve len b))"

definition retrieveAllAsString :: "buffer \<Rightarrow> (byte list \<times> buffer) res" where
  "retrieveAllAsString b = retrieveAsString (readableBytes b) b"

text \<open>\<open>std::vector::resize\<close>: cut, or extend with value-initialised elements.\<close>

definition resize :: "nat \<Rightarrow> byte list \<Rightarrow> byte list" where
  "resize n xs = take n xs @ replicate (n - length xs) 0"

definition ensureWritableBytes :: "nat \<Rightarrow> buffer \<Rightarrow> buffer" where
  "ensureWritableBytes len b = (if writableBytes b < len
     then b\<lparr>buf := resize (write_index b + len) (buf b)\<rparr> else b)"

definition append_buf :: "byte list \<Rightarrow> buffer \<Rightarrow> buffer res" where
  "append_buf data b = (let b = ensureWritableBytes (length data) b in
     bind_res (store (buf b) (write_index b) data)
       (\<lambda>xs. Inr (b\<lparr>buf := xs, write_index := write_index b + length data\<rparr>)))"

definition hasWritten :: "nat \<Rightarrow> buffer \<Rightarrow> buffer" where
  "hasWritten len b = b\<lparr>write_index := size_add (write_index b) len\<rparr>"

text \<open>
  \<open>readFd\<close>: the answer is what \<open>readv\<close> delivered for the two blocks, the writable part of
  the vector first and then the array \<open>extrabuf\<close> of \<open>extra_size\<close> bytes.  An answer longer
  than both blocks would overrun \<open>extrabuf\<close>; the documented behaviour of \<open>readv\<close> rules it
  out (\<open>readv_law\<close>).
\<close>

definition extra_size :: nat where
  "extra_size = 65536"

definition readv_law :: "read_answer \<Rightarrow> buffer \<Rightarrow> bool" where
  "readv_law ans b = (case ans of ReadFail e \<Rightarrow> True
     | Delivered data \<Rightarrow> length data \<le> writableBytes b + extra_size)"

definition readFd :: "read_answer \<Rightarrow> buffer \<Rightarrow> (int \<times> buffer) res" where
  "readFd ans b = (case ans of
     ReadFail e \<Rightarrow> Inr (- 1, b)
   | Delivered data \<Rightarrow>
       (let n = length data;
            written_to_first = min n (writableBytes b);
            remaining = n - written_to_first;
            extrabuf = drop written_to_first data
        in bind_res (store (buf b) (write_index b) (take written_to_first data)) (\<lambda>xs.
           let b1 = b\<lparr>buf := xs, write_index := write_index b + written_to_first\<rparr>
           in if remaining > 0
              then if remaining \<le> extra_size
                   then bind_res (append_buf extrabuf b1) (\<lambda>b2. Inr (int n, b2))
                   else Inl OutOfBounds
              else Inr (int n, b1))))"

section \<open>Invariant and abstraction\<close>

definition buf_inv :: "buffer \<Rightarrow> bool" where
  "buf_inv b \<longleftrightarrow> read_index b \<le> write_index b \<and> write_index b \<le> length (buf b)"

definition contents :: "buffer \<Rightarrow> byte list" where
  "contents b = segment (buf b) (read_index b) (write_index b)"

lemma buf_invI [intro]:
  "read_index b \<le> write_index b \<Longrightarrow> write_index b \<le> length (buf b) \<Longrightarrow> buf_inv b"
  by (simp add: buf_inv_def)

lemma buf_invD:
  "buf_inv b \<Longrightarrow> read_index b \<le> write_index b"
  "buf_inv b \<Longrightarrow> write_index b \<le> length (buf b)"
  by (simp_all add: buf_inv_def)

lemma new_buffer_inv [simp]: "buf_inv (new_buffer n)" "contents (new_buffer n) = []"
  by (auto simp: new_buffer_def contents_def)

lemma readable_contents [buffer_simps]:
  "buf_inv b \<Longrightarrow> readableBytes b = length (contents b)"
  by (auto simp: readableBytes_def contents_def length_segment buf_inv_def)

lemma writable_inv [buffer_simps]:
  "buf_inv b \<Longrightarrow> writableBytes b = length (buf b) - write_index b"
  by (simp add: writableBytes_def buf_inv_def)

lemmas buf_eval = append_buf_def ensureWritableBytes_def writableBytes_def readableBytes_def
  store_def load_def resize_def retrieve_def retrieveAll_def retrieveAsString_def peek_def
  readFd_def readv_law_def extra_size_def Let_def

lemma retrieveAll_fifo: "buf_inv (retrieveAll b)" "contents (retrieveAll b) = []"
  by (auto simp: retrieveAll_def contents_def)

lemma retrieve_fifo:
  assumes "buf_inv b"
  shows "buf_inv (retrieve n b)" "contents (retrieve n b) = drop n (contents b)"
proof -
  have "n < write_index b - read_index b \<Longrightarrow>
      contents (b\<lparr>read_index := read_index b + n\<rparr>) = drop n (contents b)"
    by (simp add: contents_def segment_drop)
  then show "buf_inv (retrieve n b)" "contents (retrieve n b) = drop n (contents b)"
    using assms by (auto simp: retrieve_def retrieveAll_fifo readableBytes_def buf_inv_def
        contents_def length_segment retrieveAll_def)
qed

lemma load_contents:
  assumes "buf_inv b" "n \<le> length (contents b)"
  shows "load (buf b) (peek b) n = Inr (take n (contents b))"
  using assms by (auto simp: load_def peek_def contents_def segment_take length_segment buf_inv_def)

lemma retrieveAsString_fifo:
  "buf_inv b \<Longrightarrow> n \<le> length (contents b) \<Longrightarrow>
   retrieveAsString n b = Inr (take n (contents b), retrieve n b)"
  by (simp add: retrieveAsString_def load_contents)

lemma retrieveAllAsString_fifo:
  "buf_inv b \<Longrightarrow> retrieveAllAsString b = Inr (contents b, retrieve (length (contents b)) b)"
  by (simp add: retrieveAllAsString_def retrieveAsString_fifo buffer_simps)

lemma length_resize [simp]: "length (resize n xs) = n"
  by (simp add: resize_def)

lemma resize_extends: "length xs \<le> n \<Longrightarrow> resize n xs = xs @ replicate (n - length xs) 0"
  by (simp add: resize_def)

lemma ensure_fifo:
  assumes "buf_inv b"
  shows "buf_inv (ensureWritableBytes n b)"
    and "contents (ensureWritableBytes n b) = contents b"
    and "read_index (ensureWritableBytes n b) = read_index b"
    and "write_index (ensureWritableBytes n b) = write_index b"
    and "write_index b + n \<le> length (buf (ensureWritableBytes n b))"
    and "length (buf (ensureWritableBytes n b)) = max (length (buf b)) (write_index b + n)"
  using assms by (auto simp: ensureWritableBytes_def buffer_simps buf_inv_def contents_def
      resize_extends segment_prefix)

lemma store_contents:
  assumes "buf_inv b" "write_index b + length data \<le> length (buf b)"
  obtains xs where "store (buf b) (write_index b) data = Inr xs"
    and "length xs = length (buf b)"
    and "buf_inv (b\<lparr>buf := xs, write_index := write_index b + length data\<rparr>)"
    and "contents (b\<lparr>buf := xs, write_index := write_index b + length data\<rparr>) = contents b @ data"
proof -
  let ?xs = "take (write_index b) (buf b) @ data @ drop (write_index b + length data) (buf b)"
  have "contents (b\<lparr>buf := ?xs, write_index := write_index b + length data\<rparr>) = contents b @ data"
    using assms by (simp add: contents_def segment_store buf_inv_def)
  moreover have "buf_inv (b\<lparr>buf := ?xs, write_index := write_index b + length data\<rparr>)"
    using assms by (auto simp: buf_inv_def)
  moreover have "length ?xs = length (buf b)" using assms by auto
  ultimately show thesis using that [of ?xs] assms by (simp add: store_in)
qed

lemma append_fifo:
  assumes "buf_inv b"
  obtains b' where "append_buf data b = Inr b'" "buf_inv b'" "contents b' = contents b @ data"
    "length (buf b') = max (length (buf b)) (write_index b + length data)"
    "write_index b' = write_index b + length data" "read_index b' = read_index b"
proof -
  let ?b = "ensureWritableBytes (length data) b"
  note ens = ensure_fifo [OF assms, of "length data"]
  obtain xs where xs: "store (buf ?b) (write_index ?b) data = Inr xs" "length xs = length (buf ?b)"
    "buf_inv (?b\<lparr>buf := xs, write_index := write_index ?b + length data\<rparr>)"
    "contents (?b\<lparr>buf := xs, write_index := write_index ?b + length data\<rparr>) = contents ?b @ data"
    using store_contents [of ?b data] ens by (metis)
  then show thesis
    using that [of "?b\<lparr>buf := xs, write_index := write_index ?b + length data\<rparr>"] ens
    by (simp add: append_buf_def Let_def)
qed


lemma readFd_fail [simp]: "readFd (ReadFail e) b = Inr (- 1, b)"
  by (simp add: readFd_def)

lemma readFd_fifo:
  assumes inv: "buf_inv b" and law: "readv_law (Delivered data) b"
  obtains b' where "readFd (Delivered data) b = Inr (int (length data), b')" "buf_inv b'"
    "contents b' = contents b @ data"
    "length (buf b') = max (length (buf b)) (write_index b + length data)"
    "write_index b' = write_index b + length data" "read_index b' = read_index b"
proof -
  let ?w = "min (length data) (writableBytes b)"
  let ?d1 = "take ?w data" and ?d2 = "drop ?w data"
  have fit: "write_index b + length ?d1 \<le> length (buf b)" and len1: "length ?d1 = ?w"
    using inv by (auto simp: buffer_simps buf_inv_def)
  obtain xs where xs: "store (buf b) (write_index b) ?d1 = Inr xs" "length xs = length (buf b)"
    "buf_inv (b\<lparr>buf := xs, write_index := write_index b + ?w\<rparr>)"
    "contents (b\<lparr>buf := xs, write_index := write_index b + ?w\<rparr>) = contents b @ ?d1"
    using store_contents [OF inv fit] unfolding len1 by metis
  let ?b1 = "b\<lparr>buf := xs, write_index := write_index b + ?w\<rparr>"
  obtain b2 where b2: "append_buf ?d2 ?b1 = Inr b2" "buf_inv b2" "contents b2 = contents ?b1 @ ?d2"
    "length (buf b2) = max (length (buf ?b1)) (write_index ?b1 + length ?d2)"
    "write_index b2 = write_index ?b1 + length ?d2" "read_index b2 = read_index ?b1"
    using append_fifo [OF xs(3), of ?d2] by metis
  show thesis
  proof (cases "length data - ?w > 0")
    case True
    moreover have "length data - ?w \<le> extra_size" using law by (simp add: readv_law_def)
    ultimately show thesis using xs b2 inv
      by (intro that [of b2]) (auto simp: readFd_def Let_def)
  next
    case False
    then have "?w = length data" by simp
    then show thesis using xs fit
      by (intro that [of ?b1]) (auto simp: readFd_def Let_def)
  qed
qed

section \<open>The queue interface\<close>

text \<open>
  What the connection relies on: bytes are put at the end and dropped from the front, and the
  pair of a transferred prefix and the remaining queue never loses, repeats or reorders one.
\<close>

locale byte_fifo =
  fixes put :: "byte list \<Rightarrow> 'q \<Rightarrow> 'q res"
    and discard :: "nat \<Rightarrow> 'q \<Rightarrow> 'q"
    and front :: "'q \<Rightarrow> byte list"
    and wf :: "'q \<Rightarrow> bool"
  assumes put_ok: "wf q \<Longrightarrow> \<exists>q'. put xs q = Inr q' \<and> wf q' \<and> front q' = front q @ xs"
    and discard_wf: "wf q \<Longrightarrow> wf (discard n q)"
    and discard_front: "wf q \<Longrightarrow> front (discard n q) = drop n (front q)"
begin

lemma transfer_conserves:
  "wf q \<Longrightarrow> (out @ take n (front q)) @ front (discard n q) = out @ front q"
  by (simp add: discard_front)

lemma put_conserves:
  "wf q \<Longrightarrow> put xs q = Inr q' \<Longrightarrow> wf q' \<and> front q' = front q @ xs"
  using put_ok by (metis sum.inject(2))

lemma put_never_faults: "wf q \<Longrightarrow> \<exists>q'. put xs q = Inr q'"
  using put_ok by blast

end

interpretation fifo: byte_fifo append_buf retrieve contents buf_inv
proof unfold_locales
  fix q :: buffer and xs assume "buf_inv q"
  then show "\<exists>q'. append_buf xs q = Inr q' \<and> buf_inv q' \<and> contents q' = contents q @ xs"
    by (metis append_fifo)
qed (auto simp: retrieve_fifo)

section \<open>Every sequence of operations refines a queue\<close>

datatype buf_op = Append "byte list" | ReadFd read_answer | Retrieve nat | RetrieveAll
  | RetrieveAsString nat | RetrieveAllAsString | EnsureWritable nat

fun buf_exec :: "buf_op \<Rightarrow> buffer \<Rightarrow> buffer res" where
  "buf_exec (Append data) b = append_buf data b"
| "buf_exec (ReadFd ans) b = bind_res (readFd ans b) (\<lambda>(n, b). Inr b)"
| "buf_exec (Retrieve n) b = Inr (retrieve n b)"
| "buf_exec RetrieveAll b = Inr (retrieveAll b)"
| "buf_exec (RetrieveAsString n) b = bind_res (retrieveAsString n b) (\<lambda>(s, b). Inr b)"
| "buf_exec RetrieveAllAsString b = bind_res (retrieveAllAsString b) (\<lambda>(s, b). Inr b)"
| "buf_exec (EnsureWritable n) b = Inr (ensureWritableBytes n b)"

fun buf_ok :: "buf_op \<Rightarrow> buffer \<Rightarrow> bool" where
  "buf_ok (ReadFd ans) b = readv_law ans b"
| "buf_ok (RetrieveAsString n) b = (n \<le> readableBytes b)"
| "buf_ok _ b = True"

fun queue_spec :: "buf_op \<Rightarrow> byte list \<Rightarrow> byte list" where
  "queue_spec (Append data) q = q @ data"
| "queue_spec (ReadFd (Delivered data)) q = q @ data"
| "queue_spec (ReadFd (ReadFail e)) q = q"
| "queue_spec (Retrieve n) q = drop n q"
| "queue_spec RetrieveAll q = []"
| "queue_spec (RetrieveAsString n) q = drop n q"
| "queue_spec RetrieveAllAsString q = []"
| "queue_spec (EnsureWritable n) q = q"

lemma buf_exec_refines:
  assumes "buf_inv b" "buf_ok op b"
  shows "\<exists>b'. buf_exec op b = Inr b' \<and> buf_inv b' \<and> contents b' = queue_spec op (contents b)"
proof (cases op)
  case (Append data)
  with assms show ?thesis by (simp add: fifo.put_ok)
next
  case (ReadFd ans)
  with assms show ?thesis by (cases ans) (auto elim: readFd_fifo [of b])
next
  case (RetrieveAsString n)
  with assms show ?thesis by (simp add: retrieveAsString_fifo retrieve_fifo buffer_simps)
qed (use assms in \<open>simp_all add: retrieve_fifo retrieveAll_fifo retrieveAllAsString_fifo ensure_fifo\<close>)

interpretation buf_machine: op_machine buf_exec buf_inv buf_ok contents queue_spec
  by unfold_locales (use buf_exec_refines in fastforce)+



text \<open>\<open>readFd\<close> appends exactly the bytes \<open>readv\<close> delivered, in order, whether
  they fit into the vector or spill into the extra buffer on the stack, and returns their
  number.\<close>

theorem readFd_appends:
  assumes "buf_inv b" "readv_law (Delivered data) b"
  shows "\<exists>b'. readFd (Delivered data) b = Inr (int (length data), b') \<and> buf_inv b' \<and>
    contents b' = contents b @ data"
  using assms by (metis readFd_fifo)

theorem readFd_appends_witness:
  "\<exists>b'. readFd (Delivered [7, 8, 9]) (new_buffer 2) = Inr (3, b') \<and> buf_inv b' \<and>
    contents b' = [7, 8, 9]"
  using readFd_appends [of "new_buffer 2" "[7, 8, 9]"]
  by (simp add: readv_law_def extra_size_def)

text \<open>\<open>retrieveAllAsString\<close> returns exactly what had been queued and leaves an empty
  buffer with both indices reset.\<close>

theorem retrieveAllAsString_returns_contents:
  assumes "buf_inv b"
  shows "\<exists>b'. retrieveAllAsString b = Inr (contents b, b') \<and> contents b' = [] \<and>
    read_index b' = 0 \<and> write_index b' = 0 \<and> buf b' = buf b"
  using assms by (auto simp: retrieveAllAsString_fifo retrieve_def retrieveAll_fifo buffer_simps)
    (simp_all add: retrieveAll_def)

theorem retrieveAllAsString_returns_contents_witness:
  "\<exists>b'. retrieveAllAsString \<lparr>buf = [1, 2, 3, 4], read_index = 1, write_index = 3\<rparr> = Inr ([2, 3], b') \<and>
    contents b' = [] \<and> read_index b' = 0 \<and> write_index b' = 0 \<and> buf b' = [1, 2, 3, 4]"
  using retrieveAllAsString_returns_contents
    [of "\<lparr>buf = [1, 2, 3, 4], read_index = 1, write_index = 3\<rparr>"]
  by (simp add: buf_inv_def contents_def segment_def)

text \<open>Space in front of the read index is not reused while data is pending: on a full
  buffer, taking \<open>n\<close> bytes out (but not all) and appending \<open>n\<close> bytes extends the vector
  by \<open>n\<close>, although the number of queued bytes is the same as before.\<close>

theorem partial_retrieve_grows_storage:
  assumes "buf_inv b" "write_index b = length (buf b)" "length data < length (contents b)"
  shows "\<exists>b'. append_buf data (retrieve (length data) b) = Inr b' \<and>
    length (contents b') = length (contents b) \<and>
    length (buf b') = length (buf b) + length data"
proof -
  let ?r = "retrieve (length data) b"
  have r: "write_index ?r = length (buf b)" "buf ?r = buf b"
    using assms by (simp_all add: retrieve_def buffer_simps)
  obtain b' where "append_buf data ?r = Inr b'" "contents b' = contents ?r @ data"
    "length (buf b') = max (length (buf ?r)) (write_index ?r + length data)"
    using append_fifo [OF retrieve_fifo(1) [OF assms(1)]] by metis
  with assms r show ?thesis by (auto simp: retrieve_fifo)
qed

theorem partial_retrieve_grows_storage_witness:
  "\<exists>b'. append_buf [3] (retrieve 1 \<lparr>buf = [1, 2], read_index = 0, write_index = 2\<rparr>) = Inr b' \<and>
    length (contents b') = 2 \<and> length (buf b') = 3"
  using partial_retrieve_grows_storage [of "\<lparr>buf = [1, 2], read_index = 0, write_index = 2\<rparr>" "[3]"]
  by (simp add: buf_inv_def contents_def segment_def numeral_2_eq_2 numeral_3_eq_3)

end
