(* ===== verification/Poller.thy ===== *)
theory Poller
  imports Prelude
begin

text \<open>
  A channel (\<open>reactor/Channel.h\<close>, \<open>reactor/Channel.cpp\<close>) and the registry of channels an event
  loop keeps in front of its epoll instance (\<open>updateChannel\<close>, \<open>removeChannel\<close> of
  \<open>reactor/EventLoop.cpp\<close>).  \<open>epoll_ctl\<close> is a parameter: a function from the call and the
  state of the kernel to success or failure and the new state, with the behaviour its manual
  page documents as the hypothesis \<open>epoll_law\<close>.
\<close>

section \<open>Event masks\<close>

definition EPOLLIN :: uint32 where "EPOLLIN = 0x001"
definition EPOLLPRI :: uint32 where "EPOLLPRI = 0x002"
definition EPOLLOUT :: uint32 where "EPOLLOUT = 0x004"
definition EPOLLERR :: uint32 where "EPOLLERR = 0x008"
definition EPOLLHUP :: uint32 where "EPOLLHUP = 0x010"
definition EPOLLRDHUP :: uint32 where "EPOLLRDHUP = 0x2000"

lemmas epoll_masks = EPOLLIN_def EPOLLPRI_def EPOLLOUT_def EPOLLERR_def EPOLLHUP_def EPOLLRDHUP_def

section \<open>Channels\<close>

text \<open>
  The four callbacks are \<open>std::function\<close> members that may be empty; \<open>'cb\<close> names the code a
  callback runs.  A \<open>Channel*\<close> is a number.
\<close>

type_synonym chan = nat

record 'cb channel =
  ch_fd :: fd
  events :: uint32
  revents :: uint32
  readCallback :: "'cb option"
  writeCallback :: "'cb option"
  closeCallback :: "'cb option"
  errorCallback :: "'cb option"

definition new_channel :: "fd \<Rightarrow> 'cb channel" where
  "new_channel fd = \<lparr>ch_fd = fd, events = 0, revents = 0, readCallback = None,
     writeCallback = None, closeCallback = None, errorCallback = None\<rparr>"

definition isNoneEvent :: "'cb channel \<Rightarrow> bool" where
  "isNoneEvent ch \<longleftrightarrow> events ch = 0"

definition setRevents :: "uint32 \<Rightarrow> 'cb channel \<Rightarrow> 'cb channel" where
  "setRevents r ch = ch\<lparr>revents := r\<rparr>"

section \<open>The registry of an event loop\<close>

datatype ctl_call = CtlAdd fd uint32 chan | CtlMod fd uint32 chan | CtlDel fd

type_synonym 'k epoll_ctl = "ctl_call \<Rightarrow> 'k \<Rightarrow> bool \<times> 'k"

type_synonym interest = "fd \<rightharpoonup> uint32 \<times> chan"

record 'k poller =
  channels :: "fd \<rightharpoonup> chan"
  kern :: 'k

definition updateChannel :: "'k epoll_ctl \<Rightarrow> chan \<Rightarrow> 'cb channel \<Rightarrow> 'k poller \<Rightarrow> 'k poller" where
  "updateChannel ctl p ch lp = (let fd = ch_fd ch in
     case channels lp fd of
       None \<Rightarrow> (let (ok, k) = ctl (CtlAdd fd (events ch) p) (kern lp) in
         if \<not> ok then lp\<lparr>kern := k\<rparr>
         else lp\<lparr>channels := (channels lp)(fd \<mapsto> p), kern := k\<rparr>)
     | Some q \<Rightarrow>
         if isNoneEvent ch
         then (let (ok, k) = ctl (CtlDel fd) (kern lp) in
           lp\<lparr>channels := (channels lp)(fd := None), kern := k\<rparr>)
         else (let (ok, k) = ctl (CtlMod fd (events ch) p) (kern lp) in lp\<lparr>kern := k\<rparr>))"

definition removeChannel :: "'k epoll_ctl \<Rightarrow> 'cb channel \<Rightarrow> 'k poller \<Rightarrow> 'k poller" where
  "removeChannel ctl ch lp = (let fd = ch_fd ch in
     case channels lp fd of
       None \<Rightarrow> lp
     | Some q \<Rightarrow> (let (ok, k) = ctl (CtlDel fd) (kern lp) in
         lp\<lparr>channels := (channels lp)(fd := None), kern := k\<rparr>))"

text \<open>
  The five operations of a channel that change its mask end in \<open>update()\<close>, which calls the
  loop's \<open>updateChannel\<close> with the channel itself.
\<close>

definition ch_update :: "'k epoll_ctl \<Rightarrow> chan \<Rightarrow> 'cb channel \<Rightarrow> 'k poller \<Rightarrow> 'cb channel \<times> 'k poller" where
  "ch_update ctl p ch lp = (ch, updateChannel ctl p ch lp)"

definition enableReading :: "'k epoll_ctl \<Rightarrow> chan \<Rightarrow> 'cb channel \<Rightarrow> 'k poller \<Rightarrow> 'cb channel \<times> 'k poller" where
  "enableReading ctl p ch lp = ch_update ctl p (ch\<lparr>events := events ch OR EPOLLIN\<rparr>) lp"

definition enableWriting :: "'k epoll_ctl \<Rightarrow> chan \<Rightarrow> 'cb channel \<Rightarrow> 'k poller \<Rightarrow> 'cb channel \<times> 'k poller" where
  "enableWriting ctl p ch lp = ch_update ctl p (ch\<lparr>events := events ch OR EPOLLOUT\<rparr>) lp"

definition disableReading :: "'k epoll_ctl \<Rightarrow> chan \<Rightarrow> 'cb channel \<Rightarrow> 'k poller \<Rightarrow> 'cb channel \<times> 'k poller" where
  "disableReading ctl p ch lp = ch_update ctl p (ch\<lparr>events := events ch AND NOT EPOLLIN\<rparr>) lp"

definition disableWriting :: "'k epoll_ctl \<Rightarrow> chan \<Rightarrow> 'cb channel \<Rightarrow> 'k poller \<Rightarrow> 'cb channel \<times> 'k poller" where
  "disableWriting ctl p ch lp = ch_update ctl p (ch\<lparr>events := events ch AND NOT EPOLLOUT\<rparr>) lp"

definition disableAll :: "'k epoll_ctl \<Rightarrow> chan \<Rightarrow> 'cb channel \<Rightarrow> 'k poller \<Rightarrow> 'cb channel \<times> 'k poller" where
  "disableAll ctl p ch lp = ch_update ctl p (ch\<lparr>events := 0\<rparr>) lp"

text \<open>The destructor \<open>~Channel\<close>: what it does to the registry.\<close>

definition destroy_channel :: "'k epoll_ctl \<Rightarrow> chan \<Rightarrow> 'cb channel \<Rightarrow> 'k poller \<Rightarrow> 'k poller" where
  "destroy_channel ctl p ch lp = (if \<not> isNoneEvent ch then snd (disableAll ctl p ch lp) else lp)"

lemmas channel_op_defs = enableReading_def enableWriting_def disableReading_def
  disableWriting_def disableAll_def ch_update_def

section \<open>Dispatch of one channel\<close>

text \<open>
  \<open>handleEvent\<close> runs in a world \<open>'w\<close> that its callbacks may change; they may even destroy the
  channel.  \<open>get\<close> reads the channel object there, \<open>None\<close> when it has been destroyed, and each
  of the four tests of \<open>revents_\<close> is a member access of its own.
\<close>

definition deref :: "('w \<Rightarrow> 'cb channel option) \<Rightarrow> 'w \<Rightarrow> 'cb channel res" where
  "deref get w = (case get w of None \<Rightarrow> Inl UseAfterFree | Some ch \<Rightarrow> Inr ch)"

definition call :: "('cb \<Rightarrow> 'w \<Rightarrow> 'w res) \<Rightarrow> 'cb option \<Rightarrow> 'w \<Rightarrow> 'w res" where
  "call run cb w = (case cb of None \<Rightarrow> Inr w | Some f \<Rightarrow> run f w)"

definition handle_error_part :: "('cb \<Rightarrow> 'w \<Rightarrow> 'w res) \<Rightarrow> 'cb channel \<Rightarrow> 'w \<Rightarrow> 'w res" where
  "handle_error_part run ch w =
     (if revents ch AND EPOLLERR \<noteq> 0 then call run (errorCallback ch) w else Inr w)"

definition handle_read_part :: "('cb \<Rightarrow> 'w \<Rightarrow> 'w res) \<Rightarrow> 'cb channel \<Rightarrow> 'w \<Rightarrow> 'w res" where
  "handle_read_part run ch w =
     (if revents ch AND (EPOLLIN OR EPOLLPRI OR EPOLLRDHUP) \<noteq> 0
      then if revents ch AND EPOLLRDHUP \<noteq> 0
           then call run (closeCallback ch) w
           else call run (readCallback ch) w
      else Inr w)"

definition handle_write_part :: "('cb \<Rightarrow> 'w \<Rightarrow> 'w res) \<Rightarrow> 'cb channel \<Rightarrow> 'w \<Rightarrow> 'w res" where
  "handle_write_part run ch w =
     (if revents ch AND EPOLLOUT \<noteq> 0 then call run (writeCallback ch) w else Inr w)"

definition handle_hup_part :: "('cb \<Rightarrow> 'w \<Rightarrow> 'w res) \<Rightarrow> 'cb channel \<Rightarrow> 'w \<Rightarrow> 'w res" where
  "handle_hup_part run ch w =
     (if revents ch AND EPOLLHUP \<noteq> 0 \<and> \<not> revents ch AND EPOLLIN \<noteq> 0
      then call run (closeCallback ch) w else Inr w)"

definition handleEvent :: "('cb \<Rightarrow> 'w \<Rightarrow> 'w res) \<Rightarrow> ('w \<Rightarrow> 'cb channel option) \<Rightarrow> 'w \<Rightarrow> 'w res" where
  "handleEvent run get w =
     bind_res (bind_res (deref get w) (\<lambda>ch. handle_error_part run ch w)) (\<lambda>w.
     bind_res (bind_res (deref get w) (\<lambda>ch. handle_read_part run ch w)) (\<lambda>w.
     bind_res (bind_res (deref get w) (\<lambda>ch. handle_write_part run ch w)) (\<lambda>w.
     bind_res (deref get w) (\<lambda>ch. handle_hup_part run ch w))))"

section \<open>The kernel's contract\<close>

text \<open>
  \<open>tbl\<close> reads the interest list of the epoll instance off the kernel state.  Documented:
  ADD fails on a registered descriptor, MOD and DEL on an unregistered one, a failing call
  changes nothing, and a successful one does what its name says.  ADD and MOD may also fail
  for lack of resources.
\<close>

definition epoll_law :: "'k epoll_ctl \<Rightarrow> ('k \<Rightarrow> interest) \<Rightarrow> bool" where
  "epoll_law ctl tbl \<longleftrightarrow>
     (\<forall>k fd ev p. case ctl (CtlAdd fd ev p) k of (ok, k') \<Rightarrow>
        if ok then tbl k fd = None \<and> tbl k' = (tbl k)(fd \<mapsto> (ev, p)) else tbl k' = tbl k) \<and>
     (\<forall>k fd ev p. case ctl (CtlMod fd ev p) k of (ok, k') \<Rightarrow>
        if ok then tbl k fd \<noteq> None \<and> tbl k' = (tbl k)(fd \<mapsto> (ev, p)) else tbl k' = tbl k) \<and>
     (\<forall>k fd. case ctl (CtlDel fd) k of (ok, k') \<Rightarrow>
        ok = (tbl k fd \<noteq> None) \<and> tbl k' = (tbl k)(fd := None))"

text \<open>A kernel that never runs out of resources, for concrete runs: its state is the table.\<close>

fun table_ctl :: "interest epoll_ctl" where
  "table_ctl (CtlAdd fd ev p) t = (if t fd = None then (True, t(fd \<mapsto> (ev, p))) else (False, t))"
| "table_ctl (CtlMod fd ev p) t = (if t fd \<noteq> None then (True, t(fd \<mapsto> (ev, p))) else (False, t))"
| "table_ctl (CtlDel fd) t = (t fd \<noteq> None, t(fd := None))"

lemma table_ctl_law: "epoll_law table_ctl id"
  by (auto simp: epoll_law_def)

lemma epoll_add:
  "epoll_law ctl tbl \<Longrightarrow> tbl (snd (ctl (CtlAdd fd ev p) k)) =
     (if fst (ctl (CtlAdd fd ev p) k) then (tbl k)(fd \<mapsto> (ev, p)) else tbl k)"
  "epoll_law ctl tbl \<Longrightarrow> fst (ctl (CtlAdd fd ev p) k) \<Longrightarrow> tbl k fd = None"
  unfolding epoll_law_def case_prod_beta by metis+

lemma epoll_mod:
  "epoll_law ctl tbl \<Longrightarrow> tbl (snd (ctl (CtlMod fd ev p) k)) =
     (if fst (ctl (CtlMod fd ev p) k) then (tbl k)(fd \<mapsto> (ev, p)) else tbl k)"
  "epoll_law ctl tbl \<Longrightarrow> fst (ctl (CtlMod fd ev p) k) \<Longrightarrow> tbl k fd \<noteq> None"
  unfolding epoll_law_def case_prod_beta by metis+

lemma epoll_del:
  "epoll_law ctl tbl \<Longrightarrow> tbl (snd (ctl (CtlDel fd) k)) = (tbl k)(fd := None)"
  "epoll_law ctl tbl \<Longrightarrow> fst (ctl (CtlDel fd) k) \<longleftrightarrow> tbl k fd \<noteq> None"
  unfolding epoll_law_def case_prod_beta by metis+

section \<open>The registry mirrors the kernel\<close>

definition mirrors :: "('k \<Rightarrow> interest) \<Rightarrow> 'k poller \<Rightarrow> bool" where
  "mirrors tbl lp \<longleftrightarrow> channels lp = (\<lambda>fd. map_option snd (tbl (kern lp) fd))"

text \<open>A channel owns its descriptor when no other channel is registered for it.\<close>

definition owns_fd :: "chan \<Rightarrow> 'cb channel \<Rightarrow> 'k poller \<Rightarrow> bool" where
  "owns_fd p ch lp \<longleftrightarrow> channels lp (ch_fd ch) = None \<or> channels lp (ch_fd ch) = Some p"

lemma updateChannel_add [poll_simps]:
  "channels lp (ch_fd ch) = None \<Longrightarrow> updateChannel ctl p ch lp =
     (let r = ctl (CtlAdd (ch_fd ch) (events ch) p) (kern lp) in
      lp\<lparr>channels := (if fst r then (channels lp)(ch_fd ch \<mapsto> p) else channels lp), kern := snd r\<rparr>)"
  by (simp add: updateChannel_def Let_def case_prod_beta)

lemma updateChannel_del [poll_simps]:
  "channels lp (ch_fd ch) = Some q \<Longrightarrow> events ch = 0 \<Longrightarrow> updateChannel ctl p ch lp =
     lp\<lparr>channels := (channels lp)(ch_fd ch := None), kern := snd (ctl (CtlDel (ch_fd ch)) (kern lp))\<rparr>"
  by (simp add: updateChannel_def isNoneEvent_def Let_def case_prod_beta)

lemma updateChannel_mod [poll_simps]:
  "channels lp (ch_fd ch) = Some q \<Longrightarrow> events ch \<noteq> 0 \<Longrightarrow> updateChannel ctl p ch lp =
     lp\<lparr>kern := snd (ctl (CtlMod (ch_fd ch) (events ch) p) (kern lp))\<rparr>"
  by (simp add: updateChannel_def isNoneEvent_def Let_def case_prod_beta)

lemma mirrorsD: "mirrors tbl lp \<Longrightarrow> map_option snd (tbl (kern lp) fd) = channels lp fd"
  by (simp add: mirrors_def)

lemma mirrorsI: "(\<And>fd. channels lp fd = map_option snd (tbl (kern lp) fd)) \<Longrightarrow> mirrors tbl lp"
  by (auto simp: mirrors_def)

lemma updateChannel_mirrors:
  assumes law: "epoll_law ctl tbl" and m: "mirrors tbl lp" and own: "owns_fd p ch lp"
  shows "mirrors tbl (updateChannel ctl p ch lp)"
proof (cases "channels lp (ch_fd ch)")
  case None
  then show ?thesis
    by (intro mirrorsI) (simp add: updateChannel_add Let_def epoll_add [OF law] mirrorsD [OF m])
next
  case (Some q)
  with own have "q = p" by (simp add: owns_fd_def)
  with Some show ?thesis
    by (cases "events ch = 0"; intro mirrorsI)
      (simp_all add: updateChannel_del updateChannel_mod epoll_del [OF law] epoll_mod [OF law]
        mirrorsD [OF m])
qed

lemma removeChannel_mirrors:
  assumes law: "epoll_law ctl tbl" and m: "mirrors tbl lp"
  shows "mirrors tbl (removeChannel ctl ch lp)"
  by (cases "channels lp (ch_fd ch)"; intro mirrorsI)
    (simp_all add: removeChannel_def Let_def case_prod_beta epoll_del [OF law] mirrorsD [OF m])

lemma updateChannel_frame:
  "fd \<noteq> ch_fd ch \<Longrightarrow> channels (updateChannel ctl p ch lp) fd = channels lp fd"
  by (auto simp: updateChannel_def Let_def split: option.splits prod.splits)

lemma updateChannel_own:
  "channels (updateChannel ctl p ch lp) (ch_fd ch) = None \<or>
   channels (updateChannel ctl p ch lp) (ch_fd ch) = Some p \<or>
   channels (updateChannel ctl p ch lp) (ch_fd ch) = channels lp (ch_fd ch)"
  by (auto simp: updateChannel_def Let_def split: option.splits prod.splits)

subsection \<open>A whole program of channel operations\<close>

text \<open>
  Several channels of one loop, each with its own descriptor, are operated in any order.  The
  state is the store of channel objects and the loop's registry.
\<close>

datatype ch_op = EnableReading | EnableWriting | DisableReading | DisableWriting | DisableAll

fun ch_exec :: "'k epoll_ctl \<Rightarrow> ch_op \<Rightarrow> chan \<Rightarrow> 'cb channel \<Rightarrow> 'k poller \<Rightarrow> 'cb channel \<times> 'k poller" where
  "ch_exec ctl EnableReading = enableReading ctl"
| "ch_exec ctl EnableWriting = enableWriting ctl"
| "ch_exec ctl DisableReading = disableReading ctl"
| "ch_exec ctl DisableWriting = disableWriting ctl"
| "ch_exec ctl DisableAll = disableAll ctl"

fun registry_run :: "'k epoll_ctl \<Rightarrow> (chan \<times> ch_op) list \<Rightarrow> (chan \<Rightarrow> 'cb channel) \<Rightarrow> 'k poller \<Rightarrow>
    (chan \<Rightarrow> 'cb channel) \<times> 'k poller" where
  "registry_run ctl [] h lp = (h, lp)"
| "registry_run ctl ((p, op) # ops) h lp =
     (let (ch, lp) = ch_exec ctl op p (h p) lp in registry_run ctl ops (h(p := ch)) lp)"

definition registry_inv :: "('k \<Rightarrow> interest) \<Rightarrow> (chan \<Rightarrow> 'cb channel) \<Rightarrow> 'k poller \<Rightarrow> bool" where
  "registry_inv tbl h lp \<longleftrightarrow> inj (\<lambda>p. ch_fd (h p)) \<and> mirrors tbl lp \<and>
     (\<forall>fd p. channels lp fd = Some p \<longrightarrow> ch_fd (h p) = fd)"

lemma ch_exec_update:
  "\<exists>ev. ch_exec ctl op p ch lp = (ch\<lparr>events := ev\<rparr>, updateChannel ctl p (ch\<lparr>events := ev\<rparr>) lp)"
  by (cases op) (auto simp: channel_op_defs)

lemma ch_exec_registry_inv:
  assumes law: "epoll_law ctl tbl" and inv: "registry_inv tbl h lp"
    and ex: "ch_exec ctl op p (h p) lp = (ch, lp')"
  shows "registry_inv tbl (h(p := ch)) lp'"
proof -
  obtain ev where ch: "ch = (h p)\<lparr>events := ev\<rparr>" and lp: "lp' = updateChannel ctl p ch lp"
    using ch_exec_update [of ctl op p "h p" lp] ex by auto
  have fd: "ch_fd ch = ch_fd (h p)" using ch by simp
  from inv have reg: "\<And>fd q. channels lp fd = Some q \<Longrightarrow> ch_fd (h q) = fd"
    and inj: "inj (\<lambda>p. ch_fd (h p))" and m: "mirrors tbl lp"
    by (auto simp: registry_inv_def)
  have own: "owns_fd p ch lp"
    using reg injD [OF inj] fd by (cases "channels lp (ch_fd ch)") (fastforce simp: owns_fd_def)+
  have "ch_fd (h q) = f" if "channels lp' f = Some q" for f q
  proof (cases "f = ch_fd ch")
    case True
    with that own updateChannel_own [of ctl p ch lp] have "q = p"
      unfolding lp owns_fd_def by auto
    with True fd show ?thesis by simp
  next
    case False
    with that reg show ?thesis unfolding lp by (simp add: updateChannel_frame)
  qed
  moreover have "(\<lambda>q. ch_fd ((h(p := ch)) q)) = (\<lambda>q. ch_fd (h q))" using fd by auto
  ultimately show ?thesis
    using inj updateChannel_mirrors [OF law m own] fd unfolding registry_inv_def lp by auto
qed

lemma registry_run_inv:
  assumes law: "epoll_law ctl tbl"
  shows "registry_inv tbl h lp \<Longrightarrow> registry_run ctl ops h lp = (h', lp') \<Longrightarrow> registry_inv tbl h' lp'"
proof (induction ops arbitrary: h lp)
  case (Cons op ops)
  obtain p o1 where op: "op = (p, o1)" by fastforce
  obtain ch lp1 where c: "ch_exec ctl o1 p (h p) lp = (ch, lp1)" by fastforce
  from Cons.prems(2) op c have "registry_run ctl ops (h(p := ch)) lp1 = (h', lp')" by simp
  with Cons.IH [OF ch_exec_registry_inv [OF law Cons.prems(1) c]] show ?case .
qed simp

text \<open>C15: Whatever sequence of enable and disable calls the channels of a loop make, the map
  \<open>channels_\<close> holds exactly the descriptors on the kernel's interest list, each with the
  channel the kernel will hand back in \<open>data.ptr\<close>, also when \<open>epoll_ctl\<close> fails.\<close>

theorem registry_mirrors_kernel:
  assumes "epoll_law ctl tbl" "registry_inv tbl h lp"
    and "registry_run ctl ops h lp = (h', lp')"
  shows "channels lp' = (\<lambda>fd. map_option snd (tbl (kern lp') fd))"
  using registry_run_inv [OF assms] by (simp add: registry_inv_def mirrors_def)

theorem registry_mirrors_kernel_witness:
  "channels (snd (registry_run table_ctl [(3, EnableReading), (4, EnableReading), (3, EnableWriting), (4, DisableAll)]
      (\<lambda>p. new_channel (int p) :: unit channel) \<lparr>channels = Map.empty, kern = Map.empty\<rparr>))
   = [3 \<mapsto> 3]"
proof -
  let ?lp = "\<lparr>channels = Map.empty, kern = Map.empty\<rparr> :: interest poller"
  let ?h = "\<lambda>p. new_channel (int p) :: unit channel"
  let ?ops = "[(3, EnableReading), (4, EnableReading), (3, EnableWriting), (4, DisableAll)]"
  have inv: "registry_inv id ?h ?lp"
    by (auto simp: registry_inv_def mirrors_def new_channel_def inj_def)
  obtain h' lp' where r: "registry_run table_ctl ?ops ?h ?lp = (h', lp')" by fastforce
  then have "kern lp' = [3 \<mapsto> (EPOLLIN OR EPOLLOUT, 3)]"
    by (simp add: channel_op_defs updateChannel_def new_channel_def isNoneEvent_def epoll_masks Let_def)
      (auto simp: fun_eq_iff)
  with registry_mirrors_kernel [OF table_ctl_law inv r] r show ?thesis by auto
qed

section \<open>Which callbacks an event runs\<close>

text \<open>The callbacks \<open>handleEvent\<close> runs, in order, for the reported events.\<close>

definition dispatch_list :: "'cb channel \<Rightarrow> 'cb option list" where
  "dispatch_list ch =
     (if revents ch AND EPOLLERR \<noteq> 0 then [errorCallback ch] else []) @
     (if revents ch AND (EPOLLIN OR EPOLLPRI OR EPOLLRDHUP) \<noteq> 0
      then [if revents ch AND EPOLLRDHUP \<noteq> 0 then closeCallback ch else readCallback ch] else []) @
     (if revents ch AND EPOLLOUT \<noteq> 0 then [writeCallback ch] else []) @
     (if revents ch AND EPOLLHUP \<noteq> 0 \<and> \<not> revents ch AND EPOLLIN \<noteq> 0 then [closeCallback ch] else [])"

fun run_calls :: "('cb \<Rightarrow> 'w \<Rightarrow> 'w res) \<Rightarrow> 'cb option list \<Rightarrow> 'w \<Rightarrow> 'w res" where
  "run_calls run [] w = Inr w"
| "run_calls run (c # cs) w = bind_res (call run c w) (run_calls run cs)"

lemma bind_res_cong: "(\<And>x. m = Inr x \<Longrightarrow> f x = g x) \<Longrightarrow> bind_res m f = bind_res m g"
  by (cases m) simp_all

lemma bind_run_calls_Nil [simp]: "bind_res m (run_calls run []) = m"
  by (cases m) simp_all

lemma run_calls_append: "run_calls run (xs @ ys) w = bind_res (run_calls run xs w) (run_calls run ys)"
proof (induction xs arbitrary: w)
  case (Cons x xs)
  then show ?case by (cases "call run x w") simp_all
qed simp

definition keeps_channel :: "('cb \<Rightarrow> 'w \<Rightarrow> 'w res) \<Rightarrow> ('w \<Rightarrow> 'cb channel option) \<Rightarrow> 'cb channel \<Rightarrow> bool" where
  "keeps_channel run get ch \<longleftrightarrow>
     (\<forall>cb w w'. get w = Some ch \<and> run cb w = Inr w' \<longrightarrow> get w' = Some ch)"

lemma run_calls_keeps:
  "keeps_channel run get ch \<Longrightarrow> get w = Some ch \<Longrightarrow> run_calls run cs w = Inr w' \<Longrightarrow> get w' = Some ch"
proof (induction cs arbitrary: w)
  case (Cons c cs)
  then show ?case
    by (cases c) (auto simp: call_def bind_res_eq_Inr keeps_channel_def)
qed simp

lemma handle_part_calls:
  "handle_error_part run ch w =
     run_calls run (if revents ch AND EPOLLERR \<noteq> 0 then [errorCallback ch] else []) w"
  "handle_read_part run ch w =
     run_calls run (if revents ch AND (EPOLLIN OR EPOLLPRI OR EPOLLRDHUP) \<noteq> 0
       then [if revents ch AND EPOLLRDHUP \<noteq> 0 then closeCallback ch else readCallback ch] else []) w"
  "handle_write_part run ch w =
     run_calls run (if revents ch AND EPOLLOUT \<noteq> 0 then [writeCallback ch] else []) w"
  "handle_hup_part run ch w =
     run_calls run (if revents ch AND EPOLLHUP \<noteq> 0 \<and> \<not> revents ch AND EPOLLIN \<noteq> 0
       then [closeCallback ch] else []) w"
  by (simp_all add: handle_error_part_def handle_read_part_def handle_write_part_def
      handle_hup_part_def)

lemma part_then_rest:
  assumes keeps: "keeps_channel run get ch" and here: "get w = Some ch"
    and part: "\<And>w. part ch w = run_calls run cs w"
    and rest: "\<And>w. get w = Some ch \<Longrightarrow> rest w = run_calls run ds w"
  shows "bind_res (bind_res (deref get w) (\<lambda>ch. part ch w)) rest = run_calls run (cs @ ds) w"
proof -
  have "bind_res (run_calls run cs w) rest = bind_res (run_calls run cs w) (run_calls run ds)"
    by (intro bind_res_cong rest run_calls_keeps [OF keeps here])
  then show ?thesis by (simp add: deref_def here part run_calls_append)
qed

text \<open>For callbacks that leave the channel object alone, \<open>handleEvent\<close> is the run of
  this list: the error callback, then the close callback if the peer shut down and the read
  callback otherwise, then the write callback, then the close callback for a hang-up without
  readable data.\<close>

theorem handleEvent_dispatches:
  assumes keeps: "keeps_channel run get ch" and here: "get w = Some ch"
  shows "handleEvent run get w = run_calls run (dispatch_list ch) w"
proof -
  note part = part_then_rest [OF keeps]
  show ?thesis unfolding handleEvent_def dispatch_list_def
    by (rule part [where part = "handle_error_part run", OF here handle_part_calls(1)],
        rule part [where part = "handle_read_part run", OF _ handle_part_calls(2)], assumption,
        rule part [where part = "handle_write_part run", OF _ handle_part_calls(3)], assumption,
        simp add: deref_def handle_part_calls)
qed

theorem handleEvent_dispatches_witness:
  "handleEvent (\<lambda>cb (ch, log). Inr (ch, log @ [cb])) (\<lambda>(ch, log). Some ch)
     (\<lparr>ch_fd = 5, events = EPOLLIN, revents = EPOLLIN OR EPOLLOUT, readCallback = Some ''read'',
       writeCallback = Some ''write'', closeCallback = Some ''close'', errorCallback = None\<rparr>, [])
   = Inr (\<lparr>ch_fd = 5, events = EPOLLIN, revents = EPOLLIN OR EPOLLOUT, readCallback = Some ''read'',
       writeCallback = Some ''write'', closeCallback = Some ''close'', errorCallback = None\<rparr>,
      [''read'', ''write''])"
  by (subst handleEvent_dispatches, auto simp: keeps_channel_def dispatch_list_def epoll_masks call_def)

text \<open>A callback that destroys the channel leaves \<open>handleEvent\<close> with a dangling \<open>this\<close>.\<close>

lemma handleEvent_after_destruction:
  assumes "get w = Some ch" "revents ch AND EPOLLERR = 0" "revents ch AND EPOLLRDHUP = 0"
    "revents ch AND (EPOLLIN OR EPOLLPRI OR EPOLLRDHUP) \<noteq> 0"
    "readCallback ch = Some cb" "run cb w = Inr w'" "get w' = None"
  shows "handleEvent run get w = Inl UseAfterFree"
  using assms by (simp add: handleEvent_def handle_error_part_def handle_read_part_def call_def deref_def)

section \<open>Which events a channel can receive\<close>

definition epoll_report_law :: "uint32 \<Rightarrow> uint32 \<Rightarrow> bool" where
  "epoll_report_law subscribed reported \<longleftrightarrow> reported AND NOT (subscribed OR EPOLLERR OR EPOLLHUP) = 0"

definition in_out_only :: "uint32 \<Rightarrow> bool" where
  "in_out_only ev \<longleftrightarrow> ev AND NOT (EPOLLIN OR EPOLLOUT) = 0"

lemma mask_absorb: "(x :: uint32) AND NOT y = 0 \<longleftrightarrow> x = x AND y"
  by (auto simp: bit_eq_iff bit_simps)

lemma in_out_only_ops:
  "in_out_only 0"
  "in_out_only ev \<Longrightarrow> in_out_only (ev OR EPOLLIN)"
  "in_out_only ev \<Longrightarrow> in_out_only (ev OR EPOLLOUT)"
  "in_out_only ev \<Longrightarrow> in_out_only (ev AND m)"
  by (auto simp: in_out_only_def bit_eq_iff bit_simps)

lemma ch_exec_in_out_only:
  "in_out_only (events ch) \<Longrightarrow> in_out_only (events (fst (ch_exec ctl op p ch lp)))"
  by (cases op) (simp_all add: channel_op_defs in_out_only_ops)

lemma registry_run_in_out_only:
  "\<forall>p. in_out_only (events (h p)) \<Longrightarrow> registry_run ctl ops h lp = (h', lp') \<Longrightarrow>
   in_out_only (events (h' q))"
proof (induction ops arbitrary: h lp)
  case (Cons op ops)
  obtain p o1 where op: "op = (p, o1)" by fastforce
  obtain ch lp1 where c: "ch_exec ctl o1 p (h p) lp = (ch, lp1)" by fastforce
  have "\<forall>q. in_out_only (events ((h(p := ch)) q))"
    using Cons.prems(1) ch_exec_in_out_only [of "h p" ctl o1 p lp] c by auto
  moreover from Cons.prems(2) op c have "registry_run ctl ops (h(p := ch)) lp1 = (h', lp')" by simp
  ultimately show ?case by (rule Cons.IH)
qed simp

text \<open>No channel ever subscribes to \<open>EPOLLRDHUP\<close> or \<open>EPOLLPRI\<close>, and the kernel reports
  only subscribed events and the two it always reports; so after any sequence of enable and
  disable calls on fresh channels the branch of \<open>handleEvent\<close> for a peer that shut down is
  dead: an event calls the close callback only as a hang-up without readable data.\<close>

theorem rdhup_branch_dead:
  assumes "\<forall>p. events (h p) = 0" "registry_run ctl ops h lp = (h', lp')"
    and "epoll_report_law (events (h' p)) r"
  shows "r AND EPOLLRDHUP = 0 \<and> r AND EPOLLPRI = 0 \<and>
    dispatch_list (setRevents r (h' p)) =
      (if r AND EPOLLERR \<noteq> 0 then [errorCallback (h' p)] else []) @
      (if r AND EPOLLIN \<noteq> 0 then [readCallback (h' p)] else []) @
      (if r AND EPOLLOUT \<noteq> 0 then [writeCallback (h' p)] else []) @
      (if r AND EPOLLHUP \<noteq> 0 \<and> r AND EPOLLIN = 0 then [closeCallback (h' p)] else [])"
proof -
  have "in_out_only (events (h' p))"
    using registry_run_in_out_only [of h ctl ops lp h' lp' p] assms(1,2) in_out_only_ops(1) by auto
  then have ev: "events (h' p) = events (h' p) AND (EPOLLIN OR EPOLLOUT)"
    by (simp only: in_out_only_def mask_absorb)
  have r: "r = r AND (events (h' p) OR EPOLLERR OR EPOLLHUP)"
    using assms(3) by (simp only: epoll_report_law_def mask_absorb)
  have zero: "r AND m = 0" if "(EPOLLIN OR EPOLLOUT) AND m = 0" "(EPOLLERR OR EPOLLHUP) AND m = 0" for m
  proof -
    have "r AND m = r AND (events (h' p) AND ((EPOLLIN OR EPOLLOUT) AND m) OR (EPOLLERR OR EPOLLHUP) AND m)"
      by (subst r, subst ev) (simp only: and.assoc bit.conj_disj_distrib2 or.assoc)
    with that show ?thesis by simp
  qed
  have "r AND EPOLLRDHUP = 0" "r AND EPOLLPRI = 0"
    by (rule zero; simp add: epoll_masks)+
  then show ?thesis
    by (auto simp: dispatch_list_def setRevents_def bit.conj_disj_distrib)
qed

theorem rdhup_branch_dead_witness:
  "epoll_report_law EPOLLIN (EPOLLIN OR EPOLLHUP) \<and>
   dispatch_list (setRevents (EPOLLIN OR EPOLLHUP)
     (fst (registry_run table_ctl [(3, EnableReading)] (\<lambda>p. new_channel 3 :: unit channel)
        \<lparr>channels = Map.empty, kern = Map.empty\<rparr>) 3)) = [None]"
proof -
  let ?h = "\<lambda>p :: chan. new_channel 3 :: unit channel"
  let ?lp = "\<lparr>channels = Map.empty, kern = Map.empty\<rparr> :: interest poller"
  obtain h' lp' where r: "registry_run table_ctl [(3, EnableReading)] ?h ?lp = (h', lp')" by fastforce
  then have ev: "h' 3 = (new_channel 3)\<lparr>events := EPOLLIN\<rparr>"
    by (auto simp: channel_op_defs new_channel_def)
  have law: "epoll_report_law EPOLLIN (EPOLLIN OR EPOLLHUP)"
    by (simp add: epoll_report_law_def epoll_masks)
  have "dispatch_list (setRevents (EPOLLIN OR EPOLLHUP) (h' 3)) = [None]"
    using rdhup_branch_dead [of ?h, OF _ r, of 3 "EPOLLIN OR EPOLLHUP"] law ev
    by (simp add: new_channel_def epoll_masks)
  with law r show ?thesis by simp
qed

section \<open>Operating an unregistered channel\<close>

text \<open>\<open>disableAll\<close> on a channel that is not registered registers it: the first branch of
  \<open>updateChannel\<close> is taken before the mask is looked at, so the loop keeps an entry for the
  channel and the kernel an empty subscription.\<close>

theorem disableAll_registers_unregistered:
  assumes "epoll_law ctl tbl" "channels lp (ch_fd ch) = None"
    and "fst (ctl (CtlAdd (ch_fd ch) 0 p) (kern lp))"
  shows "channels (snd (disableAll ctl p ch lp)) (ch_fd ch) = Some p \<and>
    tbl (kern (snd (disableAll ctl p ch lp))) (ch_fd ch) = Some (0, p)"
  using assms by (simp add: channel_op_defs updateChannel_add Let_def epoll_add(1))

theorem disableAll_registers_unregistered_witness:
  "channels (snd (disableAll table_ctl 9 (new_channel 4 :: unit channel)
     \<lparr>channels = Map.empty, kern = Map.empty\<rparr>)) 4 = Some 9"
  using disableAll_registers_unregistered [OF table_ctl_law,
      of "\<lparr>channels = Map.empty, kern = Map.empty\<rparr>" "new_channel 4 :: unit channel" 9]
  by (simp add: new_channel_def)

end
