(* ===== verification/Timers.thy ===== *)
theory Timers
  imports Prelude "HOL-Library.Signed_Division"
begin

text \<open>
  Timers and the timer queue of an event loop (\<open>reactor/Timer.h\<close>, \<open>Timer.cpp\<close>,
  \<open>TimerQueue.h\<close>, \<open>TimerQueue.cpp\<close> and the three \<open>run...\<close> functions of \<open>EventLoop.cpp\<close>).
  Times are nanoseconds of the steady clock (the 64-bit representation of \<open>time_point\<close>; it
  lasts 292 years, so its overflow is left out).  \<open>timerfd_settime\<close> and the addresses that
  \<open>new\<close> returns are parameters; a callback is user code, known by the \<open>addTimer\<close> calls it
  makes.
\<close>

section \<open>A timer\<close>

type_synonym time = int

record 'cb timer =
  callback :: "'cb option"
  expiration :: time
  interval_ms :: int
  repeat :: bool
  sequence :: int

definition new_timer :: "'cb option \<Rightarrow> time \<Rightarrow> int \<Rightarrow> int \<Rightarrow> 'cb timer" where
  "new_timer cb when interval seq = \<lparr>callback = cb, expiration = when, interval_ms = interval,
     repeat = (interval > 0), sequence = seq\<rparr>"

definition restart :: "'cb timer \<Rightarrow> 'cb timer" where
  "restart t = (if repeat t then t\<lparr>expiration := expiration t + interval_ms t * 1000000\<rparr> else t)"

section \<open>The ordered set of entries\<close>

text \<open>
  \<open>std::set<Entry>\<close> with \<open>Entry = pair<time_point, Timer*>\<close>: a strictly increasing list in
  the lexicographic order of the pair.  \<open>nullptr\<close> is address 0.
\<close>

type_synonym addr = nat

datatype entry = Entry (e_when: time) (e_timer: addr)

instantiation entry :: linorder
begin

definition less_eq_entry :: "entry \<Rightarrow> entry \<Rightarrow> bool" where
  "less_eq_entry x y \<longleftrightarrow> e_when x < e_when y \<or> (e_when x = e_when y \<and> e_timer x \<le> e_timer y)"

definition less_entry :: "entry \<Rightarrow> entry \<Rightarrow> bool" where
  "less_entry x y \<longleftrightarrow> e_when x < e_when y \<or> (e_when x = e_when y \<and> e_timer x < e_timer y)"

instance
  by standard (auto simp: less_eq_entry_def less_entry_def entry.expand)

end

fun set_insert :: "entry \<Rightarrow> entry list \<Rightarrow> entry list" where
  "set_insert e [] = [e]"
| "set_insert e (x # xs) = (if e < x then e # x # xs else if e = x then x # xs else x # set_insert e xs)"

definition lower_bound :: "entry \<Rightarrow> entry list \<Rightarrow> entry list \<times> entry list" where
  "lower_bound e xs = (takeWhile (\<lambda>x. x < e) xs, dropWhile (\<lambda>x. x < e) xs)"

lemma set_set_insert [simp]: "set (set_insert e xs) = insert e (set xs)"
  by (induction xs) auto

lemma sorted_set_insert: "sorted_wrt (<) xs \<Longrightarrow> sorted_wrt (<) (set_insert e xs)"
  by (induction xs) auto

lemma set_insert_not_Nil [simp]: "set_insert e xs \<noteq> []"
  by (cases xs) auto

lemma hd_set_insert:
  "hd (set_insert e xs) = (if xs = [] \<or> e < hd xs then e else hd xs)"
  by (cases xs) auto

section \<open>The queue\<close>

text \<open>
  The store \<open>heap\<close> holds the live \<open>Timer\<close> objects by address, \<open>tfd\<close> is the kernel's state
  of the timerfd.  \<open>settime\<close> is \<open>timerfd_settime\<close> with the flag for absolute times and no
  interval, called with seconds and nanoseconds.
\<close>

record ('cb, 'k) timer_queue =
  timers :: "entry list"
  heap :: "addr \<rightharpoonup> 'cb timer"
  nextSeq :: int
  tfd :: 'k

type_synonym 'k settime = "int \<times> int \<Rightarrow> 'k \<Rightarrow> bool \<times> 'k"

definition timePointToTimespec :: "time \<Rightarrow> int \<times> int" where
  "timePointToTimespec ns = (ns sdiv 1000000000, ns smod 1000000000)"

definition resetTimerfd :: "'k settime \<Rightarrow> ('cb, 'k) timer_queue \<Rightarrow> ('cb, 'k) timer_queue" where
  "resetTimerfd settime q =
     (let value = (if timers q \<noteq> [] then timePointToTimespec (e_when (hd (timers q))) else (0, 0))
      in q\<lparr>tfd := snd (settime value (tfd q))\<rparr>)"

record 'cb add_request =
  ar_addr :: addr
  ar_cb :: "'cb option"
  ar_when :: time
  ar_interval :: int

definition addTimer :: "'k settime \<Rightarrow> 'cb add_request \<Rightarrow> ('cb, 'k) timer_queue \<Rightarrow> ('cb, 'k) timer_queue" where
  "addTimer settime r q =
     (let timer = new_timer (ar_cb r) (ar_when r) (ar_interval r) (nextSeq q + 1);
          earliestChanged = (timers q = [] \<or> ar_when r < e_when (hd (timers q)));
          q = q\<lparr>nextSeq := nextSeq q + 1, heap := (heap q)(ar_addr r \<mapsto> timer),
                timers := set_insert (Entry (ar_when r) (ar_addr r)) (timers q)\<rparr>
      in if earliestChanged then resetTimerfd settime q else q)"

definition getExpired :: "time \<Rightarrow> ('cb, 'k) timer_queue \<Rightarrow> addr list \<times> ('cb, 'k) timer_queue" where
  "getExpired now q = (let (before, rest) = lower_bound (Entry now 0) (timers q)
     in (map e_timer before, q\<lparr>timers := rest\<rparr>))"

text \<open>
  The loop over the expired timers.  \<open>reqs cb q\<close> is the list of \<open>addTimer\<close> calls the user's
  callback makes when it runs in state \<open>q\<close>; each dereference of a \<open>Timer*\<close> looks the object
  up in the store.
\<close>

definition run_timer :: "'k settime \<Rightarrow> ('cb \<Rightarrow> ('cb, 'k) timer_queue \<Rightarrow> 'cb add_request list) \<Rightarrow>
    'cb timer \<Rightarrow> ('cb, 'k) timer_queue \<Rightarrow> ('cb, 'k) timer_queue" where
  "run_timer settime reqs t q =
     (case callback t of None \<Rightarrow> q | Some cb \<Rightarrow> fold (addTimer settime) (reqs cb q) q)"

definition finish_timer :: "addr \<Rightarrow> 'cb timer \<Rightarrow> ('cb, 'k) timer_queue \<Rightarrow> ('cb, 'k) timer_queue" where
  "finish_timer a t q = (if repeat t
     then (let t = restart t in q\<lparr>heap := (heap q)(a \<mapsto> t),
             timers := set_insert (Entry (expiration t) a) (timers q)\<rparr>)
     else q\<lparr>heap := (heap q)(a := None)\<rparr>)"

fun fire_expired :: "'k settime \<Rightarrow> ('cb \<Rightarrow> ('cb, 'k) timer_queue \<Rightarrow> 'cb add_request list) \<Rightarrow>
    addr list \<Rightarrow> ('cb, 'k) timer_queue \<Rightarrow> ('cb, 'k) timer_queue res" where
  "fire_expired settime reqs [] q = Inr q"
| "fire_expired settime reqs (a # as) q =
     (case heap q a of
        None \<Rightarrow> Inl UseAfterFree
      | Some t \<Rightarrow> (let q = run_timer settime reqs t q in
          case heap q a of
            None \<Rightarrow> Inl UseAfterFree
          | Some t \<Rightarrow> fire_expired settime reqs as (finish_timer a t q)))"

text \<open>
  \<open>handleRead\<close>: \<open>ans\<close> is the answer of \<open>read\<close> on the timerfd (the read does not touch the
  armed time), \<open>now\<close> the clock in \<open>getExpired\<close>.  Returned with the new state are the timers
  that were run.
\<close>

definition handleTimerRead :: "'k settime \<Rightarrow> ('cb \<Rightarrow> ('cb, 'k) timer_queue \<Rightarrow> 'cb add_request list) \<Rightarrow>
    io_answer \<Rightarrow> time \<Rightarrow> ('cb, 'k) timer_queue \<Rightarrow> (addr list \<times> ('cb, 'k) timer_queue) res" where
  "handleTimerRead settime reqs ans now q =
     (if ans \<noteq> Done 8 then Inr ([], q)
      else (let (expired, q) = getExpired now q in
        bind_res (fire_expired settime reqs expired q)
          (\<lambda>q. Inr (expired, resetTimerfd settime q))))"

text \<open>The destructor deletes the timers that are still in the set.\<close>

definition destroy_timers :: "('cb, 'k) timer_queue \<Rightarrow> ('cb, 'k) timer_queue" where
  "destroy_timers q = q\<lparr>heap := fold (\<lambda>e h. h(e_timer e := None)) (timers q) (heap q)\<rparr>"

text \<open>What the functors of \<open>runAt\<close>, \<open>runAfter\<close> and \<open>runEvery\<close> do once the loop runs them;
  \<open>now\<close> is read there, not when the call was made.\<close>

definition runAt :: "addr \<Rightarrow> time \<Rightarrow> 'cb option \<Rightarrow> 'cb add_request" where
  "runAt a when cb = \<lparr>ar_addr = a, ar_cb = cb, ar_when = when, ar_interval = 0\<rparr>"

definition runAfter :: "addr \<Rightarrow> time \<Rightarrow> int \<Rightarrow> 'cb option \<Rightarrow> 'cb add_request" where
  "runAfter a now delay_ms cb =
     \<lparr>ar_addr = a, ar_cb = cb, ar_when = now + delay_ms * 1000000, ar_interval = 0\<rparr>"

definition runEvery :: "addr \<Rightarrow> time \<Rightarrow> int \<Rightarrow> 'cb option \<Rightarrow> 'cb add_request" where
  "runEvery a now interval cb =
     \<lparr>ar_addr = a, ar_cb = cb, ar_when = now + interval * 1000000, ar_interval = interval\<rparr>"

section \<open>Invariant: no dangling, no leaked and no misfiled timer\<close>

text \<open>
  \<open>tq_inv as q\<close>: the live timers are those in the set and those in \<open>as\<close>, the expired ones
  still to be handled; each occurs once, and an entry carries its timer's expiration.
\<close>

definition tq_inv :: "addr list \<Rightarrow> ('cb, 'k) timer_queue \<Rightarrow> bool" where
  "tq_inv as q \<longleftrightarrow> sorted_wrt (<) (timers q) \<and> distinct (as @ map e_timer (timers q)) \<and>
     dom (heap q) = set as \<union> e_timer ` set (timers q) \<and>
     (\<forall>e \<in> set (timers q). map_option expiration (heap q (e_timer e)) = Some (e_when e))"

text \<open>\<open>new\<close> returns no address of a live object.\<close>

fun allocs_fresh :: "'k settime \<Rightarrow> 'cb add_request list \<Rightarrow> ('cb, 'k) timer_queue \<Rightarrow> bool" where
  "allocs_fresh settime [] q = True"
| "allocs_fresh settime (r # rs) q =
     (heap q (ar_addr r) = None \<and> allocs_fresh settime rs (addTimer settime r q))"

definition new_law :: "'k settime \<Rightarrow> ('cb \<Rightarrow> ('cb, 'k) timer_queue \<Rightarrow> 'cb add_request list) \<Rightarrow> bool" where
  "new_law settime reqs \<longleftrightarrow> (\<forall>cb q. allocs_fresh settime (reqs cb q) q)"

lemma resetTimerfd_frame [simp]:
  "timers (resetTimerfd settime q) = timers q" "heap (resetTimerfd settime q) = heap q"
  by (simp_all add: resetTimerfd_def Let_def)

lemma tq_inv_reset [simp]: "tq_inv as (resetTimerfd settime q) = tq_inv as q"
  by (simp add: tq_inv_def)

lemma addTimer_frame:
  "timers (addTimer settime r q) = set_insert (Entry (ar_when r) (ar_addr r)) (timers q)"
  "heap (addTimer settime r q) =
     (heap q)(ar_addr r \<mapsto> new_timer (ar_cb r) (ar_when r) (ar_interval r) (nextSeq q + 1))"
  by (simp_all add: addTimer_def Let_def)

lemma distinct_set_insert:
  "e_timer e \<notin> e_timer ` set xs \<Longrightarrow> distinct (map e_timer xs) \<Longrightarrow>
   distinct (map e_timer (set_insert e xs))"
  by (induction xs) (auto simp: image_iff)

lemma tq_inv_insert:
  assumes "tq_inv as q" "a \<notin> set as" "a \<notin> e_timer ` set (timers q)"
  shows "tq_inv as (q\<lparr>heap := (heap q)(a \<mapsto> t), timers := set_insert (Entry (expiration t) a) (timers q)\<rparr>)"
  using assms by (auto simp: tq_inv_def sorted_set_insert distinct_set_insert image_iff)

lemma addTimer_inv:
  assumes "tq_inv as q" "heap q (ar_addr r) = None"
  shows "tq_inv as (addTimer settime r q)"
proof -
  let ?t = "new_timer (ar_cb r) (ar_when r) (ar_interval r) (nextSeq q + 1)"
  have "ar_addr r \<notin> dom (heap q)" using assms(2) by auto
  then have "tq_inv as (q\<lparr>heap := (heap q)(ar_addr r \<mapsto> ?t),
      timers := set_insert (Entry (expiration ?t) (ar_addr r)) (timers q)\<rparr>)"
    using assms(1) by (intro tq_inv_insert) (auto simp: tq_inv_def)
  then show ?thesis
    by (simp add: tq_inv_def addTimer_frame) (simp add: new_timer_def)
qed

lemma addTimers_inv:
  "tq_inv as q \<Longrightarrow> allocs_fresh settime rs q \<Longrightarrow> tq_inv as (fold (addTimer settime) rs q)"
  by (induction rs arbitrary: q) (auto intro: addTimer_inv)

lemma addTimers_keep:
  "heap q a = Some t \<Longrightarrow> allocs_fresh settime rs q \<Longrightarrow> heap (fold (addTimer settime) rs q) a = Some t"
proof (induction rs arbitrary: q)
  case (Cons r rs)
  then have "heap (addTimer settime r q) a = Some t" by (auto simp: addTimer_frame)
  with Cons show ?case by simp
qed simp

lemma run_timer_inv:
  "tq_inv as q \<Longrightarrow> new_law settime reqs \<Longrightarrow> tq_inv as (run_timer settime reqs t q)"
  by (auto simp: run_timer_def new_law_def intro: addTimers_inv split: option.splits)

lemma run_timer_keep:
  "heap q a = Some t \<Longrightarrow> new_law settime reqs \<Longrightarrow> heap (run_timer settime reqs u q) a = Some t"
  by (auto simp: run_timer_def new_law_def intro: addTimers_keep split: option.splits)

lemma finish_timer_inv:
  assumes "tq_inv (a # as) q" "heap q a = Some t"
  shows "tq_inv as (finish_timer a t q)"
proof (cases "repeat t")
  case True
  have "tq_inv as (q\<lparr>heap := (heap q)(a := None)\<rparr>)"
    using assms(1) by (auto simp: tq_inv_def)
  then have "tq_inv as (q\<lparr>heap := (heap q)(a \<mapsto> restart t),
      timers := set_insert (Entry (expiration (restart t)) a) (timers q)\<rparr>)"
    using tq_inv_insert [of as "q\<lparr>heap := (heap q)(a := None)\<rparr>" a "restart t"] assms(1)
    by (auto simp: tq_inv_def)
  with True show ?thesis by (simp add: finish_timer_def Let_def)
next
  case False
  with assms(1) show ?thesis by (auto simp: tq_inv_def finish_timer_def)
qed

lemma fire_expired_inv:
  assumes law: "new_law settime reqs"
  shows "tq_inv as q \<Longrightarrow> \<exists>q'. fire_expired settime reqs as q = Inr q' \<and> tq_inv [] q'"
proof (induction as arbitrary: q)
  case (Cons a as)
  from Cons.prems have "a \<in> dom (heap q)" by (simp add: tq_inv_def)
  then obtain t where t: "heap q a = Some t" by blast
  let ?q = "run_timer settime reqs t q"
  have t': "heap ?q a = Some t" using t law by (rule run_timer_keep)
  have "tq_inv as (finish_timer a t ?q)"
    using finish_timer_inv [OF run_timer_inv [OF Cons.prems law] t'] .
  with Cons.IH t t' show ?case by (simp add: Let_def)
qed simp

lemma takeWhile_due:
  assumes "sorted_wrt (<) xs"
  shows "takeWhile (\<lambda>x. x < Entry now 0) xs = filter (\<lambda>e. e_when e < now) xs"
    and "dropWhile (\<lambda>x. x < Entry now 0) xs = filter (\<lambda>e. now \<le> e_when e) xs"
proof -
  have later: "\<not> e_when y < now" if "\<not> e_when x < now" "x < y" for x y
    using that by (auto simp: less_entry_def)
  have "takeWhile (\<lambda>x. x < Entry now 0) xs = filter (\<lambda>e. e_when e < now) xs \<and>
      dropWhile (\<lambda>x. x < Entry now 0) xs = filter (\<lambda>e. now \<le> e_when e) xs"
    using assms
  proof (induction xs)
    case (Cons x xs)
    show ?case
    proof (cases "e_when x < now")
      case False
      with Cons.prems later have "\<forall>y \<in> set xs. \<not> e_when y < now" by auto
      with False show ?thesis by (simp add: less_entry_def filter_id_conv not_less)
    qed (use Cons in \<open>simp add: less_entry_def\<close>)
  qed simp
  then show "takeWhile (\<lambda>x. x < Entry now 0) xs = filter (\<lambda>e. e_when e < now) xs"
    "dropWhile (\<lambda>x. x < Entry now 0) xs = filter (\<lambda>e. now \<le> e_when e) xs" by auto
qed

lemma getExpired_split:
  "tq_inv [] q \<Longrightarrow> getExpired now q =
     (map e_timer (filter (\<lambda>e. e_when e < now) (timers q)),
      q\<lparr>timers := filter (\<lambda>e. now \<le> e_when e) (timers q)\<rparr>)"
  by (simp add: getExpired_def lower_bound_def takeWhile_due tq_inv_def)

lemma filter_split_image:
  "f ` set (filter (\<lambda>x. P x) xs) \<union> f ` set (filter (\<lambda>x. \<not> P x) xs) = f ` set xs"
  by auto

lemma distinct_filter_split:
  "distinct (map f xs) \<Longrightarrow>
   distinct (map f (filter (\<lambda>x. P x) xs) @ map f (filter (\<lambda>x. \<not> P x) xs))"
  by (induction xs) auto

lemma getExpired_inv:
  assumes inv: "tq_inv [] q" and g: "getExpired now q = (as, q')"
  shows "tq_inv as q'"
proof -
  let ?due = "filter (\<lambda>e. e_when e < now) (timers q)"
  let ?rest = "filter (\<lambda>e. now \<le> e_when e) (timers q)"
  have as: "as = map e_timer ?due" and q': "q' = q\<lparr>timers := ?rest\<rparr>"
    using g inv by (simp_all add: getExpired_split)
  have "distinct (as @ map e_timer ?rest)"
    using distinct_filter_split [of e_timer "timers q" "\<lambda>e. e_when e < now"] inv
    unfolding as by (simp add: not_less tq_inv_def)
  moreover have "set as \<union> e_timer ` set ?rest = e_timer ` set (timers q)"
    using filter_split_image [of e_timer "\<lambda>e. e_when e < now" "timers q"]
    unfolding as by (simp add: not_less)
  ultimately show ?thesis
    using inv unfolding q' by (simp add: tq_inv_def sorted_wrt_filter)
qed

lemma handleTimerRead_inv:
  assumes inv: "tq_inv [] q" and law: "new_law settime reqs"
  shows "\<exists>fired q'. handleTimerRead settime reqs ans now q = Inr (fired, q') \<and> tq_inv [] q'"
proof -
  obtain as q1 where g: "getExpired now q = (as, q1)" by fastforce
  obtain q2 where "fire_expired settime reqs as q1 = Inr q2" "tq_inv [] q2"
    using fire_expired_inv [OF law getExpired_inv [OF inv g]] by blast
  with inv g show ?thesis by (simp add: handleTimerRead_def)
qed

section \<open>The armed time\<close>

text \<open>
  Documented behaviour of \<open>timerfd_settime\<close>: a value with both parts zero disarms the timer,
  a valid one arms it, an invalid one is refused and changes nothing.
\<close>

definition settime_law :: "'k settime \<Rightarrow> ('k \<Rightarrow> time option) \<Rightarrow> bool" where
  "settime_law settime armed \<longleftrightarrow> (\<forall>s n k.
     if 0 \<le> s \<and> 0 \<le> n \<and> n < 1000000000
     then fst (settime (s, n) k) \<and> armed (snd (settime (s, n) k)) =
       (if s = 0 \<and> n = 0 then None else Some (s * 1000000000 + n))
     else \<not> fst (settime (s, n) k) \<and> armed (snd (settime (s, n) k)) = armed k)"

text \<open>A concrete timerfd for closed runs: the armed time and whether it has fired.\<close>

fun clock_settime :: "(time option \<times> bool) settime" where
  "clock_settime (s, n) k = (if 0 \<le> s \<and> 0 \<le> n \<and> n < 1000000000
     then (True, (if s = 0 \<and> n = 0 then None else Some (s * 1000000000 + n), False)) else (False, k))"

lemma clock_settime_law: "settime_law clock_settime fst"
  by (simp add: settime_law_def)

definition armed_earliest :: "('k \<Rightarrow> time option) \<Rightarrow> ('cb, 'k) timer_queue \<Rightarrow> bool" where
  "armed_earliest armed q \<longleftrightarrow>
     armed (tfd q) = (if timers q = [] then None else Some (e_when (hd (timers q))))"

definition positive_times :: "('cb, 'k) timer_queue \<Rightarrow> bool" where
  "positive_times q \<longleftrightarrow> (\<forall>e \<in> set (timers q). 0 < e_when e)"

lemma timespec_value:
  assumes "0 \<le> ns"
  shows "timePointToTimespec ns = (ns div 1000000000, ns mod 1000000000)"
  using assms by (simp add: timePointToTimespec_def signed_divide_int_def signed_modulo_int_def
      sgn_if minus_div_mult_eq_mod)

lemma timespec_roundtrip:
  "fst (timePointToTimespec ns) * 1000000000 + snd (timePointToTimespec ns) = ns"
  by (simp add: timePointToTimespec_def sdiv_mult_smod_eq)

lemma resetTimerfd_armed:
  assumes law: "settime_law settime armed" and pos: "positive_times q"
  shows "armed_earliest armed (resetTimerfd settime q)"
proof (cases "timers q")
  case Nil
  have "armed (snd (settime (0, 0) (tfd q))) = None"
    using law unfolding settime_law_def by (metis order_refl zero_less_numeral)
  with Nil show ?thesis by (simp add: armed_earliest_def resetTimerfd_def)
next
  case (Cons e es)
  let ?w = "e_when e"
  from pos Cons have w: "0 < ?w" by (simp add: positive_times_def)
  then have "0 \<le> ?w div 1000000000" "0 \<le> ?w mod 1000000000" "?w mod 1000000000 < 1000000000"
    and nz: "\<not> (?w div 1000000000 = 0 \<and> ?w mod 1000000000 = 0)"
    using div_mult_mod_eq [of ?w 1000000000] by (auto simp: pos_imp_zdiv_nonneg_iff)
  then have "armed (snd (settime (?w div 1000000000, ?w mod 1000000000) (tfd q))) =
      Some (?w div 1000000000 * 1000000000 + ?w mod 1000000000)"
    using law unfolding settime_law_def by metis
  with Cons w show ?thesis
    by (simp add: armed_earliest_def resetTimerfd_def timespec_value)
qed

text \<open>The queue after an insertion, before the timerfd is looked at.\<close>

definition file_timer :: "'cb add_request \<Rightarrow> ('cb, 'k) timer_queue \<Rightarrow> ('cb, 'k) timer_queue" where
  "file_timer r q = q\<lparr>nextSeq := nextSeq q + 1,
     heap := (heap q)(ar_addr r \<mapsto> new_timer (ar_cb r) (ar_when r) (ar_interval r) (nextSeq q + 1)),
     timers := set_insert (Entry (ar_when r) (ar_addr r)) (timers q)\<rparr>"

lemma addTimer_cases:
  "addTimer settime r q = (if timers q = [] \<or> ar_when r < e_when (hd (timers q))
     then resetTimerfd settime (file_timer r q) else file_timer r q)"
  by (simp add: addTimer_def file_timer_def Let_def)

lemma file_timer_positive: "positive_times q \<Longrightarrow> 0 < ar_when r \<Longrightarrow> positive_times (file_timer r q)"
  by (auto simp: positive_times_def file_timer_def)

lemma addTimer_armed:
  assumes law: "settime_law settime armed" and pos: "positive_times q" "0 < ar_when r"
    and ready: "fired (tfd q) \<or> armed_earliest armed q"
  shows "fired (tfd (addTimer settime r q)) \<or> armed_earliest armed (addTimer settime r q)"
proof (cases "timers q = [] \<or> ar_when r < e_when (hd (timers q))")
  case True
  with resetTimerfd_armed [OF law file_timer_positive [OF pos]] show ?thesis
    by (simp add: addTimer_cases)
next
  case False
  then have "hd (timers (file_timer r q)) = hd (timers q) \<or>
      e_when (hd (timers (file_timer r q))) = e_when (hd (timers q))"
    by (auto simp: file_timer_def hd_set_insert less_entry_def)
  with False ready show ?thesis
    by (auto simp: addTimer_cases armed_earliest_def file_timer_def)
qed

section \<open>Any history of a timer queue\<close>

text \<open>
  Besides the two operations there is a step of the kernel: the armed time is reached, the
  timer is no longer armed, and its descriptor becomes readable (\<open>fired\<close>).
\<close>

datatype ('cb, 'k) tq_op = AddTimer "'cb add_request" | KernelExpires 'k | TimerRead io_answer time

fun tq_exec :: "'k settime \<Rightarrow> ('cb \<Rightarrow> ('cb, 'k) timer_queue \<Rightarrow> 'cb add_request list) \<Rightarrow>
    ('cb, 'k) tq_op \<Rightarrow> ('cb, 'k) timer_queue \<Rightarrow> ('cb, 'k) timer_queue res" where
  "tq_exec settime reqs (AddTimer r) q = Inr (addTimer settime r q)"
| "tq_exec settime reqs (KernelExpires k) q = Inr (q\<lparr>tfd := k\<rparr>)"
| "tq_exec settime reqs (TimerRead ans now) q =
     bind_res (handleTimerRead settime reqs ans now q) (\<lambda>(fired, q). Inr q)"

text \<open>
  The environment: \<open>timerfd_settime\<close> as documented, fresh addresses from \<open>new\<close>, times after
  the epoch of the clock, and a read that delivers its eight bytes when the timer has fired.
\<close>

definition reqs_positive :: "('cb \<Rightarrow> ('cb, 'k) timer_queue \<Rightarrow> 'cb add_request list) \<Rightarrow> bool" where
  "reqs_positive reqs \<longleftrightarrow> (\<forall>cb q. \<forall>r \<in> set (reqs cb q). 0 < ar_when r)"

fun tq_env :: "'k settime \<Rightarrow> ('k \<Rightarrow> time option) \<Rightarrow> ('k \<Rightarrow> bool) \<Rightarrow>
    ('cb \<Rightarrow> ('cb, 'k) timer_queue \<Rightarrow> 'cb add_request list) \<Rightarrow>
    ('cb, 'k) tq_op \<Rightarrow> ('cb, 'k) timer_queue \<Rightarrow> bool" where
  "tq_env settime armed fired reqs (AddTimer r) q =
     (settime_law settime armed \<and> heap q (ar_addr r) = None \<and> 0 < ar_when r)"
| "tq_env settime armed fired reqs (KernelExpires k) q = (armed (tfd q) \<noteq> None \<and> fired k)"
| "tq_env settime armed fired reqs (TimerRead ans now) q =
     (settime_law settime armed \<and> new_law settime reqs \<and> reqs_positive reqs \<and>
      (fired (tfd q) \<longrightarrow> ans = Done 8))"

text \<open>
  A live timer repeats exactly when its interval is positive, and expires after the epoch of
  the clock.
\<close>

definition good_heap :: "('cb, 'k) timer_queue \<Rightarrow> bool" where
  "good_heap q \<longleftrightarrow> (\<forall>a t. heap q a = Some t \<longrightarrow> repeat t = (0 < interval_ms t) \<and> 0 < expiration t)"

lemma good_heapD: "good_heap q \<Longrightarrow> heap q a = Some t \<Longrightarrow> repeat t = (0 < interval_ms t) \<and> 0 < expiration t"
  by (auto simp: good_heap_def)

lemma good_heap_add: "good_heap q \<Longrightarrow> 0 < ar_when r \<Longrightarrow> good_heap (addTimer settime r q)"
  by (auto simp: good_heap_def addTimer_frame new_timer_def)

lemma good_heap_run:
  assumes "good_heap q" "reqs_positive reqs"
  shows "good_heap (run_timer settime reqs t q)"
proof -
  have "good_heap q \<Longrightarrow> \<forall>r \<in> set rs. 0 < ar_when r \<Longrightarrow> good_heap (fold (addTimer settime) rs q)" for rs
    by (induction rs arbitrary: q) (auto intro: good_heap_add)
  with assms show ?thesis by (auto simp: run_timer_def reqs_positive_def split: option.splits)
qed

lemma restart_good:
  assumes "repeat t = (0 < interval_ms t)" "0 < expiration t"
  shows "repeat (restart t) = (0 < interval_ms (restart t)) \<and> 0 < expiration (restart t)"
proof -
  have "0 < expiration t + interval_ms t * 1000000" if "0 < interval_ms t"
    using that assms(2) by linarith
  with assms show ?thesis by (simp add: restart_def)
qed

lemma good_heap_finish:
  assumes "good_heap q" "heap q a = Some t"
  shows "good_heap (finish_timer a t q)"
  using assms restart_good [of t] good_heapD [OF assms]
  by (auto simp: good_heap_def finish_timer_def Let_def)

lemma good_heap_fire:
  "reqs_positive reqs \<Longrightarrow> good_heap q \<Longrightarrow> fire_expired settime reqs as q = Inr q' \<Longrightarrow> good_heap q'"
proof (induction as arbitrary: q)
  case (Cons a as)
  then show ?case
    by (auto simp: Let_def split: option.splits intro: good_heap_run good_heap_finish Cons.IH)
qed simp

lemma good_heap_times: "tq_inv [] q \<Longrightarrow> good_heap q \<Longrightarrow> positive_times q"
  by (fastforce simp: tq_inv_def positive_times_def dest: good_heapD)

text \<open>
  Well-formedness of a queue: its set and its store agree, and no due time is missed: either
  the kernel already reports an expiration or the timerfd is armed for the earliest entry.
\<close>

definition tq_wf :: "('k \<Rightarrow> time option) \<Rightarrow> ('k \<Rightarrow> bool) \<Rightarrow> ('cb, 'k) timer_queue \<Rightarrow> bool" where
  "tq_wf armed fired q \<longleftrightarrow> tq_inv [] q \<and> good_heap q \<and> (fired (tfd q) \<or> armed_earliest armed q)"

lemma addTimer_wf:
  assumes law: "settime_law settime armed" and wf: "tq_wf armed fired q"
    and new: "heap q (ar_addr r) = None" "0 < ar_when r"
  shows "tq_wf armed fired (addTimer settime r q)"
proof -
  from wf have q: "tq_inv [] q" "good_heap q" and ready: "fired (tfd q) \<or> armed_earliest armed q"
    by (simp_all add: tq_wf_def)
  show ?thesis
    using addTimer_inv [OF q(1)] good_heap_add [OF q(2)] new
      addTimer_armed [where fired = fired, OF law good_heap_times [OF q] new(2) ready]
    by (simp add: tq_wf_def)
qed

lemma handleTimerRead_wf:
  assumes laws: "settime_law settime armed" "new_law settime reqs" "reqs_positive reqs"
    and wf: "tq_wf armed fired q" and ans: "fired (tfd q) \<longrightarrow> ans = Done 8"
  shows "\<exists>fd q'. handleTimerRead settime reqs ans now q = Inr (fd, q') \<and> tq_wf armed fired q'"
proof (cases "ans = Done 8")
  case True
  from wf have q: "tq_inv [] q" "good_heap q" by (simp_all add: tq_wf_def)
  obtain as q1 where g: "getExpired now q = (as, q1)" by fastforce
  obtain q2 where f: "fire_expired settime reqs as q1 = Inr q2" "tq_inv [] q2"
    using fire_expired_inv [OF laws(2) getExpired_inv [OF q(1) g]] by blast
  have "good_heap q1" using g q by (auto simp: getExpired_split good_heap_def)
  then have g2: "good_heap q2" using good_heap_fire [OF laws(3) _ f(1)] by blast
  have "tq_wf armed fired (resetTimerfd settime q2)"
    using f(2) g2 resetTimerfd_armed [OF laws(1) good_heap_times [OF f(2) g2]]
    by (simp add: tq_wf_def good_heap_def)
  with True g f show ?thesis by (simp add: handleTimerRead_def)
qed (use wf in \<open>simp add: handleTimerRead_def\<close>)

lemma tq_exec_safe:
  assumes "tq_wf armed fired q" "tq_env settime armed fired reqs op q"
  shows "\<exists>q'. tq_exec settime reqs op q = Inr q' \<and> tq_wf armed fired q'"
proof (cases op)
  case (AddTimer r)
  with assms show ?thesis by (auto intro: addTimer_wf)
next
  case (KernelExpires k)
  with assms show ?thesis by (auto simp: tq_wf_def tq_inv_def good_heap_def)
next
  case (TimerRead ans now)
  with assms handleTimerRead_wf [of settime armed reqs fired q ans now] show ?thesis by auto
qed

interpretation timer_machine:
  op_invariant "tq_exec settime reqs" "tq_wf armed fired" "tq_env settime armed fired reqs"
  for settime reqs armed fired
  by unfold_locales (rule tq_exec_safe)

definition empty_queue :: "'k \<Rightarrow> ('cb, 'k) timer_queue" where
  "empty_queue k = \<lparr>timers = [], heap = Map.empty, nextSeq = 0, tfd = k\<rparr>"

text \<open>C17: Over any history of added timers, expirations and reads, with callbacks that add
  timers of their own, the timer queue never touches a freed timer, leaks none, keeps the set
  sorted with every entry at its timer's expiration, and either has an expiration waiting to be
  read or has the timerfd armed for the earliest entry, so that no timer is missed.\<close>

theorem timer_queue_never_misses:
  assumes "armed k = None" "allowed (tq_exec settime reqs) (tq_env settime armed fired reqs) ops (empty_queue k)"
  shows "\<exists>q. run_ops (tq_exec settime reqs) ops (empty_queue k) = Inr q \<and>
    dom (heap q) = e_timer ` set (timers q) \<and> sorted_wrt (<) (timers q) \<and>
    (\<forall>e \<in> set (timers q). map_option expiration (heap q (e_timer e)) = Some (e_when e)) \<and>
    (fired (tfd q) \<or> armed (tfd q) = (if timers q = [] then None else Some (e_when (hd (timers q)))))"
proof -
  have "tq_wf armed fired (empty_queue k)"
    using assms(1) by (simp add: tq_wf_def empty_queue_def tq_inv_def good_heap_def armed_earliest_def)
  from timer_machine.run_safe [OF this assms(2)] show ?thesis
    by (auto simp: tq_wf_def tq_inv_def armed_earliest_def)
qed

theorem timer_queue_never_misses_witness:
  "\<exists>q. run_ops (tq_exec clock_settime (\<lambda>_ _. []))
      [AddTimer (runEvery 7 0 1 (Some ())), KernelExpires (None, True), TimerRead (Done 8) 1000001]
      (empty_queue (None, False)) = Inr q \<and> timers q = [Entry 2000000 7] \<and> fst (tfd q) = Some 2000000"
proof -
  let ?reqs = "(\<lambda>_ _. []) :: unit \<Rightarrow> (unit, time option \<times> bool) timer_queue \<Rightarrow> unit add_request list"
  let ?ops = "[AddTimer (runEvery 7 0 1 (Some ())), KernelExpires (None, True), TimerRead (Done 8) 1000001]"
  have laws: "new_law clock_settime ?reqs" "reqs_positive ?reqs"
    by (simp_all add: new_law_def reqs_positive_def)
  note run = runEvery_def empty_queue_def addTimer_def resetTimerfd_def Let_def new_timer_def
    handleTimerRead_def getExpired_def lower_bound_def less_entry_def run_timer_def
    finish_timer_def restart_def timespec_value
  have "allowed (tq_exec clock_settime ?reqs) (tq_env clock_settime fst snd ?reqs) ?ops
      (empty_queue (None, False))"
    using laws clock_settime_law by (simp add: run)
  from timer_queue_never_misses [OF _ this] show ?thesis by (simp add: run)
qed



section \<open>Repeating timers and ties\<close>

lemma fire_expired_grows:
  "fire_expired settime reqs as q = Inr q' \<Longrightarrow> set (timers q) \<subseteq> set (timers q')"
proof (induction as arbitrary: q)
  case (Cons a as)
  have adds: "set (timers q) \<subseteq> set (timers (fold (addTimer settime) rs q))" for rs :: "'a add_request list" and q
    by (induction rs arbitrary: q) (fastforce simp: addTimer_frame)+
  have "set (timers q) \<subseteq> set (timers (finish_timer a u (run_timer settime reqs t q)))" for t u
    using adds by (fastforce simp: finish_timer_def run_timer_def Let_def split: option.splits)
  moreover obtain t u where
    "fire_expired settime reqs as (finish_timer a u (run_timer settime reqs t q)) = Inr q'"
    using Cons.prems by (auto simp: Let_def split: option.splits)
  ultimately show ?case using Cons.IH by blast
qed simp

lemma fire_expired_keeps:
  assumes law: "new_law settime reqs"
  shows "fire_expired settime reqs as q = Inr q' \<Longrightarrow> heap q b = Some t \<Longrightarrow> b \<notin> set as \<Longrightarrow>
    heap q' b = Some t"
proof (induction as arbitrary: q)
  case (Cons a as)
  have "heap (finish_timer a u (run_timer settime reqs v q)) b = Some t" for u v
    using run_timer_keep [OF Cons.prems(2) law] Cons.prems(3) by (auto simp: finish_timer_def Let_def)
  moreover obtain u v where
    "fire_expired settime reqs as (finish_timer a u (run_timer settime reqs v q)) = Inr q'"
    using Cons.prems(1) by (auto simp: Let_def split: option.splits)
  ultimately show ?case using Cons.IH Cons.prems(3) by simp
qed simp

lemma fire_expired_repeats:
  assumes law: "new_law settime reqs"
  shows "fire_expired settime reqs as q = Inr q' \<Longrightarrow> distinct as \<Longrightarrow> a \<in> set as \<Longrightarrow>
    heap q a = Some t \<Longrightarrow> repeat t \<Longrightarrow>
    heap q' a = Some (restart t) \<and> Entry (expiration (restart t)) a \<in> set (timers q')"
proof (induction as arbitrary: q)
  case (Cons b as)
  from Cons.prems(1) obtain u where u: "heap q b = Some u" by (auto split: option.splits)
  let ?q = "finish_timer b u (run_timer settime reqs u q)"
  have rest: "fire_expired settime reqs as ?q = Inr q'"
    using Cons.prems(1) u run_timer_keep [OF u law] by (simp add: Let_def)
  show ?case
  proof (cases "a = b")
    case True
    then have "heap ?q a = Some (restart t)" "Entry (expiration (restart t)) a \<in> set (timers ?q)"
      using u Cons.prems(4,5) by (simp_all add: finish_timer_def Let_def)
    moreover have "a \<notin> set as" using True Cons.prems(2) by simp
    ultimately show ?thesis
      using fire_expired_keeps [OF law rest] fire_expired_grows [OF rest] by blast
  next
    case False
    then have "heap ?q a = Some t"
      using run_timer_keep [OF Cons.prems(4) law] by (simp add: finish_timer_def Let_def)
    with False Cons.prems Cons.IH [OF rest] show ?thesis by simp
  qed
qed simp

text \<open>A repeating timer that is due is filed again exactly one interval after its previous
  expiration, however late \<open>handleRead\<close> runs it and whatever the callbacks add.\<close>

theorem repeating_timer_does_not_drift:
  assumes "tq_inv [] q" "new_law settime reqs"
    and "handleTimerRead settime reqs (Done 8) now q = Inr (fired, q')"
    and "heap q a = Some t" "repeat t" "expiration t < now"
  shows "a \<in> set fired \<and> Entry (expiration t + interval_ms t * 1000000) a \<in> set (timers q') \<and>
    map_option expiration (heap q' a) = Some (expiration t + interval_ms t * 1000000)"
proof -
  obtain q1 where g: "getExpired now q = (fired, q1)" and h: "heap q1 = heap q"
    and f: "\<exists>q2. fire_expired settime reqs fired q1 = Inr q2 \<and> q' = resetTimerfd settime q2"
    using assms(1,3) by (auto simp: handleTimerRead_def getExpired_split bind_res_eq_Inr)
  from f obtain q2 where f: "fire_expired settime reqs fired q1 = Inr q2" "q' = resetTimerfd settime q2"
    by blast
  have "a \<in> e_timer ` set (timers q)" using assms(1,4) by (auto simp: tq_inv_def)
  then obtain e where e: "e \<in> set (timers q)" "e_timer e = a" by blast
  with assms(1,4) have "e_when e = expiration t" by (fastforce simp: tq_inv_def)
  with e assms(6) g have fired: "a \<in> set fired" by (auto simp: getExpired_split [OF assms(1)])
  moreover have "distinct fired" using getExpired_inv [OF assms(1) g] by (simp add: tq_inv_def)
  ultimately have "heap q2 a = Some (restart t) \<and> Entry (expiration (restart t)) a \<in> set (timers q2)"
    using fire_expired_repeats [OF assms(2) f(1)] h assms(4,5) by simp
  with fired f(2) assms(5) show ?thesis by (simp add: restart_def)
qed

theorem repeating_timer_does_not_drift_witness:
  "\<exists>q'. handleTimerRead clock_settime (\<lambda>_ _. []) (Done 8) 9000000
     \<lparr>timers = [Entry 5 3], heap = [3 \<mapsto> new_timer (Some ()) 5 2 1], nextSeq = 1, tfd = (None, True)\<rparr>
     = Inr ([3], q') \<and> Entry 2000005 3 \<in> set (timers q')"
proof -
  let ?q = "\<lparr>timers = [Entry 5 3], heap = [3 \<mapsto> new_timer (Some ()) 5 2 1], nextSeq = 1,
     tfd = (None, True)\<rparr> :: (unit, time option \<times> bool) timer_queue"
  let ?reqs = "(\<lambda>_ _. []) :: unit \<Rightarrow> (unit, time option \<times> bool) timer_queue \<Rightarrow> unit add_request list"
  have inv: "tq_inv [] ?q" by (auto simp: tq_inv_def new_timer_def)
  have law: "new_law clock_settime ?reqs" by (simp add: new_law_def)
  obtain fired q' where r: "handleTimerRead clock_settime ?reqs (Done 8) 9000000 ?q = Inr (fired, q')"
    using handleTimerRead_inv [OF inv law] by blast
  then have "fired = [3]" by (auto simp: handleTimerRead_def getExpired_split [OF inv] bind_res_eq_Inr)
  with r repeating_timer_does_not_drift [OF inv law r, of 3 "new_timer (Some ()) 5 2 1"] show ?thesis
    by (simp add: new_timer_def)
qed

text \<open>Timers with equal expirations run in the order of their addresses, not of their
  sequence numbers: of two timers added one after the other for the same time, the later one
  runs first when the allocator gave it the lower address.\<close>

theorem equal_times_ordered_by_address:
  assumes "a2 < a1" "when < now"
  shows "\<exists>q q'. q = addTimer settime \<lparr>ar_addr = a2, ar_cb = None, ar_when = when, ar_interval = 0\<rparr>
        (addTimer settime \<lparr>ar_addr = a1, ar_cb = None, ar_when = when, ar_interval = 0\<rparr> (empty_queue k)) \<and>
      map_option sequence (heap q a1) = Some 1 \<and> map_option sequence (heap q a2) = Some 2 \<and>
      handleTimerRead settime reqs (Done 8) now q = Inr ([a2, a1], q')"
  using assms
  by (simp add: addTimer_cases file_timer_def empty_queue_def new_timer_def handleTimerRead_def
      getExpired_def lower_bound_def less_entry_def run_timer_def finish_timer_def
      resetTimerfd_def Let_def)

theorem equal_times_ordered_by_address_witness:
  "\<exists>q q' :: (unit, time option \<times> bool) timer_queue. map_option sequence (heap q 20) = Some 1 \<and>
     map_option sequence (heap q 10) = Some 2 \<and>
     handleTimerRead clock_settime (\<lambda>_ _. []) (Done 8) 6 q = Inr ([10, 20], q')"
  using equal_times_ordered_by_address [of 10 20 5 6 clock_settime "(None, False)" "\<lambda>_ _. []"]
  by (simp del: handleTimerRead_def) blast

end
