(* ===== verification/Event_Loop.thy ===== *)
theory Event_Loop
  imports Prelude
begin

text \<open>
  The event loop as a concurrent program (\<open>reactor/EventLoop.h\<close>, \<open>EventLoop.cpp\<close>): the loop
  thread with its program counter, and other threads that post functors or ask it to quit at
  any point between two of its steps.  The registry of channels is in \<open>Poller\<close>, the timer
  functions in \<open>Timers\<close>.

  The eventfd is a parameter: \<open>ev_write\<close> and \<open>ev_read\<close> are the write of 1 and the read, and
  \<open>ev_readable\<close> says whether epoll reports the descriptor.
\<close>

section \<open>State\<close>

record 'e eventfd =
  ev_write :: "'e \<Rightarrow> 'e"
  ev_read :: "'e \<Rightarrow> 'e"
  ev_readable :: "'e \<Rightarrow> bool"

definition eventfd_law :: "'e eventfd \<Rightarrow> bool" where
  "eventfd_law ev \<longleftrightarrow>
     (\<forall>e. ev_readable ev (ev_write ev e)) \<and> (\<forall>e. \<not> ev_readable ev (ev_read ev e))"

definition counter_eventfd :: "nat eventfd" where
  "counter_eventfd = \<lparr>ev_write = (\<lambda>n. if n < 2 ^ 64 - 2 then Suc n else n), ev_read = (\<lambda>n. 0),
     ev_readable = (\<lambda>n. 0 < n)\<rparr>"

text \<open>
  Where the loop thread stands: before \<open>loop()\<close>, at the test of \<open>quit_\<close>, in \<open>epoll_wait\<close>,
  handling a batch of \<open>n\<close> events (with a flag while the wakeup event is still among
  them), at the three stages of \<open>doPendingFunctors\<close> (with a flag that
  tells the final call after the loop), or returned.
\<close>

datatype pc = NotStarted | AtTest | AtWait | Handling nat bool | PendStart bool | PendSwap bool
  | PendRun bool | Exited

text \<open>
  \<open>batch\<close> is the local vector \<open>functors\<close>.  Four fields are not variables of the code:
  \<open>unwoken\<close> counts the threads that stand between their change and their call of \<open>wakeup\<close>,
  \<open>early\<close> says that the owner thread itself queued a functor before \<open>loop()\<close> and no swap has
  followed, \<open>posted\<close> and \<open>executed\<close> record the functors in the order of their insertion and
  execution.
\<close>

record ('f, 'e) eloop =
  quit :: bool
  pendingFunctors :: "'f list"
  callingPendingFunctors :: bool
  wakeupFd :: 'e
  events_size :: nat
  pc :: pc
  batch :: "'f list"
  unwoken :: nat
  early :: bool
  posted :: "'f list"
  executed :: "'f list"

section \<open>Operations\<close>

definition new_loop :: "'e \<Rightarrow> ('f, 'e) eloop" where
  "new_loop e = \<lparr>quit = False, pendingFunctors = [], callingPendingFunctors = False, wakeupFd = e,
     events_size = 64, pc = NotStarted, batch = [], unwoken = 0,
     early = False, posted = [], executed = []\<rparr>"

definition wakeup :: "'e eventfd \<Rightarrow> ('f, 'e) eloop \<Rightarrow> ('f, 'e) eloop" where
  "wakeup ev s = s\<lparr>wakeupFd := ev_write ev (wakeupFd s)\<rparr>"

definition handleWakeup :: "'e eventfd \<Rightarrow> ('f, 'e) eloop \<Rightarrow> ('f, 'e) eloop" where
  "handleWakeup ev s = s\<lparr>wakeupFd := ev_read ev (wakeupFd s)\<rparr>"

definition push_functor :: "'f \<Rightarrow> ('f, 'e) eloop \<Rightarrow> ('f, 'e) eloop" where
  "push_functor f s = s\<lparr>pendingFunctors := pendingFunctors s @ [f], posted := posted s @ [f]\<rparr>"

definition queueInLoop :: "'e eventfd \<Rightarrow> bool \<Rightarrow> 'f \<Rightarrow> ('f, 'e) eloop \<Rightarrow> ('f, 'e) eloop" where
  "queueInLoop ev inLoopThread f s = (let s = push_functor f s in
     if \<not> inLoopThread \<or> callingPendingFunctors s then wakeup ev s else s)"

definition quit_loop :: "'e eventfd \<Rightarrow> ('f, 'e) eloop \<Rightarrow> ('f, 'e) eloop" where
  "quit_loop ev s = wakeup ev (s\<lparr>quit := True\<rparr>)"

text \<open>What code that runs in the loop thread (a handler or a functor) does to its loop.\<close>

datatype 'f act = ActQueue 'f | ActQuit

fun perform :: "'e eventfd \<Rightarrow> 'f act \<Rightarrow> ('f, 'e) eloop \<Rightarrow> ('f, 'e) eloop" where
  "perform ev (ActQueue f) s = queueInLoop ev True f s"
| "perform ev ActQuit s = quit_loop ev s"

text \<open>\<open>acts f\<close> are the actions of functor \<open>f\<close>.  One functor of the batch, and all of them:\<close>

definition run_functor :: "'e eventfd \<Rightarrow> ('f \<Rightarrow> 'f act list) \<Rightarrow> 'f \<Rightarrow> ('f, 'e) eloop \<Rightarrow> ('f, 'e) eloop" where
  "run_functor ev acts f s = fold (perform ev) (acts f) (s\<lparr>executed := executed s @ [f]\<rparr>)"

definition swap_pending :: "('f, 'e) eloop \<Rightarrow> ('f, 'e) eloop" where
  "swap_pending s = s\<lparr>batch := pendingFunctors s, pendingFunctors := [], early := False\<rparr>"

fun run_batch :: "'e eventfd \<Rightarrow> ('f \<Rightarrow> 'f act list) \<Rightarrow> 'f list \<Rightarrow> ('f, 'e) eloop \<Rightarrow> ('f, 'e) eloop" where
  "run_batch ev acts [] s = s"
| "run_batch ev acts (f # fs) s = run_batch ev acts fs (run_functor ev acts f (s\<lparr>batch := fs\<rparr>))"

definition doPendingFunctors :: "'e eventfd \<Rightarrow> ('f \<Rightarrow> 'f act list) \<Rightarrow> ('f, 'e) eloop \<Rightarrow> ('f, 'e) eloop" where
  "doPendingFunctors ev acts s =
     (let s = swap_pending (s\<lparr>callingPendingFunctors := True\<rparr>);
          s = run_batch ev acts (batch s) s
      in s\<lparr>callingPendingFunctors := False\<rparr>)"

text \<open>\<open>runInLoop\<close> returns the functor to run at once when it is called in the loop thread.\<close>

definition runInLoop :: "'e eventfd \<Rightarrow> ('f \<Rightarrow> 'f act list) \<Rightarrow> bool \<Rightarrow> 'f \<Rightarrow> ('f, 'e) eloop \<Rightarrow> ('f, 'e) eloop" where
  "runInLoop ev acts inLoopThread f s =
     (if inLoopThread then fold (perform ev) (acts f) s else queueInLoop ev False f s)"

section \<open>Steps of the system\<close>

text \<open>
  Steps of the loop thread, in the order of \<open>loop()\<close>, then those of other threads.  A remote
  \<open>queueInLoop\<close> and a remote \<open>quit()\<close> are two steps each, the change and the wakeup.
  \<open>epoll_wait\<close> returns with the wakeup descriptor only when it is readable; the other ready
  descriptors depend on the outside world.
\<close>

inductive loop_step :: "'e eventfd \<Rightarrow> ('f \<Rightarrow> 'f act list) \<Rightarrow> ('f, 'e) eloop \<Rightarrow> ('f, 'e) eloop \<Rightarrow> bool"
  for ev acts where
  loop_starts: "pc s = NotStarted \<Longrightarrow> loop_step ev acts s (s\<lparr>quit := False, pc := AtTest\<rparr>)"
| owner_queues: "pc s = NotStarted \<Longrightarrow> loop_step ev acts s ((queueInLoop ev True f s)\<lparr>early := True\<rparr>)"
| test_goes_on: "pc s = AtTest \<Longrightarrow> \<not> quit s \<Longrightarrow> loop_step ev acts s (s\<lparr>pc := AtWait\<rparr>)"
| test_stops: "pc s = AtTest \<Longrightarrow> quit s \<Longrightarrow> loop_step ev acts s (s\<lparr>pc := PendStart True\<rparr>)"
| wait_woken: "pc s = AtWait \<Longrightarrow> ev_readable ev (wakeupFd s) \<Longrightarrow> 0 < n \<Longrightarrow> n \<le> events_size s \<Longrightarrow>
    loop_step ev acts s (s\<lparr>pc := Handling n True\<rparr>)"
| wait_other: "pc s = AtWait \<Longrightarrow> 0 < n \<Longrightarrow> n \<le> events_size s \<Longrightarrow>
    loop_step ev acts s (s\<lparr>pc := Handling n False\<rparr>)"
| wait_interrupted: "pc s = AtWait \<Longrightarrow> loop_step ev acts s (s\<lparr>pc := PendStart False\<rparr>)"
| wait_fails: "pc s = AtWait \<Longrightarrow> loop_step ev acts s (s\<lparr>pc := PendStart True\<rparr>)"
| handler_acts: "pc s = Handling n wk \<Longrightarrow> loop_step ev acts s (perform ev a s)"
| handler_wakeup: "pc s = Handling n True \<Longrightarrow>
    loop_step ev acts s ((handleWakeup ev s)\<lparr>pc := Handling n False\<rparr>)"
| handlers_done: "pc s = Handling n False \<Longrightarrow>
    loop_step ev acts s (s\<lparr>events_size := (if n = events_size s then 2 * events_size s else events_size s),
      pc := PendStart False\<rparr>)"
| pend_marks: "pc s = PendStart fin \<Longrightarrow>
    loop_step ev acts s (s\<lparr>callingPendingFunctors := True, pc := PendSwap fin\<rparr>)"
| pend_swaps: "pc s = PendSwap fin \<Longrightarrow> loop_step ev acts s ((swap_pending s)\<lparr>pc := PendRun fin\<rparr>)"
| pend_runs: "pc s = PendRun fin \<Longrightarrow> batch s = f # fs \<Longrightarrow>
    loop_step ev acts s (run_functor ev acts f (s\<lparr>batch := fs\<rparr>))"
| pend_ends: "pc s = PendRun fin \<Longrightarrow> batch s = [] \<Longrightarrow>
    loop_step ev acts s (s\<lparr>callingPendingFunctors := False, pc := (if fin then Exited else AtTest)\<rparr>)"
| remote_pushes: "loop_step ev acts s ((push_functor f s)\<lparr>unwoken := Suc (unwoken s)\<rparr>)"
| remote_quits: "loop_step ev acts s (s\<lparr>quit := True, unwoken := Suc (unwoken s)\<rparr>)"
| remote_wakes: "unwoken s = Suc n \<Longrightarrow> loop_step ev acts s ((wakeup ev s)\<lparr>unwoken := n\<rparr>)"

definition loop_init :: "'e eventfd \<Rightarrow> ('f, 'e) eloop \<Rightarrow> bool" where
  "loop_init ev s \<longleftrightarrow> (\<exists>e. s = new_loop e)"

definition loop_steps :: "'e eventfd \<Rightarrow> ('f \<Rightarrow> 'f act list) \<Rightarrow> ('f, 'e) eloop \<Rightarrow> ('f, 'e) eloop \<Rightarrow> bool" where
  "loop_steps ev acts = rtranclp (loop_step ev acts)"

inductive_cases loop_stepE: "loop_step ev acts s t"

section \<open>What one action and one batch change\<close>

lemma perform_frame [simp]:
  "pc (perform ev a s) = pc s" "batch (perform ev a s) = batch s"
  "executed (perform ev a s) = executed s" "unwoken (perform ev a s) = unwoken s"
  "early (perform ev a s) = early s"
  "callingPendingFunctors (perform ev a s) = callingPendingFunctors s"
  "events_size (perform ev a s) = events_size s"
  by (cases a; simp add: queueInLoop_def push_functor_def wakeup_def quit_loop_def Let_def)+

fun queued :: "'f act list \<Rightarrow> 'f list" where
  "queued [] = []"
| "queued (ActQueue f # as) = f # queued as"
| "queued (ActQuit # as) = queued as"

lemma performs_frame [simp]:
  "pc (fold (perform ev) as s) = pc s" "batch (fold (perform ev) as s) = batch s"
  "executed (fold (perform ev) as s) = executed s" "unwoken (fold (perform ev) as s) = unwoken s"
  "early (fold (perform ev) as s) = early s"
  "callingPendingFunctors (fold (perform ev) as s) = callingPendingFunctors s"
  "events_size (fold (perform ev) as s) = events_size s"
  by (induction as arbitrary: s) simp_all

lemma performs_queue:
  "pendingFunctors (fold (perform ev) as s) = pendingFunctors s @ queued as"
  "posted (fold (perform ev) as s) = posted s @ queued as"
proof (induction as arbitrary: s)
  case (Cons a as)
  { case 1 show ?case using Cons by (cases a)
      (simp_all add: queueInLoop_def push_functor_def wakeup_def quit_loop_def Let_def) }
  { case 2 show ?case using Cons by (cases a)
      (simp_all add: queueInLoop_def push_functor_def wakeup_def quit_loop_def Let_def) }
qed simp_all

text \<open>The wakeup descriptor is readable, or a thread is about to make it so.\<close>

definition signalled :: "'e eventfd \<Rightarrow> ('f, 'e) eloop \<Rightarrow> bool" where
  "signalled ev s \<longleftrightarrow> ev_readable ev (wakeupFd s) \<or> 0 < unwoken s"

lemma perform_signal:
  "eventfd_law ev \<Longrightarrow> signalled ev s \<Longrightarrow> signalled ev (perform ev a s)"
  by (cases a) (auto simp: signalled_def eventfd_law_def queueInLoop_def push_functor_def
      wakeup_def quit_loop_def Let_def)

lemma performs_keep_signal:
  "eventfd_law ev \<Longrightarrow> signalled ev s \<Longrightarrow> signalled ev (fold (perform ev) as s)"
  by (induction as arbitrary: s) (simp_all add: perform_signal)

lemma performs_signal:
  assumes law: "eventfd_law ev"
  shows "callingPendingFunctors s \<Longrightarrow> queued as \<noteq> [] \<Longrightarrow> signalled ev (fold (perform ev) as s)"
proof (induction as arbitrary: s)
  case (Cons a as)
  show ?case
  proof (cases a)
    case (ActQueue f)
    with Cons.prems law have "signalled ev (perform ev a s)"
      by (simp add: signalled_def eventfd_law_def queueInLoop_def push_functor_def wakeup_def Let_def)
    then show ?thesis by (simp add: performs_keep_signal [OF law])
  next
    case ActQuit
    with Cons show ?thesis by (simp add: quit_loop_def wakeup_def)
  qed
qed simp

section \<open>Invariants\<close>

definition fifo_inv :: "('f, 'e) eloop \<Rightarrow> bool" where
  "fifo_inv s \<longleftrightarrow> posted s = executed s @ batch s @ pendingFunctors s \<and>
     ((\<forall>fin. pc s \<noteq> PendRun fin) \<longrightarrow> batch s = []) \<and> 0 < events_size s \<and>
     (callingPendingFunctors s \<longleftrightarrow> (\<exists>fin. pc s = PendSwap fin \<or> pc s = PendRun fin))"

lemma fifo_inv_step: "loop_step ev acts s t \<Longrightarrow> fifo_inv s \<Longrightarrow> fifo_inv t"
proof (induction rule: loop_step.induct)
  case (handler_acts s n wk a)
  then show ?case using performs_queue [of ev "[a]" s] by (simp add: fifo_inv_def)
next
  case (pend_runs s fin f fs)
  then show ?case by (cases fin) (auto simp: fifo_inv_def run_functor_def performs_queue)
qed (auto simp: fifo_inv_def push_functor_def wakeup_def queueInLoop_def Let_def handleWakeup_def swap_pending_def)

interpretation loop_fifo: inductive_invariant "loop_init ev" "loop_step ev acts" fifo_inv for ev acts
proof unfold_locales
  show "fifo_inv s" if "loop_init ev s" for s
    using that by (auto simp: loop_init_def new_loop_def fifo_inv_def)
qed (rule fifo_inv_step)

text \<open>
  Where the loop thread will reach \<open>epoll_wait\<close> without passing \<open>swap\<close> first, a pending
  functor comes with a signal; and a thread in \<open>epoll_wait\<close> that was told to quit has one.
\<close>

definition wake_inv :: "'e eventfd \<Rightarrow> ('f, 'e) eloop \<Rightarrow> bool" where
  "wake_inv ev s \<longleftrightarrow> fifo_inv s \<and>
     (early s \<longrightarrow> pc s \<notin> {PendRun False, PendRun True}) \<and>
     (pendingFunctors s \<noteq> [] \<longrightarrow> \<not> early s \<longrightarrow> pc s \<in> {NotStarted, AtTest, AtWait, PendRun False, PendRun True} \<longrightarrow>
        signalled ev s) \<and>
     (pc s = AtWait \<longrightarrow> quit s \<longrightarrow> signalled ev s)"

lemma wake_inv_step:
  assumes law: "eventfd_law ev"
  shows "loop_step ev acts s t \<Longrightarrow> wake_inv ev s \<Longrightarrow> wake_inv ev t"
proof (induction rule: loop_step.induct)
  case (handler_acts s n wk a)
  then show ?case
    using fifo_inv_step [OF loop_step.handler_acts [OF handler_acts(1)]] by (simp add: wake_inv_def)
next
  case (owner_queues s f)
  then show ?case
    using fifo_inv_step [OF loop_step.owner_queues [OF owner_queues(1)]]
    by (auto simp: wake_inv_def queueInLoop_def push_functor_def wakeup_def Let_def)
next
  case (pend_runs s fin f fs)
  let ?s = "s\<lparr>batch := fs, executed := executed s @ [f]\<rparr>"
  have call: "callingPendingFunctors ?s" using pend_runs by (auto simp: wake_inv_def fifo_inv_def)
  have "signalled ev (fold (perform ev) (acts f) ?s)"
    if "pendingFunctors (fold (perform ev) (acts f) ?s) \<noteq> []"
  proof (cases "queued (acts f) = []")
    case True
    with that have "pendingFunctors s \<noteq> []" by (simp add: performs_queue)
    moreover have "pc s \<in> {PendRun False, PendRun True}" using pend_runs by (cases fin) auto
    ultimately have "signalled ev ?s" using pend_runs by (auto simp: wake_inv_def signalled_def)
    then show ?thesis by (rule performs_keep_signal [OF law])
  qed (rule performs_signal [OF law call])
  moreover have "fifo_inv (run_functor ev acts f (s\<lparr>batch := fs\<rparr>))"
    using fifo_inv_step [OF loop_step.pend_runs, OF pend_runs(1,2)] pend_runs by (simp add: wake_inv_def)
  ultimately show ?case using pend_runs by (simp add: wake_inv_def run_functor_def)
next
  case (remote_pushes s)
  then show ?case by (auto simp: wake_inv_def fifo_inv_def push_functor_def signalled_def)
next
  case (remote_wakes s n)
  then show ?case using law
    by (auto simp: wake_inv_def fifo_inv_def wakeup_def signalled_def eventfd_law_def)
next
  case (pend_ends s fin)
  then show ?case by (cases fin) (auto simp: wake_inv_def fifo_inv_def signalled_def)
qed (auto simp: wake_inv_def fifo_inv_def signalled_def handleWakeup_def swap_pending_def)

interpretation loop_wake:
  inductive_invariant "loop_init ev" "loop_step ev acts" "\<lambda>s. eventfd_law ev \<longrightarrow> wake_inv ev s" for ev acts
proof unfold_locales
  show "eventfd_law ev \<longrightarrow> wake_inv ev s" if "loop_init ev s" for s
    using that by (auto simp: loop_init_def new_loop_def wake_inv_def fifo_inv_def)
qed (blast intro: wake_inv_step)

text \<open>Everything posted at one point of a round is executed when the round ends.\<close>

definition round_inv :: "'f list \<Rightarrow> ('f, 'e) eloop \<Rightarrow> bool" where
  "round_inv fs t \<longleftrightarrow> fifo_inv t \<and> take (length fs) (posted t) = fs \<and>
     (case pc t of NotStarted \<Rightarrow> False | AtTest \<Rightarrow> length fs \<le> length (executed t)
      | Exited \<Rightarrow> length fs \<le> length (executed t)
      | PendRun fin \<Rightarrow> length fs \<le> length (executed t) + length (batch t) | _ \<Rightarrow> True)"

lemma posted_grows: "loop_step ev acts s t \<Longrightarrow> \<exists>gs. posted t = posted s @ gs"
proof (induction rule: loop_step.induct)
  case (handler_acts s n wk a)
  show ?case using performs_queue(2) [of ev "[a]" s] by simp
next
  case (owner_queues s f)
  show ?case using performs_queue(2) [of ev "[ActQueue f]" s] by simp
qed (auto simp: run_functor_def performs_queue push_functor_def wakeup_def handleWakeup_def swap_pending_def)

lemma round_phase_step:
  "loop_step ev acts s t \<Longrightarrow> round_inv fs s \<Longrightarrow> fifo_inv s \<Longrightarrow> length fs \<le> length (posted s) \<Longrightarrow>
   (case pc t of NotStarted \<Rightarrow> False | AtTest \<Rightarrow> length fs \<le> length (executed t)
      | Exited \<Rightarrow> length fs \<le> length (executed t)
      | PendRun fin \<Rightarrow> length fs \<le> length (executed t) + length (batch t) | _ \<Rightarrow> True)"
proof (induction rule: loop_step.induct)
  case (remote_pushes s f)
  then show ?case by (simp add: round_inv_def push_functor_def split: pc.splits)
next
  case (remote_quits s)
  then show ?case by (simp add: round_inv_def split: pc.splits)
next
  case (remote_wakes s n)
  then show ?case by (simp add: round_inv_def wakeup_def split: pc.splits)
next
  case (pend_swaps s fin)
  then have "posted s = executed s @ pendingFunctors s" by (simp add: fifo_inv_def)
  with pend_swaps show ?case by (simp add: swap_pending_def)
qed (simp_all add: round_inv_def run_functor_def)

lemma round_inv_step: "loop_step ev acts s t \<Longrightarrow> round_inv fs s \<Longrightarrow> round_inv fs t"
proof -
  assume step: "loop_step ev acts s t" and inv: "round_inv fs s"
  obtain gs where gs: "posted t = posted s @ gs" using posted_grows [OF step] by blast
  have le: "length fs \<le> length (posted s)"
    using inv unfolding round_inv_def by (metis length_take min.cobounded1 min.commute)
  then have "take (length fs) (posted t) = fs" using inv gs by (simp add: round_inv_def)
  moreover have "fifo_inv t" using step inv by (auto simp: round_inv_def intro: fifo_inv_step)
  moreover have "fifo_inv s" using inv by (simp add: round_inv_def)
  then have "(case pc t of NotStarted \<Rightarrow> False | AtTest \<Rightarrow> length fs \<le> length (executed t)
      | Exited \<Rightarrow> length fs \<le> length (executed t)
      | PendRun fin \<Rightarrow> length fs \<le> length (executed t) + length (batch t) | _ \<Rightarrow> True)"
    using inv le step by (intro round_phase_step)
  ultimately show ?thesis by (simp add: round_inv_def)
qed

lemma round_inv_steps: "loop_steps ev acts s t \<Longrightarrow> round_inv fs s \<Longrightarrow> round_inv fs t"
  unfolding loop_steps_def by (induction rule: rtranclp_induct) (auto intro: round_inv_step)

section \<open>The small steps and the function\<close>

lemma run_batch_fields:
  "batch s = fs \<Longrightarrow> batch (run_batch ev acts fs s) = []"
  "executed (run_batch ev acts fs s) = executed s @ fs"
  "pendingFunctors (run_batch ev acts fs s) = pendingFunctors s @ concat (map (queued \<circ> acts) fs)"
  "posted (run_batch ev acts fs s) = posted s @ concat (map (queued \<circ> acts) fs)"
  "pc (run_batch ev acts fs s) = pc s" "unwoken (run_batch ev acts fs s) = unwoken s"
  "callingPendingFunctors (run_batch ev acts fs s) = callingPendingFunctors s"
proof (induction fs arbitrary: s)
  case (Cons f fs)
  { case 1 show ?case using Cons(1) by (simp add: run_functor_def) }
  { case 2 show ?case using Cons(2) by (simp add: run_functor_def) }
  { case 3 show ?case using Cons(3) by (simp add: run_functor_def performs_queue) }
  { case 4 show ?case using Cons(4) by (simp add: run_functor_def performs_queue) }
  { case 5 show ?case using Cons(5) by (simp add: run_functor_def) }
  { case 6 show ?case using Cons(6) by (simp add: run_functor_def) }
  { case 7 show ?case using Cons(7) by (simp add: run_functor_def) }
qed simp_all

lemma run_batch_signal:
  assumes law: "eventfd_law ev"
  shows "callingPendingFunctors s \<Longrightarrow> signalled ev s \<or> concat (map (queued \<circ> acts) fs) \<noteq> [] \<Longrightarrow>
    signalled ev (run_batch ev acts fs s)"
proof (induction fs arbitrary: s)
  case (Cons f fs)
  let ?s = "s\<lparr>batch := fs, executed := executed s @ [f]\<rparr>"
  let ?t = "fold (perform ev) (acts f) ?s"
  have call: "callingPendingFunctors ?s" using Cons.prems by simp
  have "signalled ev ?t \<or> concat (map (queued \<circ> acts) fs) \<noteq> []"
  proof (cases "queued (acts f) = []")
    case True
    then have "signalled ev ?s \<or> concat (map (queued \<circ> acts) fs) \<noteq> []"
      using Cons.prems by (simp add: signalled_def)
    then show ?thesis using performs_keep_signal [OF law] by blast
  next
    case False
    then show ?thesis using performs_signal [OF law call] by blast
  qed
  then have "signalled ev (run_batch ev acts fs ?t)" using Cons.IH [of ?t] Cons.prems by simp
  then show ?case by (simp add: run_functor_def)
qed simp

lemma run_batch_steps:
  "pc s = PendRun fin \<Longrightarrow> batch s = fs \<Longrightarrow> loop_steps ev acts s (run_batch ev acts fs s)"
proof (induction fs arbitrary: s)
  case (Cons f fs)
  let ?t = "run_functor ev acts f (s\<lparr>batch := fs\<rparr>)"
  have "loop_step ev acts s ?t" using Cons.prems by (rule loop_step.pend_runs)
  moreover have "loop_steps ev acts ?t (run_batch ev acts fs ?t)"
    using Cons.prems by (intro Cons.IH) (simp_all add: run_functor_def)
  ultimately show ?case by (simp add: loop_steps_def converse_rtranclp_into_rtranclp)
qed (simp add: loop_steps_def)

lemma run_batch_pc: "run_batch ev acts fs (s\<lparr>pc := p\<rparr>) = (run_batch ev acts fs s)\<lparr>pc := p\<rparr>"
proof (induction fs arbitrary: s)
  case (Cons f fs)
  have act: "perform ev a (x\<lparr>pc := p\<rparr>) = (perform ev a x)\<lparr>pc := p\<rparr>" for a x
    by (cases a) (simp_all add: queueInLoop_def push_functor_def wakeup_def quit_loop_def Let_def)
  have acts: "fold (perform ev) as (x\<lparr>pc := p\<rparr>) = (fold (perform ev) as x)\<lparr>pc := p\<rparr>" for as x
    by (induction as arbitrary: x) (simp_all add: act)
  have "run_functor ev acts f (x\<lparr>pc := p\<rparr>) = (run_functor ev acts f x)\<lparr>pc := p\<rparr>" for x
  proof -
    have swap: "x\<lparr>pc := p, executed := executed (x\<lparr>pc := p\<rparr>) @ [f]\<rparr> =
      x\<lparr>executed := executed x @ [f], pc := p\<rparr>" by simp
    show ?thesis by (simp only: run_functor_def swap acts)
  qed
  moreover have "s\<lparr>pc := p, batch := fs\<rparr> = s\<lparr>batch := fs, pc := p\<rparr>" by simp
  ultimately show ?case by (simp only: run_batch.simps Cons.IH)
qed simp

lemma doPendingFunctors_steps:
  assumes "pc s = PendStart fin"
  shows "loop_steps ev acts s ((doPendingFunctors ev acts s)\<lparr>pc := (if fin then Exited else AtTest)\<rparr>)"
proof -
  let ?m = "s\<lparr>callingPendingFunctors := True\<rparr>"
  let ?a = "?m\<lparr>pc := PendSwap fin\<rparr>" and ?b = "(swap_pending ?m)\<lparr>pc := PendRun fin\<rparr>"
  let ?c = "run_batch ev acts (pendingFunctors s) ?b"
  let ?d = "?c\<lparr>callingPendingFunctors := False, pc := (if fin then Exited else AtTest)\<rparr>"
  have "loop_step ev acts s ?a" using assms by (rule loop_step.pend_marks)
  moreover have "loop_step ev acts ?a ?b"
    using loop_step.pend_swaps [of ?a fin] by (simp add: swap_pending_def)
  moreover have "loop_steps ev acts ?b ?c" by (rule run_batch_steps) (simp_all add: swap_pending_def)
  moreover have "loop_step ev acts ?c ?d"
    by (rule loop_step.pend_ends) (simp_all add: run_batch_fields swap_pending_def)
  moreover have d: "?d = (doPendingFunctors ev acts s)\<lparr>pc := (if fin then Exited else AtTest)\<rparr>"
    by (simp add: doPendingFunctors_def Let_def run_batch_pc swap_pending_def)
  ultimately have "loop_steps ev acts s ?d" unfolding loop_steps_def
    by (meson converse_rtranclp_into_rtranclp rtranclp.rtrancl_into_rtrancl)
  with d show ?thesis by simp
qed

section \<open>Properties\<close>

text \<open>C4: Functors run exactly once and in the order in which they were queued, whatever the
  interleaving of the threads: at every reachable moment the functors ever queued are the
  executed ones, the rest of the current batch and the pending ones, in this order.\<close>

theorem functors_run_in_order:
  assumes "reach (loop_init ev) (loop_step ev acts) s"
  shows "posted s = executed s @ batch s @ pendingFunctors s \<and>
    (if \<exists>fin. pc s = PendRun fin then callingPendingFunctors s else batch s = [])"
  using loop_fifo.inv_reach [OF assms] by (auto simp: fifo_inv_def)

text \<open>A run for the witnesses: the loop starts, another thread posts 7 and wakes the loop.\<close>

abbreviation no_acts :: "nat \<Rightarrow> nat act list" where "no_acts f \<equiv> []"

definition posted_state :: "(nat, nat) eloop" where
  "posted_state = (new_loop 1)\<lparr>pc := AtWait, pendingFunctors := [7], posted := [7]\<rparr>"

lemma posted_state_reach: "reach (loop_init counter_eventfd) (loop_step counter_eventfd acts) posted_state"
proof -
  let ?R = "reach (loop_init counter_eventfd) (loop_step counter_eventfd acts)"
  have "?R (new_loop (0::nat))" by (rule reach.reach_init) (auto simp: loop_init_def)
  then have "?R ((new_loop 0)\<lparr>quit := False, pc := AtTest\<rparr>)"
    by (rule reach.reach_step) (rule loop_step.loop_starts, simp add: new_loop_def)
  then have "?R ((new_loop 0)\<lparr>pc := AtTest\<rparr>)" by (simp add: new_loop_def)
  then have "?R ((new_loop 0)\<lparr>pc := AtTest, pc := AtWait\<rparr>)"
    by (rule reach.reach_step) (rule loop_step.test_goes_on, simp_all add: new_loop_def)
  then have "?R ((push_functor 7 ((new_loop 0)\<lparr>pc := AtWait\<rparr>))\<lparr>unwoken := Suc 0\<rparr>)"
    using loop_step.remote_pushes [of counter_eventfd acts "(new_loop 0)\<lparr>pc := AtWait\<rparr>" 7]
    by (simp add: new_loop_def reach.reach_step)
  from reach.reach_step [OF this loop_step.remote_wakes [of _ 0]]
  show ?thesis by (simp add: posted_state_def new_loop_def push_functor_def wakeup_def counter_eventfd_def)
qed

lemma functors_run_in_order_witness:
  "posted posted_state = executed posted_state @ batch posted_state @ pendingFunctors posted_state
   \<and> posted posted_state = [7]"
  using functors_run_in_order [OF posted_state_reach [of no_acts]] by (simp add: posted_state_def)


lemma counter_eventfd_law: "eventfd_law counter_eventfd"
  by (simp add: eventfd_law_def counter_eventfd_def)


text \<open>A functor that the owner thread queues before \<open>loop()\<close> is not announced: the loop goes to
  sleep in \<open>epoll_wait\<close> with the functor pending, no wakeup written and none on its way.\<close>

theorem early_queue_sleeps:
  "\<exists>s. reach (loop_init counter_eventfd) (loop_step counter_eventfd acts) s \<and> pc s = AtWait \<and>
     pendingFunctors s = [f] \<and> \<not> ev_readable counter_eventfd (wakeupFd s) \<and> unwoken s = 0"
proof -
  let ?R = "reach (loop_init counter_eventfd) (loop_step counter_eventfd acts)"
  let ?s = "(new_loop (0::nat))\<lparr>pendingFunctors := [f], posted := [f], early := True\<rparr>"
  have "?R (new_loop (0::nat))" by (rule reach.reach_init) (auto simp: loop_init_def)
  from reach.reach_step [OF this loop_step.owner_queues [of _ _ _ f]]
  have "?R ?s" by (simp add: new_loop_def queueInLoop_def push_functor_def)
  from reach.reach_step [OF this loop_step.loop_starts]
  have "?R (?s\<lparr>pc := AtTest\<rparr>)" by (simp add: new_loop_def)
  from reach.reach_step [OF this loop_step.test_goes_on]
  have "?R (?s\<lparr>pc := AtWait\<rparr>)" by (simp add: new_loop_def)
  then show ?thesis
    by (intro exI [of _ "?s\<lparr>pc := AtWait\<rparr>"]) (simp add: new_loop_def counter_eventfd_def)
qed

lemma doPendingFunctors_effect:
  assumes "eventfd_law ev"
  shows "executed (doPendingFunctors ev acts s) = executed s @ pendingFunctors s"
    and "pendingFunctors (doPendingFunctors ev acts s) = concat (map (queued \<circ> acts) (pendingFunctors s))"
    and "\<not> callingPendingFunctors (doPendingFunctors ev acts s)"
    and "pendingFunctors (doPendingFunctors ev acts s) \<noteq> [] \<longrightarrow> unwoken s = 0 \<longrightarrow>
      ev_readable ev (wakeupFd (doPendingFunctors ev acts s))"
proof -
  let ?s = "swap_pending (s\<lparr>callingPendingFunctors := True\<rparr>)"
  let ?t = "run_batch ev acts (pendingFunctors s) ?s"
  have do: "doPendingFunctors ev acts s = ?t\<lparr>callingPendingFunctors := False\<rparr>"
    by (simp add: doPendingFunctors_def swap_pending_def Let_def)
  show "executed (doPendingFunctors ev acts s) = executed s @ pendingFunctors s"
    and p: "pendingFunctors (doPendingFunctors ev acts s) = concat (map (queued \<circ> acts) (pendingFunctors s))"
    and "\<not> callingPendingFunctors (doPendingFunctors ev acts s)"
    by (simp_all add: do run_batch_fields swap_pending_def)
  have sig: "signalled ev ?t" if "concat (map (queued \<circ> acts) (pendingFunctors s)) \<noteq> []"
    using that by (intro run_batch_signal [OF assms]) (simp_all add: swap_pending_def)
  show "pendingFunctors (doPendingFunctors ev acts s) \<noteq> [] \<longrightarrow> unwoken s = 0 \<longrightarrow>
      ev_readable ev (wakeupFd (doPendingFunctors ev acts s))"
  proof (intro impI)
    assume some: "pendingFunctors (doPendingFunctors ev acts s) \<noteq> []" and zero: "unwoken s = 0"
    from some have "signalled ev ?t" unfolding p by (rule sig)
    moreover have "unwoken ?t = 0" using zero by (simp add: run_batch_fields swap_pending_def)
    ultimately show "ev_readable ev (wakeupFd (doPendingFunctors ev acts s))" by (simp add: signalled_def do)
  qed
qed

text \<open>\<open>doPendingFunctors\<close> executes the functors that were pending when it was called, once and in
  order; those that they queue themselves stay pending, and then the wakeup descriptor is
  readable, so that the next \<open>epoll_wait\<close> returns at once.\<close>

theorem doPendingFunctors_spec:
  assumes "eventfd_law ev" and t: "t = doPendingFunctors ev acts s"
  shows "executed t = executed s @ pendingFunctors s \<and>
    pendingFunctors t = concat (map (queued \<circ> acts) (pendingFunctors s)) \<and>
    \<not> callingPendingFunctors t \<and>
    (pendingFunctors t \<noteq> [] \<longrightarrow> unwoken s = 0 \<longrightarrow> ev_readable ev (wakeupFd t))"
  unfolding t using doPendingFunctors_effect [OF assms(1)] by blast

definition requeue :: "nat \<Rightarrow> nat act list" where
  "requeue f = (if f = 7 then [ActQueue 8, ActQuit] else [])"

lemma doPendingFunctors_spec_witness:
  "executed (doPendingFunctors counter_eventfd requeue posted_state) = [7]
   \<and> pendingFunctors (doPendingFunctors counter_eventfd requeue posted_state) = [8]
   \<and> ev_readable counter_eventfd (wakeupFd (doPendingFunctors counter_eventfd requeue posted_state))"
  using doPendingFunctors_spec [OF counter_eventfd_law refl, of requeue posted_state]
  by (simp add: posted_state_def new_loop_def requeue_def)

text \<open>C18: A round executes all it finds: every functor queued by the time the loop thread is in
  \<open>epoll_wait\<close>, in its handlers or about to call \<open>doPendingFunctors\<close> has been executed, in order,
  when the thread next stands at the test of \<open>quit_\<close> or has left \<open>loop()\<close>, whatever the
  other threads do meanwhile.\<close>

theorem round_executes_posted:
  assumes "reach (loop_init ev) (loop_step ev acts) s"
    and "pc s = AtWait \<or> (\<exists>n wk. pc s = Handling n wk) \<or> (\<exists>fin. pc s = PendStart fin)"
    and "loop_steps ev acts s t" "pc t = AtTest \<or> pc t = Exited"
  shows "\<exists>later. executed t = posted s @ later"
proof -
  have "round_inv (posted s) s"
    using loop_fifo.inv_reach [OF assms(1)] assms(2) by (auto simp: round_inv_def)
  then have t: "round_inv (posted s) t" by (rule round_inv_steps [OF assms(3)])
  with assms(4) have "posted t = executed t @ pendingFunctors t" "length (posted s) \<le> length (executed t)"
    and "take (length (posted s)) (posted t) = posted s"
    by (auto simp: round_inv_def fifo_inv_def)
  then have "posted s = take (length (posted s)) (executed t)" by simp
  then show ?thesis by (metis append_take_drop_id)
qed

lemma posted_state_round:
  "loop_steps counter_eventfd no_acts posted_state
     ((doPendingFunctors counter_eventfd no_acts (posted_state\<lparr>pc := PendStart False\<rparr>))\<lparr>pc := AtTest\<rparr>)"
proof -
  have "loop_step counter_eventfd no_acts posted_state (posted_state\<lparr>pc := PendStart False\<rparr>)"
    by (rule loop_step.wait_interrupted) (simp add: posted_state_def)
  moreover note doPendingFunctors_steps [of "posted_state\<lparr>pc := PendStart False\<rparr>" False counter_eventfd no_acts]
  ultimately show ?thesis by (simp add: loop_steps_def converse_rtranclp_into_rtranclp)
qed

lemma round_executes_posted_witness:
  "\<exists>later. executed ((doPendingFunctors counter_eventfd no_acts (posted_state\<lparr>pc := PendStart False\<rparr>))\<lparr>pc := AtTest\<rparr>)
     = posted posted_state @ later"
  by (rule round_executes_posted [OF posted_state_reach [of no_acts] _ posted_state_round])
    (simp_all add: posted_state_def)

text \<open>The call of \<open>doPendingFunctors\<close> after the loop does not empty the queue: a functor queued by
  one of that last batch is left pending when \<open>loop()\<close> returns.\<close>

theorem exit_leaves_requeued:
  assumes "pc s = PendStart True"
  shows "\<exists>t. loop_steps ev acts s t \<and> pc t = Exited \<and> executed t = executed s @ pendingFunctors s \<and>
    pendingFunctors t = concat (map (queued \<circ> acts) (pendingFunctors s))"
proof -
  have "executed (doPendingFunctors ev acts s) = executed s @ pendingFunctors s"
    and "pendingFunctors (doPendingFunctors ev acts s) = concat (map (queued \<circ> acts) (pendingFunctors s))"
    by (simp_all add: doPendingFunctors_def Let_def run_batch_fields swap_pending_def)
  with doPendingFunctors_steps [OF assms, of ev acts] show ?thesis by (auto intro!: exI)
qed

lemma exit_leaves_requeued_witness:
  "\<exists>t. loop_steps counter_eventfd requeue (posted_state\<lparr>pc := PendStart True\<rparr>) t \<and> pc t = Exited \<and>
     executed t = [7] \<and> pendingFunctors t = [8]"
  using exit_leaves_requeued [of "posted_state\<lparr>pc := PendStart True\<rparr>" counter_eventfd requeue]
  by (simp add: posted_state_def new_loop_def requeue_def)

text \<open>A call of \<open>quit()\<close> that comes before \<open>loop()\<close> is lost: \<open>loop()\<close> resets the flag, consumes the
  wakeup and waits again with nothing to wake it.\<close>

theorem quit_before_loop_is_lost:
  "\<exists>t. loop_steps counter_eventfd acts (quit_loop counter_eventfd (new_loop 0)) t \<and>
     pc t = AtWait \<and> \<not> quit t \<and> \<not> ev_readable counter_eventfd (wakeupFd t) \<and> unwoken t = 0"
proof -
  let ?q = "quit_loop counter_eventfd (new_loop (0::nat))" and ?ev = counter_eventfd
  let ?w = "\<lambda>n p. (new_loop n)\<lparr>pc := p\<rparr>"
  have one: "loop_step ?ev acts ?q (?w 1 AtTest)"
    using loop_step.loop_starts [of ?q ?ev acts]
    by (simp add: quit_loop_def wakeup_def new_loop_def counter_eventfd_def)
  have two: "loop_step ?ev acts (?w 1 AtTest) (?w 1 AtWait)"
    using loop_step.test_goes_on [of "?w 1 AtTest" ?ev acts] by (simp add: new_loop_def)
  have three: "loop_step ?ev acts (?w 1 AtWait) (?w 1 (Handling 1 True))"
    using loop_step.wait_woken [of "?w 1 AtWait" ?ev 1 acts] by (simp add: new_loop_def counter_eventfd_def)
  have four: "loop_step ?ev acts (?w 1 (Handling 1 True)) (?w 0 (Handling 1 False))"
    using loop_step.handler_wakeup [of "?w 1 (Handling 1 True)" 1 ?ev acts]
    by (simp add: new_loop_def counter_eventfd_def handleWakeup_def)
  have five: "loop_step ?ev acts (?w 0 (Handling 1 False)) (?w 0 (PendStart False))"
    using loop_step.handlers_done [of "?w 0 (Handling 1 False)" 1 ?ev acts] by (simp add: new_loop_def)
  have six: "loop_steps ?ev acts (?w 0 (PendStart False)) (?w 0 AtTest)"
    using doPendingFunctors_steps [of "?w 0 (PendStart False)" False ?ev acts]
    by (simp add: doPendingFunctors_def new_loop_def swap_pending_def)
  have seven: "loop_step ?ev acts (?w 0 AtTest) (?w 0 AtWait)"
    using loop_step.test_goes_on [of "?w 0 AtTest" ?ev acts] by (simp add: new_loop_def)
  have "loop_steps ?ev acts ?q (?w 0 AtWait)"
    using one two three four five six seven unfolding loop_steps_def
    by (meson converse_rtranclp_into_rtranclp rtranclp.rtrancl_into_rtrancl)
  then show ?thesis
    by (intro exI [of _ "?w 0 AtWait"]) (simp add: new_loop_def counter_eventfd_def)
qed

end
