(* ===== verification/Loop_Quit.thy ===== *)
theory Loop_Quit
  imports Event_Loop
begin

text \<open>
  Leaving \<open>loop()\<close> (\<open>reactor/EventLoop.cpp\<close>): once \<open>quit_\<close> is set in a running loop, every run of the system that
  keeps scheduling the loop thread and the threads on their way to \<open>wakeup\<close> reaches the end of \<open>loop()\<close>.
\<close>

section \<open>Fair runs\<close>

text \<open>
  A run is an infinite sequence of states, each the last one again or a step away.  The loop thread can
  move everywhere but before \<open>loop()\<close>, after it, and in an \<open>epoll_wait\<close> whose eventfd is not readable
  (other events and signals may end the wait too, but none of them has to come).
\<close>

definition loop_run :: "'e eventfd \<Rightarrow> ('f \<Rightarrow> 'f act list) \<Rightarrow> (nat \<Rightarrow> ('f, 'e) eloop) \<Rightarrow> bool" where
  "loop_run ev acts run \<longleftrightarrow> (\<forall>i. run (Suc i) = run i \<or> loop_step ev acts (run i) (run (Suc i)))"

definition can_move :: "'e eventfd \<Rightarrow> ('f, 'e) eloop \<Rightarrow> bool" where
  "can_move ev s \<longleftrightarrow> pc s \<noteq> NotStarted \<and> pc s \<noteq> Exited \<and> (pc s = AtWait \<longrightarrow> ev_readable ev (wakeupFd s))"

definition moves :: "('f, 'e) eloop \<Rightarrow> ('f, 'e) eloop \<Rightarrow> bool" where
  "moves s t \<longleftrightarrow> pc t \<noteq> pc s \<or> batch t \<noteq> batch s"

definition wakes :: "'e eventfd \<Rightarrow> ('f, 'e) eloop \<Rightarrow> ('f, 'e) eloop \<Rightarrow> bool" where
  "wakes ev s t \<longleftrightarrow> 0 < unwoken s \<and> t = (wakeup ev s)\<lparr>unwoken := unwoken s - 1\<rparr>"

definition thread_fair :: "'e eventfd \<Rightarrow> (nat \<Rightarrow> ('f, 'e) eloop) \<Rightarrow> bool" where
  "thread_fair ev run \<longleftrightarrow> (\<forall>i. (\<forall>j\<ge>i. can_move ev (run j)) \<longrightarrow> (\<exists>j\<ge>i. moves (run j) (run (Suc j))))"

definition waker_fair :: "'e eventfd \<Rightarrow> (nat \<Rightarrow> ('f, 'e) eloop) \<Rightarrow> bool" where
  "waker_fair ev run \<longleftrightarrow> (\<forall>i. (\<forall>j\<ge>i. 0 < unwoken (run j)) \<longrightarrow> (\<exists>j\<ge>i. wakes ev (run j) (run (Suc j))))"

section \<open>The distance to the end\<close>

text \<open>The stages that are still ahead when \<open>quit_\<close> is set, and what is left of the present one.\<close>

fun stages :: "pc \<Rightarrow> nat" where
  "stages NotStarted = 10"
| "stages AtWait = 9"
| "stages (Handling n wk) = 8"
| "stages (PendStart fin) = (if fin then 3 else 7)"
| "stages (PendSwap fin) = (if fin then 2 else 6)"
| "stages (PendRun fin) = (if fin then 1 else 5)"
| "stages AtTest = 4"
| "stages Exited = 0"

definition left_in :: "('f, 'e) eloop \<Rightarrow> nat" where
  "left_in s = (case pc s of Handling n wk \<Rightarrow> of_bool wk | PendRun fin \<Rightarrow> length (batch s) | _ \<Rightarrow> 0)"

definition nearer :: "(('f, 'e) eloop \<times> ('f, 'e) eloop) set" where
  "nearer = inv_image (less_than <*lex*> less_than) (\<lambda>s. (stages (pc s), left_in s))"

lemma wf_nearer: "wf nearer"
  by (simp add: nearer_def wf_inv_image wf_lex_prod)

definition quitting :: "('f, 'e) eloop \<Rightarrow> bool" where
  "quitting s \<longleftrightarrow> quit s \<and> pc s \<noteq> NotStarted"

lemma perform_quit: "quit s \<Longrightarrow> quit (perform ev a s)"
  by (cases a) (simp_all add: queueInLoop_def push_functor_def wakeup_def quit_loop_def Let_def)

lemma performs_quit: "quit s \<Longrightarrow> quit (fold (perform ev) as s)"
  by (induction as arbitrary: s) (simp_all add: perform_quit)

lemma quitting_step:
  "loop_step ev acts s t \<Longrightarrow> quitting s \<Longrightarrow> quitting t \<and> (moves s t \<longrightarrow> (t, s) \<in> nearer)"
  by (induction rule: loop_step.induct)
    (auto simp: quitting_def moves_def nearer_def left_in_def perform_quit performs_quit run_functor_def push_functor_def
      wakeup_def handleWakeup_def swap_pending_def)

text \<open>A readable eventfd stays readable until the loop thread moves.\<close>

lemma readable_step:
  assumes "eventfd_law ev"
  shows "loop_step ev acts s t \<Longrightarrow> ev_readable ev (wakeupFd s) \<Longrightarrow> pc s = AtWait \<Longrightarrow> \<not> moves s t \<Longrightarrow>
    ev_readable ev (wakeupFd t)"
  by (induction rule: loop_step.induct)
    (use assms in \<open>auto simp: moves_def eventfd_law_def push_functor_def wakeup_def\<close>)

section \<open>Every quitting loop is left\<close>

lemma loop_run_reach:
  "loop_run ev acts run \<Longrightarrow> reach (loop_init ev) (loop_step ev acts) (run 0) \<Longrightarrow>
     reach (loop_init ev) (loop_step ev acts) (run i)"
  by (induction i) (auto simp: loop_run_def, metis reach.reach_step)

lemma loop_run_quitting: "loop_run ev acts run \<Longrightarrow> quitting (run i) \<Longrightarrow> quitting (run (i + n))"
  by (induction n) (auto simp: loop_run_def dest: quitting_step, metis quitting_step)

lemma unmoved_place:
  "\<forall>j\<ge>i. j < i + n \<longrightarrow> \<not> moves (run j) (run (Suc j)) \<Longrightarrow> pc (run (i + n)) = pc (run i) \<and> batch (run (i + n)) = batch (run i)"
  by (induction n) (simp_all add: moves_def)

lemma run_stays_readable:
  assumes "eventfd_law ev" "loop_run ev acts run" "ev_readable ev (wakeupFd (run i))"
    and "\<forall>j\<ge>i. pc (run j) = AtWait \<and> \<not> moves (run j) (run (Suc j))"
  shows "ev_readable ev (wakeupFd (run (i + n)))"
proof (induction n)
  case (Suc n)
  with assms show ?case
    using readable_step [OF assms(1), of acts "run (i + n)" "run (Suc (i + n))"]
    by (metis add_Suc_right le_add1 loop_run_def)
qed (use assms in simp)

text \<open>A loop thread that waits with a request to quit up is woken: the descriptor is readable, or a thread
  that stands before its call of \<open>wakeup\<close> makes it so.\<close>

lemma quitting_woken:
  assumes law: "eventfd_law ev" and run: "loop_run ev acts run" "waker_fair ev run"
    and reach: "reach (loop_init ev) (loop_step ev acts) (run 0)"
    and wait: "\<forall>j\<ge>i. pc (run j) = AtWait \<and> quit (run j)"
  shows "\<exists>k\<ge>i. ev_readable ev (wakeupFd (run k))"
proof (cases "\<exists>k\<ge>i. ev_readable ev (wakeupFd (run k))")
  case False
  have "signalled ev (run j)" if "i \<le> j" for j
    using loop_wake.inv_reach [OF loop_run_reach [OF run(1) reach, of j]] law wait that
    by (auto simp: wake_inv_def)
  with False have "\<forall>j\<ge>i. 0 < unwoken (run j)" by (auto simp: signalled_def)
  with run(2) obtain j where "i \<le> j" "wakes ev (run j) (run (Suc j))" by (auto simp: waker_fair_def)
  with law have "ev_readable ev (wakeupFd (run (Suc j)))" "i \<le> Suc j"
    by (auto simp: wakes_def wakeup_def eventfd_law_def)
  then show ?thesis by blast
qed

lemma quitting_moves:
  assumes law: "eventfd_law ev" and run: "loop_run ev acts run" "thread_fair ev run" "waker_fair ev run"
    and reach: "reach (loop_init ev) (loop_step ev acts) (run 0)"
    and here: "quitting (run i)" "pc (run i) \<noteq> Exited"
  shows "\<exists>j\<ge>i. moves (run j) (run (Suc j))"
proof (rule ccontr)
  assume still: "\<not> ?thesis"
  have q: "quitting (run j)" if "i \<le> j" for j
    using loop_run_quitting [OF run(1) here(1), of "j - i"] that by simp
  have p: "pc (run j) = pc (run i)" if "i \<le> j" for j
    using unmoved_place [of i "j - i" run] still that by auto
  have "\<exists>k\<ge>i. \<forall>j\<ge>k. can_move ev (run j)"
  proof (cases "pc (run i) = AtWait")
    case True
    then have wait: "pc (run j) = AtWait \<and> quit (run j)" if "i \<le> j" for j
      using p [OF that] q [OF that] by (simp add: quitting_def)
    then obtain k where k: "i \<le> k" "ev_readable ev (wakeupFd (run k))"
      using quitting_woken [OF law run(1,3) reach, of i] by blast
    have readable: "ev_readable ev (wakeupFd (run (k + n)))" for n
      using wait still k(1) by (intro run_stays_readable [OF law run(1) k(2)]) simp
    have "can_move ev (run j)" if "k \<le> j" for j
      using readable [of "j - k"] p [of j] True k(1) that by (simp add: can_move_def)
    with k(1) show ?thesis by blast
  next
    case False
    then have "can_move ev (run j)" if "i \<le> j" for j
      using p [OF that] q [OF that] here(2) by (simp add: can_move_def quitting_def)
    then show ?thesis by blast
  qed
  then obtain k where k: "i \<le> k" "\<forall>j\<ge>k. can_move ev (run j)" by blast
  with run(2) obtain j where "k \<le> j" "moves (run j) (run (Suc j))" by (auto simp: thread_fair_def)
  with k(1) still show False using le_trans by blast
qed

text \<open>The next move leads nearer to the end.\<close>

lemma quitting_nearer:
  assumes "eventfd_law ev" "loop_run ev acts run" "thread_fair ev run" "waker_fair ev run"
    and "reach (loop_init ev) (loop_step ev acts) (run 0)" "quitting (run i)" "pc (run i) \<noteq> Exited"
  obtains j where "i \<le> j" "(run j, run i) \<in> nearer"
proof -
  define j where "j = (LEAST j. i \<le> j \<and> moves (run j) (run (Suc j)))"
  have j: "i \<le> j" "moves (run j) (run (Suc j))"
    using LeastI_ex [OF quitting_moves [OF assms, unfolded Bex_def]] by (auto simp: j_def)
  have "\<not> moves (run k) (run (Suc k))" if "i \<le> k" "k < j" for k
    using not_less_Least that by (auto simp: j_def)
  with j(1) have same: "pc (run j) = pc (run i)" "batch (run j) = batch (run i)"
    using unmoved_place [of i "j - i" run] by auto
  have "quitting (run j)" using loop_run_quitting [OF assms(2,6), of "j - i"] j(1) by simp
  moreover have "loop_step ev acts (run j) (run (Suc j))"
    using assms(2) j(2) by (metis loop_run_def moves_def)
  ultimately have "(run (Suc j), run j) \<in> nearer" using quitting_step j(2) by blast
  moreover have "left_in (run j) = left_in (run i)" by (simp add: left_in_def same split: pc.split)
  ultimately have "(run (Suc j), run i) \<in> nearer" by (simp add: nearer_def same)
  with j(1) show ?thesis by (intro that [of "Suc j"]) simp_all
qed

text \<open>C11: A loop that runs and is told to quit is left.  Take any run of the loop thread and the other threads
  from a reachable state that keeps scheduling the loop thread whenever it can move, and every thread
  that has yet to make its call of \<open>wakeup\<close>.  Once \<open>quit_\<close> is set while \<open>loop()\<close> runs, the run
  reaches the return of \<open>loop()\<close>, wherever the thread stood, also asleep in \<open>epoll_wait\<close>, and
  whatever the handlers and functors of the last rounds queue.\<close>

theorem quit_leaves_loop:
  assumes "eventfd_law ev" "loop_run ev acts run" "thread_fair ev run" "waker_fair ev run"
    and "reach (loop_init ev) (loop_step ev acts) (run 0)" "quitting (run i)"
  shows "\<exists>j\<ge>i. pc (run j) = Exited"
  using assms(6)
proof (induction "run i" arbitrary: i rule: wf_induct_rule [OF wf_nearer])
  case (1 i)
  show ?case
  proof (cases "pc (run i) = Exited")
    case False
    then obtain j where j: "i \<le> j" "(run j, run i) \<in> nearer"
      using quitting_nearer [OF assms(1-5) 1(2)] by blast
    have "quitting (run j)" using loop_run_quitting [OF assms(2) 1(2), of "j - i"] j(1) by simp
    with 1(1) [OF j(2)] j(1) show ?thesis by (meson le_trans)
  qed auto
qed

text \<open>A run for the witness: the thread sleeps, another thread has set \<open>quit_\<close> and has yet to call \<open>wakeup\<close>.\<close>

definition quit_run :: "nat \<Rightarrow> (nat, nat) eloop" where
  "quit_run i = (case [(AtWait, 0, 1), (AtWait, 1, 0), (Handling 1 True, 1, 0), (Handling 1 False, 0, 0),
      (PendStart False, 0, 0), (PendSwap False, 0, 0), (PendRun False, 0, 0), (AtTest, 0, 0), (PendStart True, 0, 0),
      (PendSwap True, 0, 0), (PendRun True, 0, 0), (Exited, 0, 0)] ! min i 11 of
    (p, n, u) \<Rightarrow> (new_loop n)\<lparr>quit := True, pc := p, unwoken := u,
      callingPendingFunctors := p \<in> {PendSwap False, PendRun False, PendSwap True, PendRun True}\<rparr>)"

lemma quit_run_reach: "reach (loop_init counter_eventfd) (loop_step counter_eventfd no_acts) (quit_run 0)"
proof -
  let ?R = "reach (loop_init counter_eventfd) (loop_step counter_eventfd no_acts)"
  have "?R (new_loop (0::nat))" by (rule reach.reach_init) (auto simp: loop_init_def)
  then have "?R ((new_loop 0)\<lparr>quit := False, pc := AtTest\<rparr>)"
    by (rule reach.reach_step) (rule loop_step.loop_starts, simp add: new_loop_def)
  then have "?R ((new_loop 0)\<lparr>pc := AtTest\<rparr>)" by (simp add: new_loop_def)
  then have "?R ((new_loop 0)\<lparr>pc := AtTest, pc := AtWait\<rparr>)"
    by (rule reach.reach_step) (rule loop_step.test_goes_on, simp_all add: new_loop_def)
  from reach.reach_step [OF this loop_step.remote_quits] show ?thesis
    by (simp add: quit_run_def new_loop_def)
qed

lemma quit_run_steps:
  assumes "i < 11"
  shows "loop_step counter_eventfd no_acts (quit_run i) (quit_run (Suc i))"
proof -
  let ?step = "\<lambda>i. loop_step counter_eventfd no_acts (quit_run i) (quit_run (Suc i))"
  note at = quit_run_def new_loop_def counter_eventfd_def
  have "?step 0"
    using loop_step.remote_wakes [where ev = counter_eventfd and acts = no_acts
        and s = "quit_run 0" and n = 0] by (simp add: at wakeup_def)
  moreover have "?step 1"
    using loop_step.wait_woken [where ev = counter_eventfd and acts = no_acts
        and s = "quit_run 1" and n = 1] by (simp add: at)
  moreover have "?step 2"
    using loop_step.handler_wakeup [where ev = counter_eventfd and acts = no_acts
        and s = "quit_run 2" and n = 1] by (simp add: at handleWakeup_def)
  moreover have "?step 3"
    using loop_step.handlers_done [where ev = counter_eventfd and acts = no_acts
        and s = "quit_run 3" and n = 1] by (simp add: at)
  moreover have "?step 4"
    using loop_step.pend_marks [where ev = counter_eventfd and acts = no_acts
        and s = "quit_run 4" and fin = False] by (simp add: at)
  moreover have "?step 5"
    using loop_step.pend_swaps [where ev = counter_eventfd and acts = no_acts
        and s = "quit_run 5" and fin = False] by (simp add: at swap_pending_def)
  moreover have "?step 6"
    using loop_step.pend_ends [where ev = counter_eventfd and acts = no_acts
        and s = "quit_run 6" and fin = False] by (simp add: at)
  moreover have "?step 7"
    using loop_step.test_stops [where ev = counter_eventfd and acts = no_acts
        and s = "quit_run 7"] by (simp add: at)
  moreover have "?step 8"
    using loop_step.pend_marks [where ev = counter_eventfd and acts = no_acts
        and s = "quit_run 8" and fin = True] by (simp add: at)
  moreover have "?step 9"
    using loop_step.pend_swaps [where ev = counter_eventfd and acts = no_acts
        and s = "quit_run 9" and fin = True] by (simp add: at swap_pending_def)
  moreover have "?step 10"
    using loop_step.pend_ends [where ev = counter_eventfd and acts = no_acts
        and s = "quit_run 10" and fin = True] by (simp add: at)
  ultimately show ?thesis using assms by (auto simp: less_Suc_eq numeral_eq_Suc)
qed

lemma quit_run_run: "loop_run counter_eventfd no_acts quit_run"
  unfolding loop_run_def
proof
  fix i
  show "quit_run (Suc i) = quit_run i \<or> loop_step counter_eventfd no_acts (quit_run i) (quit_run (Suc i))"
    by (cases "i < 11") (simp_all add: quit_run_steps, simp add: quit_run_def)
qed

lemma quit_run_fair: "thread_fair counter_eventfd quit_run" "waker_fair counter_eventfd quit_run"
proof -
  have "moves (quit_run 10) (quit_run 11)" "pc (quit_run (11 + i)) = Exited" "unwoken (quit_run (Suc i)) = 0" for i
    by (simp_all add: moves_def quit_run_def new_loop_def min_def nth_Cons' split: prod.splits)
  note at = this
  show "thread_fair counter_eventfd quit_run"
    unfolding thread_fair_def
  proof (intro allI impI)
    fix i assume "\<forall>j\<ge>i. can_move counter_eventfd (quit_run j)"
    then have "can_move counter_eventfd (quit_run i)" by simp
    then have "i \<le> 10" using at(2) [of "i - 11"] by (cases "11 \<le> i") (simp_all add: can_move_def)
    then show "\<exists>j\<ge>i. moves (quit_run j) (quit_run (Suc j))" using at(1) by (intro exI [of _ 10]) simp
  qed
  show "waker_fair counter_eventfd quit_run"
    unfolding waker_fair_def using at(3) by (metis le_SucI less_irrefl order_refl)
qed

lemma quit_leaves_loop_witness:
  "pc (quit_run 0) = AtWait \<and> \<not> ev_readable counter_eventfd (wakeupFd (quit_run 0)) \<and> (\<exists>j\<ge>0. pc (quit_run j) = Exited)"
  using quit_leaves_loop [OF counter_eventfd_law quit_run_run quit_run_fair quit_run_reach, of 0]
  by (simp add: quit_run_def quitting_def new_loop_def counter_eventfd_def)

end
