(* ===== verification/Tcp_Connection.thy ===== *)
theory Tcp_Connection
  imports Net_Buffer Poller
begin

text \<open>
  One TCP connection (\<open>reactor/TcpConnection.h\<close>, \<open>reactor/TcpConnection.cpp\<close>) with its channel,
  its two buffers and its state machine.  The operations act on a world that holds the
  connection object, the registry of its loop, the bytes its \<open>write\<close> calls handed to the
  kernel, the functors it posted to its loop and the calls it made to the outside.

  Every callback (\<open>messageCallback_\<close>, \<open>closeCallback_\<close>, \<open>writeCompleteCallback_\<close>) is the last thing
  the operation that makes it does with the object, so an operation records the call as a note
  and what the callback does to the connection is the next operations of the run.
\<close>

section \<open>State\<close>

datatype conn_state = kConnected | kDisconnecting | kDisconnected

fun conn_state_rank :: "conn_state \<Rightarrow> nat" where
  "conn_state_rank kConnected = 0"
| "conn_state_rank kDisconnecting = 1"
| "conn_state_rank kDisconnected = 2"

instantiation conn_state :: linorder
begin

definition less_eq_conn_state :: "conn_state \<Rightarrow> conn_state \<Rightarrow> bool" where
  "less_eq_conn_state s t \<longleftrightarrow> conn_state_rank s \<le> conn_state_rank t"

definition less_conn_state :: "conn_state \<Rightarrow> conn_state \<Rightarrow> bool" where
  "less_conn_state s t \<longleftrightarrow> conn_state_rank s < conn_state_rank t"

instance
proof
  fix s t :: conn_state
  show "s \<le> t \<Longrightarrow> t \<le> s \<Longrightarrow> s = t"
    by (cases s; cases t) (simp_all add: less_eq_conn_state_def)
qed (auto simp: less_eq_conn_state_def less_conn_state_def)

end

text \<open>The four callbacks of the connection's channel, all set by the constructor.\<close>

datatype conn_cb = ConnRead | ConnWrite | ConnClose | ConnError

text \<open>
  Functors that capture \<open>shared_from_this()\<close>.  \<open>name\<close> is the number in the name \<open>conn-<n>\<close>.  The three flags say whether the callback members
  are set; \<open>self\<close> is the address of the channel object.
\<close>

datatype conn_task = SendTask "byte list" | ShutdownTask | ForceCloseTask | CloseNowTask

record tcp =
  self :: chan
  connfd :: fd
  name :: nat
  state :: conn_state
  last_active :: int
  channel :: "conn_cb channel"
  input_buffer :: buffer
  output_buffer :: buffer
  has_message :: bool
  has_close :: bool
  has_complete :: bool

datatype conn_note = MessageCalled | CloseCalled | CompleteCalled | ErrorLogged | ShutWr

record 'k conn_world =
  conn :: tcp
  registry :: "'k poller"
  wire :: "byte list"
  tasks :: "conn_task list"
  trace :: "conn_note list"

section \<open>Operations\<close>

definition note_that :: "conn_note \<Rightarrow> 'k conn_world \<Rightarrow> 'k conn_world" where
  "note_that x w = w\<lparr>trace := trace w @ [x]\<rparr>"

definition queue_task :: "conn_task \<Rightarrow> 'k conn_world \<Rightarrow> 'k conn_world" where
  "queue_task x w = w\<lparr>tasks := tasks w @ [x]\<rparr>"

text \<open>An operation of the channel, applied to the connection's channel and its loop's registry.\<close>

definition on_channel ::
  "(chan \<Rightarrow> conn_cb channel \<Rightarrow> 'k poller \<Rightarrow> conn_cb channel \<times> 'k poller) \<Rightarrow> 'k conn_world \<Rightarrow> 'k conn_world" where
  "on_channel f w = (let (ch, lp) = f (self (conn w)) (channel (conn w)) (registry w)
     in w\<lparr>conn := (conn w)\<lparr>channel := ch\<rparr>, registry := lp\<rparr>)"

definition new_conn :: "'k epoll_ctl \<Rightarrow> chan \<Rightarrow> fd \<Rightarrow> nat \<Rightarrow> int \<Rightarrow> 'k poller \<Rightarrow> 'k conn_world" where
  "new_conn ctl p fd count now lp =
     on_channel (enableReading ctl) \<lparr>conn = \<lparr>self = p, connfd = fd, name = Suc count, state = kConnected,
       last_active = now,
       channel = (new_channel fd)\<lparr>readCallback := Some ConnRead, writeCallback := Some ConnWrite,
         closeCallback := Some ConnClose, errorCallback := Some ConnError\<rparr>,
       input_buffer = new_buffer 1024, output_buffer = new_buffer 1024,
       has_message = False, has_close = False, has_complete = False\<rparr>,
       registry = lp, wire = [], tasks = [], trace = []\<rparr>"

definition write_complete :: "'k conn_world \<Rightarrow> 'k conn_world" where
  "write_complete w = (if has_complete (conn w) then note_that CompleteCalled w else w)"

text \<open>
  The first half of \<open>sendInLoop\<close>: \<open>None\<close> is the early return after a fatal error, otherwise the
  value of \<open>nwritten\<close>.  \<open>ans\<close> is the answer of \<open>::write(connfd_, data, len)\<close>.
\<close>

definition try_write :: "io_answer \<Rightarrow> byte list \<Rightarrow> 'k conn_world \<Rightarrow> (nat \<times> 'k conn_world) option" where
  "try_write ans data w =
     (if readableBytes (output_buffer (conn w)) = 0
      then (case ans of
          Done n \<Rightarrow> Some (n, w\<lparr>wire := wire w @ take n data\<rparr>)
        | Fail e \<Rightarrow> if e = EAGAIN \<or> e = EWOULDBLOCK then Some (0, w) else None)
      else Some (0, w))"

definition sendInLoop :: "'k epoll_ctl \<Rightarrow> io_answer \<Rightarrow> byte list \<Rightarrow> 'k conn_world \<Rightarrow> 'k conn_world res" where
  "sendInLoop ctl ans data w =
     (if state (conn w) = kDisconnected then Inr w
      else case try_write ans data w of
        None \<Rightarrow> Inr (note_that ErrorLogged w)
      | Some (nwritten, w) \<Rightarrow>
          (let remaining = size_sub (length data) nwritten in
           if remaining > 0
           then bind_res (load data nwritten remaining) (\<lambda>rest.
                bind_res (append_buf rest (output_buffer (conn w))) (\<lambda>b.
                Inr (on_channel (enableWriting ctl) (w\<lparr>conn := (conn w)\<lparr>output_buffer := b\<rparr>\<rparr>))))
           else Inr (write_complete w)))"

definition send :: "'k epoll_ctl \<Rightarrow> bool \<Rightarrow> io_answer \<Rightarrow> byte list \<Rightarrow> 'k conn_world \<Rightarrow> 'k conn_world res" where
  "send ctl inLoopThread ans data w =
     (if inLoopThread then sendInLoop ctl ans data w else Inr (queue_task (SendTask data) w))"

definition shutdownInLoop :: "io_answer \<Rightarrow> 'k conn_world \<Rightarrow> 'k conn_world" where
  "shutdownInLoop ans w = (case ans of Done n \<Rightarrow> note_that ShutWr w | Fail e \<Rightarrow> note_that ErrorLogged w)"

definition shutdown :: "bool \<Rightarrow> io_answer \<Rightarrow> 'k conn_world \<Rightarrow> 'k conn_world" where
  "shutdown inLoopThread ans w =
     (if inLoopThread then shutdownInLoop ans w else queue_task ShutdownTask w)"

definition handleClose :: "'k epoll_ctl \<Rightarrow> 'k conn_world \<Rightarrow> 'k conn_world" where
  "handleClose ctl w =
     (if state (conn w) = kDisconnected then w
      else let w = on_channel (disableAll ctl) (w\<lparr>conn := (conn w)\<lparr>state := kDisconnected\<rparr>\<rparr>)
           in if has_close (conn w) then note_that CloseCalled w else w)"

definition forceCloseInLoop :: "'k epoll_ctl \<Rightarrow> 'k conn_world \<Rightarrow> 'k conn_world" where
  "forceCloseInLoop ctl w =
     (if state (conn w) = kConnected
      then queue_task ForceCloseTask (w\<lparr>conn := (conn w)\<lparr>state := kDisconnecting\<rparr>\<rparr>)
      else if state (conn w) = kDisconnecting then handleClose ctl w
      else w)"

definition forceClose :: "'k epoll_ctl \<Rightarrow> bool \<Rightarrow> 'k conn_world \<Rightarrow> 'k conn_world" where
  "forceClose ctl inLoopThread w =
     (if inLoopThread then forceCloseInLoop ctl w else queue_task ForceCloseTask w)"

definition closeNow :: "'k epoll_ctl \<Rightarrow> bool \<Rightarrow> 'k conn_world \<Rightarrow> 'k conn_world" where
  "closeNow ctl inLoopThread w =
     (if inLoopThread
      then if state (conn w) \<noteq> kDisconnected then handleClose ctl w else w
      else queue_task CloseNowTask w)"

definition handleError :: "'k conn_world \<Rightarrow> 'k conn_world" where
  "handleError w = note_that ErrorLogged w"

definition handleRead :: "'k epoll_ctl \<Rightarrow> read_answer \<Rightarrow> int \<Rightarrow> 'k conn_world \<Rightarrow> 'k conn_world res" where
  "handleRead ctl ans now w =
     bind_res (readFd ans (input_buffer (conn w))) (\<lambda>(n, b).
       let w = w\<lparr>conn := (conn w)\<lparr>input_buffer := b\<rparr>\<rparr> in
       if n > 0
       then let w = w\<lparr>conn := (conn w)\<lparr>last_active := now\<rparr>\<rparr>
            in Inr (if has_message (conn w) then note_that MessageCalled w else w)
       else if n = 0 then Inr (handleClose ctl w)
       else Inr (handleError w))"

definition handleWrite :: "'k epoll_ctl \<Rightarrow> io_answer \<Rightarrow> 'k conn_world \<Rightarrow> 'k conn_world res" where
  "handleWrite ctl ans w =
     (if state (conn w) = kDisconnected then Inr w
      else let b = output_buffer (conn w) in
        bind_res (load (buf b) (peek b) (readableBytes b)) (\<lambda>data.
        case ans of
          Done (Suc n) \<Rightarrow>
            (let b = retrieve (Suc n) b;
                 w = w\<lparr>wire := wire w @ take (Suc n) data, conn := (conn w)\<lparr>output_buffer := b\<rparr>\<rparr>
             in Inr (if readableBytes b = 0 then write_complete (on_channel (disableWriting ctl) w) else w))
        | _ \<Rightarrow> Inr (note_that ErrorLogged w)))"

definition isIdle :: "int \<Rightarrow> int \<Rightarrow> tcp \<Rightarrow> bool" where
  "isIdle timeout now c \<longleftrightarrow> now - last_active c > timeout"

text \<open>The destructor closes the descriptor, then the channel member is destroyed.\<close>

definition destroy_conn :: "'k epoll_ctl \<Rightarrow> 'k conn_world \<Rightarrow> 'k poller" where
  "destroy_conn ctl w = destroy_channel ctl (self (conn w)) (channel (conn w)) (registry w)"

text \<open>A posted functor, run by \<open>doPendingFunctors\<close> of the loop; \<open>ans\<close> answers its system call.\<close>

fun run_task :: "'k epoll_ctl \<Rightarrow> io_answer \<Rightarrow> conn_task \<Rightarrow> 'k conn_world \<Rightarrow> 'k conn_world res" where
  "run_task ctl ans (SendTask msg) w = sendInLoop ctl ans msg w"
| "run_task ctl ans ShutdownTask w = Inr (shutdownInLoop ans w)"
| "run_task ctl ans ForceCloseTask w = Inr (forceCloseInLoop ctl w)"
| "run_task ctl ans CloseNowTask w =
     Inr (if state (conn w) \<noteq> kDisconnected then handleClose ctl w else w)"

section \<open>Well-formed connections\<close>

text \<open>
  The buffers are well formed; the channel asks for input, and for output exactly while data
  is pending; after the close it asks for nothing and is out of the registry; a connection that
  was asked to close still has the functor that will close it; and \<open>closeCallback_\<close> was called
  once if the connection is closed and never otherwise.
\<close>

definition interest_of :: "tcp \<Rightarrow> uint32" where
  "interest_of c = (if state c = kDisconnected then 0
     else if contents (output_buffer c) = [] then EPOLLIN else EPOLLIN OR EPOLLOUT)"

definition conn_reg :: "('k \<Rightarrow> interest) \<Rightarrow> 'k conn_world \<Rightarrow> bool" where
  "conn_reg tbl w \<longleftrightarrow> mirrors tbl (registry w) \<and> ch_fd (channel (conn w)) = connfd (conn w) \<and>
     channels (registry w) (connfd (conn w)) =
       (if state (conn w) = kDisconnected then None else Some (self (conn w)))"

definition close_calls :: "'k conn_world \<Rightarrow> nat" where
  "close_calls w = length (filter (\<lambda>x. x = CloseCalled) (trace w))"

definition conn_wf :: "('k \<Rightarrow> interest) \<Rightarrow> 'k conn_world \<Rightarrow> bool" where
  "conn_wf tbl w \<longleftrightarrow> buf_inv (input_buffer (conn w)) \<and> buf_inv (output_buffer (conn w)) \<and>
     events (channel (conn w)) = interest_of (conn w) \<and> conn_reg tbl w \<and>
     (state (conn w) = kDisconnecting \<longrightarrow> ForceCloseTask \<in> set (tasks w)) \<and>
     close_calls w = (if state (conn w) = kDisconnected \<and> has_close (conn w) then 1 else 0)"

lemma mask_bits [simp]:
  "EPOLLIN \<noteq> 0" "x OR EPOLLOUT \<noteq> 0" "(EPOLLIN OR EPOLLOUT) OR EPOLLOUT = EPOLLIN OR EPOLLOUT"
  "(EPOLLIN OR EPOLLOUT) AND NOT EPOLLOUT = EPOLLIN" "EPOLLIN AND NOT EPOLLOUT = EPOLLIN"
  by (simp_all add: epoll_masks or_eq_0_iff)

lemma note_that_sel [simp]:
  "conn (note_that x w) = conn w" "registry (note_that x w) = registry w"
  "wire (note_that x w) = wire w" "tasks (note_that x w) = tasks w"
  "trace (note_that x w) = trace w @ [x]"
  by (simp_all add: note_that_def)

lemma queue_task_sel [simp]:
  "conn (queue_task x w) = conn w" "registry (queue_task x w) = registry w"
  "wire (queue_task x w) = wire w" "tasks (queue_task x w) = tasks w @ [x]"
  "trace (queue_task x w) = trace w"
  by (simp_all add: queue_task_def)

lemma on_channel_sel [simp]:
  "wire (on_channel f w) = wire w" "tasks (on_channel f w) = tasks w" "trace (on_channel f w) = trace w"
  "conn (on_channel f w) =
     (conn w)\<lparr>channel := fst (f (self (conn w)) (channel (conn w)) (registry w))\<rparr>"
  "registry (on_channel f w) = snd (f (self (conn w)) (channel (conn w)) (registry w))"
  by (simp_all add: on_channel_def case_prod_beta)

lemma channel_op_fst [simp]:
  "fst (enableWriting ctl p ch lp) = ch\<lparr>events := events ch OR EPOLLOUT\<rparr>"
  "fst (enableReading ctl p ch lp) = ch\<lparr>events := events ch OR EPOLLIN\<rparr>"
  "fst (disableWriting ctl p ch lp) = ch\<lparr>events := events ch AND NOT EPOLLOUT\<rparr>"
  "fst (disableAll ctl p ch lp) = ch\<lparr>events := 0\<rparr>"
  by (simp_all add: channel_op_defs)

lemma note_reg [simp]: "conn_reg tbl (note_that x w) = conn_reg tbl w"
  by (simp add: conn_reg_def)

lemma queue_reg [simp]: "conn_reg tbl (queue_task x w) = conn_reg tbl w"
  by (simp add: conn_reg_def)

lemma write_complete_sel [simp]:
  "conn (write_complete w) = conn w" "registry (write_complete w) = registry w"
  "wire (write_complete w) = wire w" "tasks (write_complete w) = tasks w"
  "close_calls (write_complete w) = close_calls w" "conn_reg tbl (write_complete w) = conn_reg tbl w"
  "filter (\<lambda>x. x = CloseCalled) (trace (write_complete w)) = filter (\<lambda>x. x = CloseCalled) (trace w)"
  by (simp_all add: write_complete_def close_calls_def)

text \<open>The three channel operations on a registered channel.\<close>

lemma modify_reg:
  assumes "epoll_law ctl tbl" "conn_reg tbl w" "state (conn w) \<noteq> kDisconnected" "ev \<noteq> 0"
  shows "conn_reg tbl (w\<lparr>conn := (conn w)\<lparr>channel := (channel (conn w))\<lparr>events := ev\<rparr>\<rparr>,
    registry := updateChannel ctl (self (conn w)) ((channel (conn w))\<lparr>events := ev\<rparr>) (registry w)\<rparr>)"
  using assms updateChannel_mirrors [OF assms(1), of "registry w" "self (conn w)" "(channel (conn w))\<lparr>events := ev\<rparr>"]
  by (simp add: conn_reg_def owns_fd_def updateChannel_mod)

lemma enableWriting_reg:
  assumes "epoll_law ctl tbl" "conn_reg tbl w" "state (conn w) \<noteq> kDisconnected"
  shows "conn_reg tbl (on_channel (enableWriting ctl) w)"
  using modify_reg [OF assms, of "events (channel (conn w)) OR EPOLLOUT"]
  by (simp add: on_channel_def channel_op_defs)

lemma disableWriting_reg:
  assumes "epoll_law ctl tbl" "conn_reg tbl w" "state (conn w) \<noteq> kDisconnected"
    and "events (channel (conn w)) AND NOT EPOLLOUT \<noteq> 0"
  shows "conn_reg tbl (on_channel (disableWriting ctl) w)"
  using modify_reg [OF assms] by (simp add: on_channel_def channel_op_defs)

lemma disableAll_reg:
  assumes "epoll_law ctl tbl" "conn_reg tbl w" "state (conn w) \<noteq> kDisconnected"
  shows "conn_reg tbl (on_channel (disableAll ctl) (w\<lparr>conn := (conn w)\<lparr>state := kDisconnected\<rparr>\<rparr>))"
  using assms updateChannel_mirrors [OF assms(1), of "registry w" "self (conn w)" "(channel (conn w))\<lparr>events := 0\<rparr>"]
  by (simp add: conn_reg_def owns_fd_def on_channel_def channel_op_defs updateChannel_del)

section \<open>Abstract connection\<close>

text \<open>
  What a connection is to its users: a state, the bytes given to the kernel, the bytes that
  wait to be, the bytes received and not yet taken, and the functors on their way.
\<close>

record conn_spec =
  a_state :: conn_state
  a_wire :: "byte list"
  a_pending :: "byte list"
  a_input :: "byte list"
  a_tasks :: "conn_task list"

definition conn_abs :: "'k conn_world \<Rightarrow> conn_spec" where
  "conn_abs w = \<lparr>a_state = state (conn w), a_wire = wire w, a_pending = contents (output_buffer (conn w)),
     a_input = contents (input_buffer (conn w)), a_tasks = tasks w\<rparr>"

lemma conn_abs_sel [simp]:
  "a_state (conn_abs w) = state (conn w)" "a_wire (conn_abs w) = wire w"
  "a_pending (conn_abs w) = contents (output_buffer (conn w))"
  "a_input (conn_abs w) = contents (input_buffer (conn w))" "a_tasks (conn_abs w) = tasks w"
  by (simp_all add: conn_abs_def)

definition write_law :: "io_answer \<Rightarrow> byte list \<Rightarrow> bool" where
  "write_law ans data = (case ans of Done n \<Rightarrow> n \<le> length data | Fail e \<Rightarrow> True)"

fun fatal :: "io_answer \<Rightarrow> bool" where
  "fatal (Done n) = False"
| "fatal (Fail e) = (e \<noteq> EAGAIN \<and> e \<noteq> EWOULDBLOCK)"

fun written :: "io_answer \<Rightarrow> nat" where
  "written (Done n) = n"
| "written (Fail e) = 0"

definition spec_accepts :: "io_answer \<Rightarrow> conn_spec \<Rightarrow> bool" where
  "spec_accepts ans a \<longleftrightarrow> a_state a \<noteq> kDisconnected \<and> (a_pending a = [] \<longrightarrow> \<not> fatal ans)"

definition spec_send :: "io_answer \<Rightarrow> byte list \<Rightarrow> conn_spec \<Rightarrow> conn_spec" where
  "spec_send ans data a =
     (if \<not> spec_accepts ans a then a
      else if a_pending a = []
      then a\<lparr>a_wire := a_wire a @ take (written ans) data, a_pending := drop (written ans) data\<rparr>
      else a\<lparr>a_pending := a_pending a @ data\<rparr>)"

definition spec_write :: "io_answer \<Rightarrow> conn_spec \<Rightarrow> conn_spec" where
  "spec_write ans a = (if a_state a = kDisconnected then a
     else a\<lparr>a_wire := a_wire a @ take (written ans) (a_pending a),
            a_pending := drop (written ans) (a_pending a)\<rparr>)"

definition spec_close :: "conn_spec \<Rightarrow> conn_spec" where
  "spec_close a = a\<lparr>a_state := kDisconnected\<rparr>"

definition spec_force :: "conn_spec \<Rightarrow> conn_spec" where
  "spec_force a = (if a_state a = kConnected
     then a\<lparr>a_state := kDisconnecting, a_tasks := a_tasks a @ [ForceCloseTask]\<rparr> else spec_close a)"

definition spec_read :: "read_answer \<Rightarrow> conn_spec \<Rightarrow> conn_spec" where
  "spec_read ans a = (case ans of ReadFail e \<Rightarrow> a
     | Delivered [] \<Rightarrow> spec_close a
     | Delivered data \<Rightarrow> a\<lparr>a_input := a_input a @ data\<rparr>)"

lemma sendInLoop_ok:
  assumes law: "epoll_law ctl tbl" and wf: "conn_wf tbl w" and ans: "write_law ans data"
  shows "\<exists>w'. sendInLoop ctl ans data w = Inr w' \<and> conn_wf tbl w' \<and>
    conn_abs w' = spec_send ans data (conn_abs w)"
proof (cases "state (conn w) = kDisconnected")
  case True
  then show ?thesis using wf by (simp add: sendInLoop_def spec_send_def spec_accepts_def conn_abs_def)
next
  case open_conn: False
  let ?b = "output_buffer (conn w)"
  have inv: "buf_inv ?b" using wf by (simp add: conn_wf_def)
  define n where "n = (if contents ?b = [] then written ans else 0)"
  define w1 where "w1 = w\<lparr>wire := wire w @ take n data\<rparr>"
  show ?thesis
  proof (cases "contents ?b = [] \<and> fatal ans")
    case True
    then have "try_write ans data w = None"
      using inv by (cases ans) (simp_all add: try_write_def buffer_simps)
    with True open_conn wf show ?thesis
      by (auto simp: sendInLoop_def spec_send_def spec_accepts_def conn_abs_def conn_wf_def close_calls_def)
  next
    case False
    then have att: "try_write ans data w = Some (n, w1)"
      using inv by (cases ans) (auto simp: try_write_def buffer_simps n_def w1_def)
    have le: "n \<le> length data" using ans by (cases ans) (simp_all add: n_def write_law_def)
    obtain b where b: "append_buf (drop n data) ?b = Inr b" "buf_inv b" "contents b = contents ?b @ drop n data"
      using append_fifo [OF inv] by metis
    have spec: "spec_send ans data (conn_abs w) =
        (conn_abs w)\<lparr>a_wire := wire w @ take n data, a_pending := contents ?b @ drop n data\<rparr>"
      using False open_conn by (auto simp: spec_send_def spec_accepts_def conn_abs_def n_def)
    show ?thesis
    proof (cases "n = length data")
      case True
      then have "sendInLoop ctl ans data w = Inr (write_complete w1)"
        using open_conn att by (simp add: sendInLoop_def)
      with True wf spec show ?thesis
        by (simp add: conn_wf_def conn_abs_def w1_def conn_reg_def close_calls_def write_complete_def)
    next
      case more: False
      let ?w2 = "w1\<lparr>conn := (conn w1)\<lparr>output_buffer := b\<rparr>\<rparr>"
      have "sendInLoop ctl ans data w = Inr (on_channel (enableWriting ctl) ?w2)"
        using open_conn att le more b
        by (simp add: sendInLoop_def load_def w1_def)
      moreover have "conn_reg tbl (on_channel (enableWriting ctl) ?w2)"
        using wf open_conn by (intro enableWriting_reg [OF law]) (simp_all add: conn_wf_def conn_reg_def w1_def)
      ultimately show ?thesis
        using wf open_conn spec b le more
        by (auto simp: conn_wf_def conn_abs_def w1_def close_calls_def interest_of_def)
    qed
  qed
qed

lemma handleWrite_ok:
  assumes law: "epoll_law ctl tbl" and wf: "conn_wf tbl w"
    and ans: "write_law ans (contents (output_buffer (conn w)))"
  shows "\<exists>w'. handleWrite ctl ans w = Inr w' \<and> conn_wf tbl w' \<and>
    conn_abs w' = spec_write ans (conn_abs w)"
proof (cases "state (conn w) = kDisconnected")
  case True
  then show ?thesis using wf by (simp add: handleWrite_def spec_write_def conn_abs_def)
next
  case open_conn: False
  let ?b = "output_buffer (conn w)"
  have inv: "buf_inv ?b" using wf by (simp add: conn_wf_def)
  have ld: "load (buf ?b) (peek ?b) (readableBytes ?b) = Inr (contents ?b)"
    using load_contents [OF inv] inv by (simp add: buffer_simps)
  consider (idle) "written ans = 0" | (some) m where "ans = Done (Suc m)"
    by (cases ans) (auto, metis written.simps(1) not0_implies_Suc)
  then show ?thesis
  proof cases
    case idle
    then have "handleWrite ctl ans w = Inr (note_that ErrorLogged w)"
      using open_conn ld by (cases ans) (simp_all add: handleWrite_def)
    with idle wf open_conn show ?thesis
      by (simp add: conn_wf_def conn_abs_def spec_write_def close_calls_def)
  next
    case some
    define b where "b = retrieve (Suc m) ?b"
    have b: "buf_inv b" "contents b = drop (Suc m) (contents ?b)"
      unfolding b_def using retrieve_fifo [OF inv] by auto
    let ?w = "w\<lparr>wire := wire w @ take (Suc m) (contents ?b), conn := (conn w)\<lparr>output_buffer := b\<rparr>\<rparr>"
    have some_out: "contents ?b \<noteq> []" using ans some by (auto simp: write_law_def)
    have ev: "events (channel (conn w)) = EPOLLIN OR EPOLLOUT"
      using wf open_conn some_out by (simp add: conn_wf_def interest_of_def)
    have in_left: "events (channel (conn ?w)) AND NOT EPOLLOUT \<noteq> 0" by (simp add: ev)
    have run: "handleWrite ctl ans w = Inr (if contents b = []
        then write_complete (on_channel (disableWriting ctl) ?w) else ?w)"
      using open_conn ld some b by (simp add: handleWrite_def b_def [symmetric] buffer_simps Let_def)
    have reg: "conn_reg tbl (on_channel (disableWriting ctl) ?w)"
      using wf open_conn
      by (intro disableWriting_reg [OF law _ _ in_left]) (simp_all add: conn_wf_def conn_reg_def)
    show ?thesis unfolding run
      using wf open_conn b ev reg some some_out
      by (auto simp: conn_wf_def conn_abs_def spec_write_def interest_of_def close_calls_def conn_reg_def)
  qed
qed

lemma handleClose_ok:
  assumes law: "epoll_law ctl tbl" and wf: "conn_wf tbl w"
  shows "conn_wf tbl (handleClose ctl w)" "conn_abs (handleClose ctl w) = spec_close (conn_abs w)"
proof -
  let ?w = "on_channel (disableAll ctl) (w\<lparr>conn := (conn w)\<lparr>state := kDisconnected\<rparr>\<rparr>)"
  have reg: "state (conn w) \<noteq> kDisconnected \<Longrightarrow> conn_reg tbl ?w"
    using wf by (intro disableAll_reg [OF law]) (simp_all add: conn_wf_def)
  then show "conn_wf tbl (handleClose ctl w)"
    using wf by (auto simp: handleClose_def Let_def conn_wf_def interest_of_def close_calls_def)
  show "conn_abs (handleClose ctl w) = spec_close (conn_abs w)"
    by (simp add: handleClose_def Let_def conn_abs_def spec_close_def)
qed

lemma forceCloseInLoop_ok:
  assumes law: "epoll_law ctl tbl" and wf: "conn_wf tbl w"
  shows "conn_wf tbl (forceCloseInLoop ctl w)"
    and "conn_abs (forceCloseInLoop ctl w) = spec_force (conn_abs w)"
proof -
  show "conn_wf tbl (forceCloseInLoop ctl w)"
    using wf handleClose_ok(1) [OF law wf]
    by (auto simp: forceCloseInLoop_def conn_wf_def conn_reg_def interest_of_def close_calls_def)
  show "conn_abs (forceCloseInLoop ctl w) = spec_force (conn_abs w)"
    using handleClose_ok(2) [OF law wf]
    by (cases "state (conn w)") (simp_all add: forceCloseInLoop_def spec_force_def spec_close_def conn_abs_def)
qed

lemma handleRead_ok:
  assumes law: "epoll_law ctl tbl" and wf: "conn_wf tbl w"
    and ans: "readv_law ans (input_buffer (conn w))"
  shows "\<exists>w'. handleRead ctl ans now w = Inr w' \<and> conn_wf tbl w' \<and>
    conn_abs w' = spec_read ans (conn_abs w)"
proof (cases ans)
  case (ReadFail e)
  then show ?thesis using wf
    by (simp add: handleRead_def handleError_def spec_read_def conn_wf_def conn_abs_def close_calls_def
        conn_reg_def interest_of_def Let_def)
next
  case (Delivered data)
  have inv: "buf_inv (input_buffer (conn w))" using wf by (simp add: conn_wf_def)
  obtain b where b: "readFd ans (input_buffer (conn w)) = Inr (int (length data), b)" "buf_inv b"
    "contents b = contents (input_buffer (conn w)) @ data"
    using readFd_fifo [OF inv] ans Delivered by metis
  let ?w = "w\<lparr>conn := (conn w)\<lparr>input_buffer := b\<rparr>\<rparr>"
  have wf': "conn_wf tbl ?w"
    using wf b by (simp add: conn_wf_def conn_reg_def interest_of_def close_calls_def)
  show ?thesis
  proof (cases "data = []")
    case True
    then have "handleRead ctl ans now w = Inr (handleClose ctl ?w)"
      using b by (simp add: handleRead_def)
    moreover have "conn_abs ?w = conn_abs w" using b True by (simp add: conn_abs_def)
    ultimately show ?thesis
      using handleClose_ok [OF law wf'] True Delivered by (simp add: spec_read_def)
  next
    case False
    let ?v = "?w\<lparr>conn := (conn ?w)\<lparr>last_active := now\<rparr>\<rparr>"
    have "handleRead ctl ans now w =
        Inr (if has_message (conn w) then note_that MessageCalled ?v else ?v)"
      using b False by (simp add: handleRead_def Let_def)
    then show ?thesis using wf' b False Delivered
      by (cases data) (auto simp: spec_read_def conn_wf_def conn_reg_def interest_of_def close_calls_def conn_abs_def)
  qed
qed

section \<open>Every run of a connection\<close>

text \<open>
  The calls that reach a connection, in any order: \<open>send\<close> and the closing operations from the
  loop thread or another one (the flag), the four events of its channel, a posted functor, and
  the application taking bytes from the input buffer.
\<close>

datatype conn_op = Send bool io_answer "byte list" | Shutdown bool io_answer | ForceClose bool
  | CloseNow bool | Readable read_answer int | Writable io_answer | HungUp | FdError
  | RunTask io_answer | TakeInput nat

fun conn_exec :: "'k epoll_ctl \<Rightarrow> conn_op \<Rightarrow> 'k conn_world \<Rightarrow> 'k conn_world res" where
  "conn_exec ctl (Send inl ans data) w = send ctl inl ans data w"
| "conn_exec ctl (Shutdown inl ans) w = Inr (shutdown inl ans w)"
| "conn_exec ctl (ForceClose inl) w = Inr (forceClose ctl inl w)"
| "conn_exec ctl (CloseNow inl) w = Inr (closeNow ctl inl w)"
| "conn_exec ctl (Readable ans now) w = handleRead ctl ans now w"
| "conn_exec ctl (Writable ans) w = handleWrite ctl ans w"
| "conn_exec ctl HungUp w = Inr (handleClose ctl w)"
| "conn_exec ctl FdError w = Inr (handleError w)"
| "conn_exec ctl (RunTask ans) w =
     (case tasks w of [] \<Rightarrow> Inr w | t # ts \<Rightarrow> run_task ctl ans t (w\<lparr>tasks := ts\<rparr>))"
| "conn_exec ctl (TakeInput n) w =
     Inr (w\<lparr>conn := (conn w)\<lparr>input_buffer := retrieve n (input_buffer (conn w))\<rparr>\<rparr>)"

text \<open>What the kernel may answer.\<close>

fun conn_ok :: "conn_op \<Rightarrow> 'k conn_world \<Rightarrow> bool" where
  "conn_ok (Send inl ans data) w = write_law ans data"
| "conn_ok (Readable ans now) w = readv_law ans (input_buffer (conn w))"
| "conn_ok (Writable ans) w = write_law ans (contents (output_buffer (conn w)))"
| "conn_ok (RunTask ans) w = (case tasks w of SendTask data # ts \<Rightarrow> write_law ans data | _ \<Rightarrow> True)"
| "conn_ok op w = True"

fun spec_task :: "io_answer \<Rightarrow> conn_task \<Rightarrow> conn_spec \<Rightarrow> conn_spec" where
  "spec_task ans (SendTask data) a = spec_send ans data a"
| "spec_task ans ShutdownTask a = a"
| "spec_task ans ForceCloseTask a = spec_force a"
| "spec_task ans CloseNowTask a = spec_close a"

definition spec_queue :: "conn_task \<Rightarrow> conn_spec \<Rightarrow> conn_spec" where
  "spec_queue t a = a\<lparr>a_tasks := a_tasks a @ [t]\<rparr>"

fun conn_step_spec :: "conn_op \<Rightarrow> conn_spec \<Rightarrow> conn_spec" where
  "conn_step_spec (Send inl ans data) a = (if inl then spec_send ans data a else spec_queue (SendTask data) a)"
| "conn_step_spec (Shutdown inl ans) a = (if inl then a else spec_queue ShutdownTask a)"
| "conn_step_spec (ForceClose inl) a = (if inl then spec_force a else spec_queue ForceCloseTask a)"
| "conn_step_spec (CloseNow inl) a = (if inl then spec_close a else spec_queue CloseNowTask a)"
| "conn_step_spec (Readable ans now) a = spec_read ans a"
| "conn_step_spec (Writable ans) a = spec_write ans a"
| "conn_step_spec HungUp a = spec_close a"
| "conn_step_spec FdError a = a"
| "conn_step_spec (RunTask ans) a =
     (case a_tasks a of [] \<Rightarrow> a | t # ts \<Rightarrow> spec_task ans t (a\<lparr>a_tasks := ts\<rparr>))"
| "conn_step_spec (TakeInput n) a = a\<lparr>a_input := drop n (a_input a)\<rparr>"

lemma queue_task_ok:
  "conn_wf tbl w \<Longrightarrow> conn_wf tbl (queue_task t w)"
  "conn_abs (queue_task t w) = spec_queue t (conn_abs w)"
  by (simp_all add: conn_wf_def conn_abs_def spec_queue_def close_calls_def)

lemma shutdownInLoop_ok:
  "conn_wf tbl w \<Longrightarrow> conn_wf tbl (shutdownInLoop ans w)"
  "conn_abs (shutdownInLoop ans w) = conn_abs w"
  by (cases ans; simp add: shutdownInLoop_def conn_wf_def conn_abs_def close_calls_def)+

lemma handleClose_idle: "state (conn w) = kDisconnected \<Longrightarrow> handleClose ctl w = w"
  by (simp add: handleClose_def)

text \<open>
  A functor taken from the queue: while it runs the connection may lack its closing functor,
  which is then the one that runs.
\<close>

lemma run_task_ok:
  assumes law: "epoll_law ctl tbl" and wf: "conn_wf tbl w" and tasks: "tasks w = t # ts"
    and ans: "conn_ok (RunTask ans) w"
  shows "\<exists>w'. run_task ctl ans t (w\<lparr>tasks := ts\<rparr>) = Inr w' \<and> conn_wf tbl w' \<and>
    conn_abs w' = spec_task ans t ((conn_abs w)\<lparr>a_tasks := ts\<rparr>)"
proof -
  let ?w = "w\<lparr>tasks := ts\<rparr>"
  have abs: "conn_abs ?w = (conn_abs w)\<lparr>a_tasks := ts\<rparr>" by (simp add: conn_abs_def)
  show ?thesis
  proof (cases "t = ForceCloseTask")
    case True
    have "conn_wf tbl (forceCloseInLoop ctl ?w) \<and> conn_abs (forceCloseInLoop ctl ?w) = spec_force (conn_abs ?w)"
    proof (cases "state (conn w) = kDisconnecting")
      case dis: True
      let ?d = "\<lambda>v. v\<lparr>tasks := ts\<rparr>"
      have "forceCloseInLoop ctl ?w = (handleClose ctl w)\<lparr>tasks := ts\<rparr>"
        using dis by (simp add: forceCloseInLoop_def handleClose_def Let_def on_channel_def note_that_def
            case_prod_beta)
      moreover have "state (conn (handleClose ctl w)) = kDisconnected"
        using dis by (simp add: handleClose_def Let_def)
      ultimately show ?thesis using handleClose_ok [OF law wf] dis
        by (simp add: conn_wf_def conn_reg_def close_calls_def spec_force_def spec_close_def conn_abs_def)
    next
      case False
      then have "conn_wf tbl ?w" using wf by (simp add: conn_wf_def conn_reg_def close_calls_def)
      then show ?thesis using forceCloseInLoop_ok [OF law] by blast
    qed
    then show ?thesis using True by (simp add: abs)
  next
    case False
    then have wf': "conn_wf tbl ?w" using wf tasks by (auto simp: conn_wf_def conn_reg_def close_calls_def)
    show ?thesis
    proof (cases t)
      case (SendTask data)
      with ans tasks have "write_law ans data" by simp
      then show ?thesis using sendInLoop_ok [OF law wf'] SendTask by (simp add: abs)
    next
      case CloseNowTask
      then show ?thesis using handleClose_ok [OF law wf'] by (auto simp: abs handleClose_idle)
    qed (use False wf' in \<open>simp_all add: shutdownInLoop_ok abs\<close>)
  qed
qed

lemma conn_exec_ok:
  assumes law: "epoll_law ctl tbl" and wf: "conn_wf tbl w" and ok: "conn_ok op w"
  shows "\<exists>w'. conn_exec ctl op w = Inr w' \<and> conn_wf tbl w' \<and> conn_abs w' = conn_step_spec op (conn_abs w)"
proof (cases op)
  case (Send inl ans data)
  then show ?thesis using sendInLoop_ok [OF law wf] wf ok by (simp add: send_def queue_task_ok)
next
  case (Shutdown inl ans)
  then show ?thesis using wf by (simp add: shutdown_def shutdownInLoop_ok queue_task_ok)
next
  case (ForceClose inl)
  then show ?thesis using forceCloseInLoop_ok [OF law wf] wf by (simp add: forceClose_def queue_task_ok)
next
  case (CloseNow inl)
  then show ?thesis using handleClose_ok [OF law wf] wf
    by (auto simp: closeNow_def handleClose_idle queue_task_ok)
next
  case (Readable ans now)
  then show ?thesis using handleRead_ok [OF law wf] ok by simp
next
  case (Writable ans)
  then show ?thesis using handleWrite_ok [OF law wf] ok by simp
next
  case HungUp
  then show ?thesis using handleClose_ok [OF law wf] by simp
next
  case FdError
  then show ?thesis using wf by (simp add: handleError_def conn_wf_def conn_abs_def close_calls_def)
next
  case (RunTask ans)
  show ?thesis
  proof (cases "tasks w")
    case Nil
    then show ?thesis using RunTask wf by (simp add: conn_abs_def)
  next
    case (Cons t ts)
    moreover have "a_tasks (conn_abs w) = t # ts" using Cons by (simp add: conn_abs_def)
    ultimately show ?thesis using run_task_ok [OF law wf Cons, of ans] ok RunTask by simp
  qed
next
  case (TakeInput n)
  then show ?thesis using wf
    by (simp add: conn_wf_def conn_abs_def retrieve_fifo conn_reg_def interest_of_def close_calls_def)
qed

text \<open>The connection is an operation machine over any kernel that keeps \<open>epoll_law\<close>.\<close>

interpretation conn_machine:
  op_machine "conn_exec ctl" "\<lambda>w. epoll_law ctl tbl \<and> conn_wf tbl w" conn_ok conn_abs conn_step_spec for ctl tbl
proof unfold_locales
  show "\<exists>w'. conn_exec ctl op w = Inr w' \<and> epoll_law ctl tbl \<and> conn_wf tbl w'"
    if "epoll_law ctl tbl \<and> conn_wf tbl w" "conn_ok op w" for w op
    using conn_exec_ok [of ctl tbl w op] that by blast
  show "conn_abs w' = conn_step_spec op (conn_abs w)"
    if "epoll_law ctl tbl \<and> conn_wf tbl w" "conn_ok op w" "conn_exec ctl op w = Inr w'" for w op w'
    using conn_exec_ok [of ctl tbl w op] that by auto
qed

lemma new_conn_wf:
  assumes law: "epoll_law ctl tbl" and m: "mirrors tbl lp" and free: "channels lp fd = None"
    and ok: "fst (ctl (CtlAdd fd EPOLLIN p) (kern lp))"
  shows "conn_wf tbl (new_conn ctl p fd count now lp)"
    and "conn_abs (new_conn ctl p fd count now lp) =
      \<lparr>a_state = kConnected, a_wire = [], a_pending = [], a_input = [], a_tasks = []\<rparr>"
proof -
  let ?ch = "(new_channel fd)\<lparr>events := EPOLLIN, readCallback := Some ConnRead,
    writeCallback := Some ConnWrite, closeCallback := Some ConnClose, errorCallback := Some ConnError\<rparr>"
  have ch: "(new_channel fd)\<lparr>readCallback := Some ConnRead, writeCallback := Some ConnWrite,
      closeCallback := Some ConnClose, errorCallback := Some ConnError, events := EPOLLIN\<rparr> = ?ch"
    by simp
  have "mirrors tbl (updateChannel ctl p ?ch lp)"
    using updateChannel_mirrors [OF law m, of p ?ch] free by (simp add: owns_fd_def new_channel_def)
  moreover have "channels (updateChannel ctl p ?ch lp) fd = Some p"
    using free ok by (simp add: updateChannel_add new_channel_def Let_def)
  ultimately show "conn_wf tbl (new_conn ctl p fd count now lp)"
    by (simp add: conn_wf_def new_conn_def conn_reg_def interest_of_def close_calls_def
        channel_op_defs new_channel_def)
  show "conn_abs (new_conn ctl p fd count now lp) =
      \<lparr>a_state = kConnected, a_wire = [], a_pending = [], a_input = [], a_tasks = []\<rparr>"
    by (simp add: conn_abs_def new_conn_def)
qed

section \<open>Facts about the abstract connection\<close>

fun accepted_of :: "conn_op \<Rightarrow> conn_spec \<Rightarrow> byte list" where
  "accepted_of (Send inl ans data) a = (if inl \<and> spec_accepts ans a then data else [])"
| "accepted_of (RunTask ans) a =
     (case a_tasks a of SendTask data # ts \<Rightarrow> if spec_accepts ans a then data else [] | _ \<Rightarrow> [])"
| "accepted_of op a = []"

fun accepted_bytes :: "conn_op list \<Rightarrow> conn_spec \<Rightarrow> byte list" where
  "accepted_bytes [] a = []"
| "accepted_bytes (op # ops) a = accepted_of op a @ accepted_bytes ops (conn_step_spec op a)"

lemmas spec_defs = spec_send_def spec_write_def spec_close_def spec_force_def spec_queue_def spec_read_def

lemma spec_accepts_tasks [simp]: "spec_accepts ans (a\<lparr>a_tasks := ts\<rparr>) = spec_accepts ans a"
  by (simp add: spec_accepts_def)

lemma spec_send_stream:
  "a_wire (spec_send ans data a) @ a_pending (spec_send ans data a) =
     a_wire a @ a_pending a @ (if spec_accepts ans a then data else [])"
  by (simp add: spec_send_def)

lemma spec_task_stream:
  "a_wire (spec_task ans t a) @ a_pending (spec_task ans t a) =
     a_wire a @ a_pending a @ (case t of SendTask data \<Rightarrow> if spec_accepts ans a then data else [] | _ \<Rightarrow> [])"
  by (cases t) (simp_all add: spec_send_stream, simp_all add: spec_defs)

lemma spec_step_stream:
  "a_wire (conn_step_spec op a) @ a_pending (conn_step_spec op a) =
     a_wire a @ a_pending a @ accepted_of op a"
proof (cases op)
  case (Send inl ans data)
  then show ?thesis by (simp add: spec_send_stream) (simp add: spec_queue_def)
next
  case (Readable ans now)
  then show ?thesis by (auto simp: spec_read_def spec_close_def split: read_answer.split list.split)
next
  case (RunTask ans)
  show ?thesis
  proof (cases "a_tasks a")
    case (Cons t ts)
    then show ?thesis
      using RunTask spec_task_stream [of ans t "a\<lparr>a_tasks := ts\<rparr>"] by (simp split: conn_task.splits)
  qed (simp add: RunTask)
qed (simp_all add: spec_defs)

lemma spec_run_stream:
  "a_wire (fold conn_step_spec ops a) @ a_pending (fold conn_step_spec ops a) =
     a_wire a @ a_pending a @ accepted_bytes ops a"
proof (induction ops arbitrary: a)
  case (Cons op ops)
  have "a_wire (fold conn_step_spec (op # ops) a) @ a_pending (fold conn_step_spec (op # ops) a) =
      (a_wire (conn_step_spec op a) @ a_pending (conn_step_spec op a)) @ accepted_bytes ops (conn_step_spec op a)"
    using Cons.IH [of "conn_step_spec op a"] by simp
  then show ?case unfolding spec_step_stream by simp
qed simp

lemma conn_state_order [simp]:
  "kConnected \<le> s" "s \<le> kDisconnected" "kDisconnected \<le> s \<longleftrightarrow> s = kDisconnected"
  "\<not> kDisconnecting \<le> kConnected"
  by (cases s; simp add: less_eq_conn_state_def)+

lemma spec_step_monotone: "a_state a \<le> a_state (conn_step_spec op a)"
proof (cases op)
  case (RunTask ans)
  show ?thesis
  proof (cases "a_tasks a")
    case (Cons t ts)
    then show ?thesis using RunTask by (cases t) (simp_all add: spec_defs)
  qed (simp add: RunTask)
qed (auto simp: spec_defs split: read_answer.split list.split)

lemma spec_run_monotone: "a_state a \<le> a_state (fold conn_step_spec ops a)"
  by (induction ops arbitrary: a) (auto intro: order_trans [OF spec_step_monotone])

lemma spec_force_runs:
  "ForceCloseTask \<in> set (take (length anss) (a_tasks a)) \<Longrightarrow> a_state a \<noteq> kConnected \<Longrightarrow>
   a_state (fold conn_step_spec (map RunTask anss) a) = kDisconnected"
proof (induction anss arbitrary: a)
  case (Cons ans anss)
  then obtain t ts where ts: "a_tasks a = t # ts" by (cases "a_tasks a") auto
  let ?a = "conn_step_spec (RunTask ans) a"
  have mono: "a_state a \<le> a_state ?a" by (rule spec_step_monotone)
  show ?case
  proof (cases "t = ForceCloseTask")
    case True
    then have "a_state ?a = kDisconnected" using ts Cons.prems by (simp add: spec_defs)
    then show ?thesis using spec_run_monotone [of ?a "map RunTask anss"] by simp
  next
    case False
    then have "a_tasks ?a = ts" using ts Cons.prems(2) by (cases t) (auto simp: spec_defs)
    moreover have "ForceCloseTask \<in> set (take (length anss) ts)" using Cons.prems(1) ts False by simp
    moreover have "a_state ?a \<noteq> kConnected" using mono Cons.prems(2)
      by (cases "a_state a"; cases "a_state ?a") (simp_all add: less_eq_conn_state_def)
    ultimately show ?thesis using Cons.IH [of ?a] by simp
  qed
qed simp

section \<open>Properties\<close>

text \<open>C1: The output stream is kept.  On a registered connection, over every run of sends from any
  thread, events, posted functors and closes, no operation faults, and the bytes handed to the
  kernel followed by those in the output buffer are the accepted messages, each once, in the
  order of acceptance.\<close>

theorem connection_stream_kept:
  assumes law: "epoll_law ctl tbl" and "mirrors tbl lp" "channels lp fd = None"
    and "fst (ctl (CtlAdd fd EPOLLIN p) (kern lp))"
    and w: "w = new_conn ctl p fd count now lp" and ok: "allowed (conn_exec ctl) conn_ok ops w"
  shows "\<exists>w'. run_ops (conn_exec ctl) ops w = Inr w' \<and>
    wire w' @ contents (output_buffer (conn w')) = accepted_bytes ops (conn_abs w)"
proof -
  have wf: "epoll_law ctl tbl \<and> conn_wf tbl w" and abs: "a_wire (conn_abs w) = []" "a_pending (conn_abs w) = []"
    using new_conn_wf [OF assms(1-4)] law w by auto
  obtain w' where "run_ops (conn_exec ctl) ops w = Inr w'" "conn_abs w' = fold conn_step_spec ops (conn_abs w)"
    using conn_machine.run_refines [OF wf ok] by blast
  moreover have "wire w' @ contents (output_buffer (conn w')) = a_wire (conn_abs w') @ a_pending (conn_abs w')"
    by (simp add: conn_abs_def)
  ultimately show ?thesis using spec_run_stream [of ops "conn_abs w"] abs by simp
qed

text \<open>
  For the witnesses: the kernel is the interest table, the connection has descriptor 5 and the
  channel address 9.  It sends [1, 2, 3], of which two bytes are written, then another thread
  sends [4], the socket becomes writable and the other thread's functor runs.
\<close>

definition idle_registry :: "interest poller" where
  "idle_registry = \<lparr>channels = Map.empty, kern = Map.empty\<rparr>"

definition demo_conn :: "interest conn_world" where
  "demo_conn = new_conn table_ctl 9 5 0 100 idle_registry"

definition demo_ops :: "conn_op list" where
  "demo_ops = [Send True (Done 2) [1, 2, 3], Send False (Done 0) [4], Writable (Done 1), RunTask (Done 1)]"

lemma idle_registry_facts:
  "mirrors id idle_registry" "channels idle_registry fd = None"
  "fst (table_ctl (CtlAdd fd ev p) (kern idle_registry))"
  by (simp_all add: idle_registry_def mirrors_def)

lemma demo_conn_wf: "conn_wf id demo_conn"
  unfolding demo_conn_def by (rule new_conn_wf [OF table_ctl_law idle_registry_facts])

lemma allowed_refined:
  assumes "epoll_law ctl tbl" "conn_wf tbl w" "conn_ok op w"
  shows "allowed (conn_exec ctl) conn_ok (op # ops) w \<longleftrightarrow>
    (\<exists>w'. conn_exec ctl op w = Inr w' \<and> allowed (conn_exec ctl) conn_ok ops w')"
  using conn_exec_ok [OF assms] assms(3) by auto

text \<open>The precondition of a run, read off the abstract connection.\<close>

fun spec_ok :: "conn_op \<Rightarrow> conn_spec \<Rightarrow> bool" where
  "spec_ok (Send inl ans data) a = write_law ans data"
| "spec_ok (Readable ans now) a =
     (case ans of ReadFail e \<Rightarrow> True | Delivered data \<Rightarrow> length data \<le> extra_size)"
| "spec_ok (Writable ans) a = write_law ans (a_pending a)"
| "spec_ok (RunTask ans) a = (case a_tasks a of SendTask data # ts \<Rightarrow> write_law ans data | _ \<Rightarrow> True)"
| "spec_ok op a = True"

fun spec_allowed :: "conn_op list \<Rightarrow> conn_spec \<Rightarrow> bool" where
  "spec_allowed [] a = True"
| "spec_allowed (op # ops) a = (spec_ok op a \<and> spec_allowed ops (conn_step_spec op a))"

lemma spec_ok_conn_ok: "spec_ok op (conn_abs w) \<Longrightarrow> conn_ok op w"
  by (cases op) (auto simp: conn_abs_def readv_law_def split: read_answer.splits)

lemma spec_allowed_conn:
  "epoll_law ctl tbl \<Longrightarrow> conn_wf tbl w \<Longrightarrow> spec_allowed ops (conn_abs w) \<Longrightarrow>
   allowed (conn_exec ctl) conn_ok ops w"
proof (induction ops arbitrary: w)
  case (Cons op ops)
  then have ok: "conn_ok op w" by (auto intro: spec_ok_conn_ok)
  obtain w' where w': "conn_exec ctl op w = Inr w'" "conn_wf tbl w'" "conn_abs w' = conn_step_spec op (conn_abs w)"
    using conn_exec_ok [OF Cons.prems(1,2) ok] by blast
  then show ?case using Cons.IH [of w'] Cons.prems ok by simp
qed simp

lemmas spec_eval = demo_conn_def new_conn_def conn_abs_def spec_defs spec_accepts_def write_law_def

lemma demo_conn_abs: "conn_abs demo_conn =
    \<lparr>a_state = kConnected, a_wire = [], a_pending = [], a_input = [], a_tasks = []\<rparr>"
  unfolding demo_conn_def by (rule new_conn_wf [OF table_ctl_law idle_registry_facts])

lemma connection_stream_kept_witness:
  "\<exists>w'. run_ops (conn_exec table_ctl) demo_ops demo_conn = Inr w' \<and>
     wire w' @ contents (output_buffer (conn w')) = [1, 2, 3, 4]"
proof -
  have ok: "allowed (conn_exec table_ctl) conn_ok demo_ops demo_conn"
    by (rule spec_allowed_conn [OF table_ctl_law demo_conn_wf])
      (simp add: demo_conn_abs demo_ops_def write_law_def spec_defs spec_accepts_def)
  have "accepted_bytes demo_ops (conn_abs demo_conn) = [1, 2, 3, 4]"
    by (simp add: demo_conn_abs demo_ops_def spec_defs spec_accepts_def)
  then show ?thesis
    using connection_stream_kept [OF table_ctl_law idle_registry_facts demo_conn_def ok] by simp
qed

text \<open>C8: The channel follows the connection.  After any run the connection's channel asks for input,
  and for output exactly while the output buffer holds data; once the connection is closed the
  mask is empty, the descriptor is gone from the loop's map and from the interest list of the
  kernel, so that the destructor does not touch the loop any more, and the close callback has
  been called exactly once.\<close>

theorem connection_interest_follows_state:
  assumes law: "epoll_law ctl tbl" and wf: "conn_wf tbl w"
    and ok: "allowed (conn_exec ctl) conn_ok ops w" and run: "run_ops (conn_exec ctl) ops w = Inr w'"
  shows "events (channel (conn w')) =
      (if state (conn w') = kDisconnected then 0
       else if contents (output_buffer (conn w')) = [] then EPOLLIN else EPOLLIN OR EPOLLOUT) \<and>
    (state (conn w') = kDisconnected \<longrightarrow>
       channels (registry w') (connfd (conn w')) = None \<and> tbl (kern (registry w')) (connfd (conn w')) = None \<and>
       destroy_conn ctl w' = registry w' \<and>
       close_calls w' = (if has_close (conn w') then 1 else 0)) \<and>
    (state (conn w') \<noteq> kDisconnected \<longrightarrow> close_calls w' = 0)"
proof -
  have w': "conn_wf tbl w'" using conn_machine.run_refines [of ctl tbl w ops] law wf ok run by auto
  have "channels (registry w') (connfd (conn w')) = None \<longrightarrow> tbl (kern (registry w')) (connfd (conn w')) = None"
    using w' mirrorsD [of tbl "registry w'" "connfd (conn w')"] by (auto simp: conn_wf_def conn_reg_def)
  then show ?thesis using w'
    by (auto simp: conn_wf_def conn_reg_def interest_of_def destroy_conn_def destroy_channel_def isNoneEvent_def)
qed

definition demo_close :: "conn_op list" where
  "demo_close = [Send True (Done 2) [1, 2, 3], ForceClose False, RunTask (Done 0), RunTask (Done 0),
     Send True (Done 1) [9]]"

lemma demo_close_allowed: "allowed (conn_exec table_ctl) conn_ok demo_close demo_conn"
  by (rule spec_allowed_conn [OF table_ctl_law demo_conn_wf])
    (simp add: demo_conn_abs demo_close_def write_law_def spec_defs spec_accepts_def)

lemma connection_interest_follows_state_witness:
  "\<exists>w'. run_ops (conn_exec table_ctl) demo_close demo_conn = Inr w' \<and> state (conn w') = kDisconnected \<and>
     events (channel (conn w')) = 0 \<and> wire w' = [1, 2] \<and> destroy_conn table_ctl w' = registry w'"
proof -
  obtain w' where w': "run_ops (conn_exec table_ctl) demo_close demo_conn = Inr w'"
      "conn_abs w' = fold conn_step_spec demo_close (conn_abs demo_conn)"
    using conn_machine.run_refines [of table_ctl id demo_conn demo_close]
      table_ctl_law demo_conn_wf demo_close_allowed by auto
  have "conn_abs w' = \<lparr>a_state = kDisconnected, a_wire = [1, 2], a_pending = [3], a_input = [], a_tasks = []\<rparr>"
    unfolding w'(2) by (simp add: demo_conn_abs demo_close_def spec_defs spec_accepts_def)
  then have "state (conn w') = kDisconnected" "wire w' = [1, 2]" by (simp_all add: conn_abs_def)
  then show ?thesis
    using w'(1) connection_interest_follows_state [OF table_ctl_law demo_conn_wf demo_close_allowed w'(1)]
    by auto
qed

text \<open>The state of a connection only moves forward, from connected over disconnecting to
  disconnected, over every run, and a posted or direct call never brings a closed connection back.\<close>

theorem connection_state_moves_forward:
  assumes law: "epoll_law ctl tbl" and wf: "conn_wf tbl w"
    and ok: "allowed (conn_exec ctl) conn_ok (ops1 @ ops2) w"
    and run1: "run_ops (conn_exec ctl) ops1 w = Inr w1"
    and run: "run_ops (conn_exec ctl) (ops1 @ ops2) w = Inr w2"
  shows "state (conn w) \<le> state (conn w1) \<and> state (conn w1) \<le> state (conn w2)"
proof -
  have ok1: "allowed (conn_exec ctl) conn_ok ops1 w" and ok2: "allowed (conn_exec ctl) conn_ok ops2 w1"
    using allowed_append [OF ok run1] by auto
  have w1: "conn_wf tbl w1" "conn_abs w1 = fold conn_step_spec ops1 (conn_abs w)"
    using conn_machine.run_refines [of ctl tbl w ops1] law wf ok1 run1 by auto
  have "run_ops (conn_exec ctl) ops2 w1 = Inr w2" using run run1 by (simp add: run_ops_append)
  then have "conn_abs w2 = fold conn_step_spec ops2 (conn_abs w1)"
    using conn_machine.run_refines [of ctl tbl w1 ops2] law w1(1) ok2 by auto
  with w1(2) show ?thesis
    using spec_run_monotone [of "conn_abs w" ops1] spec_run_monotone [of "conn_abs w1" ops2]
    by (metis conn_abs_sel(1))
qed

lemma connection_state_moves_forward_witness:
  "\<exists>w1 w2. run_ops (conn_exec table_ctl) (take 3 demo_close) demo_conn = Inr w1 \<and>
     run_ops (conn_exec table_ctl) (take 3 demo_close @ drop 3 demo_close) demo_conn = Inr w2 \<and>
     state (conn demo_conn) \<le> state (conn w1) \<and> state (conn w1) \<le> state (conn w2)"
proof -
  have split: "take 3 demo_close @ drop 3 demo_close = demo_close" by simp
  obtain w2 where w2: "run_ops (conn_exec table_ctl) (take 3 demo_close @ drop 3 demo_close) demo_conn = Inr w2"
    using conn_machine.run_safe [of table_ctl id demo_conn demo_close]
      table_ctl_law demo_conn_wf demo_close_allowed unfolding split by auto
  then obtain w1 where w1: "run_ops (conn_exec table_ctl) (take 3 demo_close) demo_conn = Inr w1"
    unfolding run_ops_append by (auto simp: bind_res_eq_Inr)
  have ok: "allowed (conn_exec table_ctl) conn_ok (take 3 demo_close @ drop 3 demo_close) demo_conn"
    unfolding split by (rule demo_close_allowed)
  show ?thesis using connection_state_moves_forward [OF table_ctl_law demo_conn_wf ok w1 w2] w1 w2 by blast
qed

text \<open>A forced close completes.  Once a connection was asked to close, whatever the loop runs
  before, it is closed after the functors that its queue held at the request, and the one the
  request added, have run.\<close>

theorem forceClose_completes:
  assumes law: "epoll_law ctl tbl" and wf: "conn_wf tbl w"
    and "state (conn w) \<noteq> kDisconnected" and len: "length anss = Suc (length (tasks w))"
    and ok: "allowed (conn_exec ctl) conn_ok (ForceClose True # map RunTask anss) w"
  shows "\<exists>w'. run_ops (conn_exec ctl) (ForceClose True # map RunTask anss) w = Inr w' \<and>
    state (conn w') = kDisconnected"
proof -
  obtain w' where w': "run_ops (conn_exec ctl) (ForceClose True # map RunTask anss) w = Inr w'"
      "conn_abs w' = fold conn_step_spec (map RunTask anss) (spec_force (conn_abs w))"
    using conn_machine.run_refines [of ctl tbl w, OF conjI [OF law wf] ok] by auto
  have "a_state (fold conn_step_spec (map RunTask anss) (spec_force (conn_abs w))) = kDisconnected"
  proof (cases "state (conn w) = kConnected")
    case True
    then show ?thesis using len by (intro spec_force_runs) (simp_all add: spec_force_def conn_abs_def)
  next
    case False
    then have "a_state (spec_force (conn_abs w)) = kDisconnected"
      by (simp add: spec_force_def spec_close_def conn_abs_def)
    then show ?thesis using spec_run_monotone [of "spec_force (conn_abs w)" "map RunTask anss"] by simp
  qed
  then have "state (conn w') = kDisconnected" using w'(2) by (simp flip: conn_abs_sel)
  with w'(1) show ?thesis by blast
qed

lemma forceClose_completes_witness:
  "\<exists>w'. run_ops (conn_exec table_ctl) (ForceClose True # map RunTask [Done 0]) demo_conn = Inr w' \<and>
     state (conn w') = kDisconnected"
proof -
  have "a_state (conn_abs demo_conn) = kConnected" "a_tasks (conn_abs demo_conn) = []"
    by (simp_all add: demo_conn_abs)
  then have facts: "state (conn demo_conn) \<noteq> kDisconnected" "length [Done 0] = Suc (length (tasks demo_conn))"
    by (simp_all add: conn_abs_def)
  have "allowed (conn_exec table_ctl) conn_ok (ForceClose True # map RunTask [Done 0]) demo_conn"
    by (rule spec_allowed_conn [OF table_ctl_law demo_conn_wf]) (simp add: demo_conn_abs spec_defs)
  then show ?thesis by (rule forceClose_completes [OF table_ctl_law demo_conn_wf facts])
qed

text \<open>The deferral of a forced close is defeated by a second request in the same callback: the
  connection is closed at once and its close callback runs, while the caller is still inside.\<close>

theorem second_forceClose_closes_at_once:
  assumes "state (conn w) = kConnected"
  shows "state (conn (forceClose ctl True w)) = kDisconnecting \<and>
    trace (forceClose ctl True w) = trace w \<and>
    state (conn (forceClose ctl True (forceClose ctl True w))) = kDisconnected \<and>
    (has_close (conn w) \<longrightarrow>
       trace (forceClose ctl True (forceClose ctl True w)) = trace w @ [CloseCalled])"
  using assms by (simp add: forceClose_def forceCloseInLoop_def handleClose_def Let_def)

lemma second_forceClose_closes_at_once_witness:
  "state (conn (forceClose table_ctl True (forceClose table_ctl True demo_conn))) = kDisconnected"
proof -
  have "a_state (conn_abs demo_conn) = kConnected" by (simp add: demo_conn_abs)
  then have "state (conn demo_conn) = kConnected" by (simp add: conn_abs_def)
  then show ?thesis using second_forceClose_closes_at_once [of demo_conn table_ctl] by blast
qed

text \<open>A write error closes nothing and tells nobody.  After a fatal error in \<open>sendInLoop\<close> the
  message is gone and the connection stays as it was; after an error in \<open>handleWrite\<close> the
  pending data and the subscription to \<open>EPOLLOUT\<close> stay, so that a level-triggered epoll
  reports the descriptor again at once.\<close>

theorem write_error_keeps_connection:
  assumes law: "epoll_law ctl tbl" and wf: "conn_wf tbl w"
    and "state (conn w) \<noteq> kDisconnected" and err: "e \<noteq> EAGAIN" "e \<noteq> EWOULDBLOCK"
  shows "if contents (output_buffer (conn w)) = []
    then sendInLoop ctl (Fail e) data w = Inr (note_that ErrorLogged w)
    else handleWrite ctl (Fail e) w = Inr (note_that ErrorLogged w) \<and>
      events (channel (conn (note_that ErrorLogged w))) AND EPOLLOUT \<noteq> 0"
proof -
  let ?b = "output_buffer (conn w)"
  have inv: "buf_inv ?b" using wf by (simp add: conn_wf_def)
  have "load (buf ?b) (peek ?b) (readableBytes ?b) = Inr (contents ?b)"
    using load_contents [OF inv] inv by (simp add: buffer_simps)
  moreover have "(EPOLLIN OR EPOLLOUT) AND EPOLLOUT \<noteq> 0" by (simp add: epoll_masks)
  ultimately show ?thesis using assms inv
    by (simp add: sendInLoop_def try_write_def handleWrite_def conn_wf_def interest_of_def buffer_simps)
qed

lemma write_error_keeps_connection_witness:
  "sendInLoop table_ctl (Fail (Errno 104)) [1, 2] demo_conn = Inr (note_that ErrorLogged demo_conn)"
proof -
  have "a_state (conn_abs demo_conn) = kConnected" "a_pending (conn_abs demo_conn) = []"
    by (simp_all add: demo_conn_abs)
  then have "state (conn demo_conn) \<noteq> kDisconnected" "contents (output_buffer (conn demo_conn)) = []"
    by (simp_all add: conn_abs_def)
  then show ?thesis
    using write_error_keeps_connection [OF table_ctl_law demo_conn_wf, of "Errno 104" "[1, 2]"] by simp
qed

text \<open>An empty \<open>send\<close> on a connection with a backlog reports completion although data is still
  pending.\<close>

theorem empty_send_reports_completion:
  assumes "state (conn w) \<noteq> kDisconnected" "has_complete (conn w)"
    and "buf_inv (output_buffer (conn w))" "contents (output_buffer (conn w)) \<noteq> []"
  shows "sendInLoop ctl ans [] w = Inr (note_that CompleteCalled w)"
  using assms by (simp add: sendInLoop_def try_write_def buffer_simps write_complete_def)

definition backlog_conn :: "interest conn_world" where
  "backlog_conn = demo_conn\<lparr>conn := (conn demo_conn)\<lparr>has_complete := True,
     output_buffer := \<lparr>buf = [7], read_index = 0, write_index = 1\<rparr>\<rparr>\<rparr>"

lemma empty_send_reports_completion_witness:
  "sendInLoop table_ctl (Done 0) [] backlog_conn = Inr (note_that CompleteCalled backlog_conn)"
proof -
  have "a_state (conn_abs demo_conn) = kConnected" by (simp add: demo_conn_abs)
  then have "state (conn backlog_conn) \<noteq> kDisconnected" "has_complete (conn backlog_conn)"
    by (simp_all add: conn_abs_def backlog_conn_def)
  moreover have "buf_inv (output_buffer (conn backlog_conn))" "contents (output_buffer (conn backlog_conn)) \<noteq> []"
    by (simp_all add: backlog_conn_def buf_inv_def contents_def segment_def)
  ultimately show ?thesis by (rule empty_send_reports_completion)
qed

end
