(* ===== verification/Loop_Threads.thy ===== *)
theory Loop_Threads
  imports Prelude
begin

text \<open>
  A loop on a thread of its own (\<open>reactor/EventLoopThread.h\<close>, \<open>.cpp\<close>) and the pool of such
  threads with its round-robin choice (\<open>reactor/EventLoopThreadPool.h\<close>, \<open>.cpp\<close>).  The first
  is a step relation of two threads, the owner that calls \<open>startLoop\<close> and the destructor, and
  the loop thread; of the loop itself it keeps what matters here, that entering \<open>loop()\<close>
  clears the quit flag and that it returns once the flag is up.
\<close>

section \<open>EventLoopThread\<close>

text \<open>
  Where the loop thread stands in \<open>threadFunc\<close>, and the owner in \<open>startLoop\<close> and in the
  destructor.  The end of the destructor destroys the member \<open>thread_\<close>, which terminates the
  process when it is still joinable.
\<close>

datatype thread_pc = NoThread | Constructing | Publishing | Entering | Looping | Clearing | Returning
  | Finished

datatype owner_pc = Created | Waiting | Started | DtorQuit | DtorJoin | DtorThread | Destroyed
  | Faulted fault

record loop_thread =
  loop_set :: bool
  loop_alive :: bool
  quit_flag :: bool
  joinable :: bool
  exiting :: bool
  thr :: thread_pc
  owner :: owner_pc

definition new_loop_thread :: loop_thread where
  "new_loop_thread = \<lparr>loop_set = False, loop_alive = False, quit_flag = False, joinable = False,
     exiting = False, thr = NoThread, owner = Created\<rparr>"

text \<open>
  \<open>calm\<close> leaves out the two ways in which the loop ends by itself, a failing \<open>epoll_wait\<close> and a
  \<open>quit()\<close> that somebody else calls through the pointer that \<open>startLoop\<close> returned.
\<close>

inductive thread_step :: "bool \<Rightarrow> loop_thread \<Rightarrow> loop_thread \<Rightarrow> bool" for calm where
  starts: "owner s = Created \<Longrightarrow>
    thread_step calm s (s\<lparr>thr := Constructing, joinable := True, owner := Waiting\<rparr>)"
| constructs: "thr s = Constructing \<Longrightarrow> thread_step calm s (s\<lparr>loop_alive := True, thr := Publishing\<rparr>)"
| publishes: "thr s = Publishing \<Longrightarrow> thread_step calm s (s\<lparr>loop_set := True, thr := Entering\<rparr>)"
| owner_wakes: "owner s = Waiting \<Longrightarrow> loop_set s \<Longrightarrow> thread_step calm s (s\<lparr>owner := Started\<rparr>)"
| enters: "thr s = Entering \<Longrightarrow> thread_step calm s (s\<lparr>quit_flag := False, thr := Looping\<rparr>)"
| loop_returns: "thr s = Looping \<Longrightarrow> quit_flag s \<Longrightarrow> thread_step calm s (s\<lparr>thr := Clearing\<rparr>)"
| loop_fails: "\<not> calm \<Longrightarrow> thr s = Looping \<Longrightarrow> thread_step calm s (s\<lparr>thr := Clearing\<rparr>)"
| clears: "thr s = Clearing \<Longrightarrow> thread_step calm s (s\<lparr>loop_set := False, thr := Returning\<rparr>)"
| returns: "thr s = Returning \<Longrightarrow> thread_step calm s (s\<lparr>loop_alive := False, thr := Finished\<rparr>)"
| user_quits: "\<not> calm \<Longrightarrow> owner s = Started \<Longrightarrow> loop_alive s \<Longrightarrow> thread_step calm s (s\<lparr>quit_flag := True\<rparr>)"
| dtor_tests: "owner s = Created \<or> owner s = Started \<Longrightarrow>
    thread_step calm s (s\<lparr>exiting := True, owner := (if loop_set s then DtorQuit else DtorThread)\<rparr>)"
| dtor_quits: "owner s = DtorQuit \<Longrightarrow>
    thread_step calm s (if loop_alive s then s\<lparr>quit_flag := True, owner := DtorJoin\<rparr>
      else s\<lparr>owner := Faulted UseAfterFree\<rparr>)"
| dtor_joins: "owner s = DtorJoin \<Longrightarrow> thr s = Finished \<Longrightarrow>
    thread_step calm s (s\<lparr>joinable := False, owner := DtorThread\<rparr>)"
| dtor_ends: "owner s = DtorThread \<Longrightarrow>
    thread_step calm s (s\<lparr>owner := (if joinable s then Faulted StdTerminate else Destroyed)\<rparr>)"

inductive_cases thread_stepE: "thread_step calm s t"

definition thread_init :: "loop_thread \<Rightarrow> bool" where
  "thread_init s \<longleftrightarrow> s = new_loop_thread"

definition thread_inv :: "loop_thread \<Rightarrow> bool" where
  "thread_inv s \<longleftrightarrow> (loop_alive s \<longleftrightarrow> thr s \<in> {Publishing, Entering, Looping, Clearing, Returning}) \<and>
     (loop_set s \<longleftrightarrow> thr s \<in> {Entering, Looping, Clearing}) \<and>
     (owner s = Created \<longleftrightarrow> thr s = NoThread \<and> owner s \<notin> {DtorThread, Destroyed}) \<and>
     (owner s \<in> {Waiting, Started, DtorQuit, DtorJoin} \<longrightarrow> joinable s) \<and>
     (joinable s \<longrightarrow> thr s \<noteq> NoThread)"

lemma thread_inv_step: "thread_step calm s t \<Longrightarrow> thread_inv s \<Longrightarrow> thread_inv t"
  by (induction rule: thread_step.induct) (simp_all add: thread_inv_def, auto)

interpretation loop_thread: inductive_invariant thread_init "thread_step calm" thread_inv for calm
proof unfold_locales
  show "thread_inv s" if "thread_init s" for s
    using that by (simp add: thread_init_def new_loop_thread_def thread_inv_def)
qed (rule thread_inv_step)

text \<open>When nothing but the destructor ends the loop, the loop lives until the destructor asks.\<close>

definition calm_inv :: "loop_thread \<Rightarrow> bool" where
  "calm_inv s \<longleftrightarrow> thread_inv s \<and>
     (quit_flag s \<longrightarrow> owner s \<in> {DtorJoin, DtorThread, Destroyed}) \<and>
     (thr s \<in> {Clearing, Returning, Finished} \<longrightarrow> owner s \<in> {DtorJoin, DtorThread, Destroyed}) \<and>
     (owner s \<in> {Started, DtorQuit} \<longrightarrow> thr s \<in> {Entering, Looping}) \<and>
     (owner s \<in> {DtorThread, Destroyed} \<longrightarrow> \<not> joinable s \<and> thr s \<in> {NoThread, Finished}) \<and> (\<forall>e. owner s \<noteq> Faulted e)"

lemma calm_inv_step: "thread_step True s t \<Longrightarrow> calm_inv s \<Longrightarrow> calm_inv t"
proof (induction rule: thread_step.induct)
  case (owner_wakes s)
  then show ?case by (cases "thr s") (simp_all add: calm_inv_def thread_inv_def)
next
  case (loop_returns s)
  then show ?case by (cases "owner s") (simp_all add: calm_inv_def thread_inv_def)
next
  case (constructs s)
  then show ?case by (cases "owner s") (simp_all add: calm_inv_def thread_inv_def)
next
  case (publishes s)
  then show ?case by (cases "owner s") (simp_all add: calm_inv_def thread_inv_def)
next
  case (clears s)
  then show ?case by (cases "owner s") (simp_all add: calm_inv_def thread_inv_def)
next
  case (returns s)
  then show ?case by (cases "owner s") (simp_all add: calm_inv_def thread_inv_def)
next
  case (enters s)
  then show ?case by (cases "owner s") (simp_all add: calm_inv_def thread_inv_def)
next
  case (dtor_tests s)
  then show ?case
    by (cases "owner s"; cases "thr s") (simp_all add: calm_inv_def thread_inv_def)
qed (simp_all add: calm_inv_def thread_inv_def)

interpretation calm_thread: inductive_invariant thread_init "thread_step True" calm_inv
proof unfold_locales
  show "calm_inv s" if "thread_init s" for s
    using that by (simp add: thread_init_def new_loop_thread_def thread_inv_def calm_inv_def)
qed (rule calm_inv_step)

section \<open>EventLoopThreadPool\<close>

text \<open>
  A loop is named by its address.  \<open>start_loop i\<close> is the loop that the \<open>i\<close>-th call of \<open>startLoop\<close>
  returns; a thread is named by the loop it runs.  \<open>loops_[next_]\<close> with an index outside the
  vector is a fault.
\<close>

record pool =
  baseLoop :: nat
  started :: bool
  threadNum :: int
  next_idx :: nat
  threads :: "nat list"
  loops :: "nat list"

definition new_pool :: "nat \<Rightarrow> pool" where
  "new_pool base = \<lparr>baseLoop = base, started = False, threadNum = 0, next_idx = 0, threads = [], loops = []\<rparr>"

definition setThreadNum :: "int \<Rightarrow> pool \<Rightarrow> pool" where
  "setThreadNum num p = p\<lparr>threadNum := num\<rparr>"

definition start_pool :: "(nat \<Rightarrow> nat) \<Rightarrow> pool \<Rightarrow> pool" where
  "start_pool start_loop p =
     (let new = map start_loop [0..<nat (threadNum p)];
          p = p\<lparr>started := True, loops := loops p @ new, threads := threads p @ new\<rparr>
      in if threadNum p = 0 then p\<lparr>loops := loops p @ [baseLoop p]\<rparr> else p)"

definition stop_pool :: "pool \<Rightarrow> pool" where
  "stop_pool p = p\<lparr>threads := [], loops := []\<rparr>"

definition getNextLoop :: "pool \<Rightarrow> (nat \<times> pool) res" where
  "getNextLoop p =
     (if loops p = [] then Inr (baseLoop p, p)
      else if next_idx p < length (loops p)
      then Inr (loops p ! next_idx p,
        p\<lparr>next_idx := (if Suc (next_idx p) \<ge> length (loops p) then 0 else Suc (next_idx p))\<rparr>)
      else Inl OutOfBounds)"

definition getAllLoops :: "pool \<Rightarrow> nat list" where
  "getAllLoops p = loops p"

definition getBaseLoop :: "pool \<Rightarrow> nat" where
  "getBaseLoop p = baseLoop p"

fun next_loops :: "nat \<Rightarrow> pool \<Rightarrow> (nat list \<times> pool) res" where
  "next_loops 0 p = Inr ([], p)"
| "next_loops (Suc k) p = bind_res (getNextLoop p) (\<lambda>(l, p).
     bind_res (next_loops k p) (\<lambda>(ls, p). Inr (l # ls, p)))"

definition pool_inv :: "pool \<Rightarrow> bool" where
  "pool_inv p \<longleftrightarrow> (loops p \<noteq> [] \<longrightarrow> next_idx p < length (loops p))"

lemma getNextLoop_round:
  assumes "loops p \<noteq> []" "next_idx p < length (loops p)"
  shows "getNextLoop p = Inr (loops p ! next_idx p, p\<lparr>next_idx := Suc (next_idx p) mod length (loops p)\<rparr>)"
  using assms by (simp add: getNextLoop_def mod_Suc)

lemma next_loops_round:
  "loops p \<noteq> [] \<Longrightarrow> next_idx p < length (loops p) \<Longrightarrow> next_loops k p =
     Inr (map (\<lambda>j. loops p ! ((next_idx p + j) mod length (loops p))) [0..<k],
       p\<lparr>next_idx := (next_idx p + k) mod length (loops p)\<rparr>)"
proof (induction k arbitrary: p)
  case (Suc k)
  let ?n = "length (loops p)"
  let ?p = "p\<lparr>next_idx := Suc (next_idx p) mod ?n\<rparr>"
  have "next_loops k ?p = Inr (map (\<lambda>j. loops p ! ((Suc (next_idx p) + j) mod ?n)) [0..<k],
      p\<lparr>next_idx := (Suc (next_idx p) + k) mod ?n\<rparr>)"
    using Suc.IH [of ?p] Suc.prems by (simp add: mod_Suc_eq mod_add_left_eq)
  then show ?case
    using getNextLoop_round [OF Suc.prems] Suc.prems
    by (simp add: upt_conv_Cons del: upt_Suc flip: map_Suc_upt)
qed simp

lemma count_round:
  assumes "i < length xs"
  shows "count_list (map (\<lambda>j. xs ! ((i + j) mod length xs)) [0..<m * length xs]) x = m * count_list xs x"
proof (induction m)
  case (Suc m)
  let ?n = "length xs"
  have shift: "(i + (m * ?n + j)) mod ?n = (i + j) mod ?n" for j
    by (metis add.left_commute mod_mult_self3)
  have block: "map (\<lambda>j. xs ! ((i + j) mod ?n)) [m * ?n..<Suc m * ?n] = rotate i xs"
    by (rule nth_equalityI) (simp_all add: nth_rotate shift)
  have "[0..<Suc m * ?n] = [0..<m * ?n] @ [m * ?n..<Suc m * ?n]"
    using upt_add_eq_append [of 0 "m * ?n" ?n] by (simp add: add.commute)
  then have "map (\<lambda>j. xs ! ((i + j) mod ?n)) [0..<Suc m * ?n] =
      map (\<lambda>j. xs ! ((i + j) mod ?n)) [0..<m * ?n] @ rotate i xs"
    using block by simp
  moreover have "count_list (rotate i xs) x = count_list xs x"
    by (metis add.commute append_take_drop_id count_list_append rotate_drop_take)
  ultimately show ?case using Suc.IH by simp
qed simp

section \<open>Properties\<close>

text \<open>\<open>startLoop\<close> never returns before the loop is there: when it returns, the loop object exists, its
  address has been published and its thread is running.\<close>

theorem startLoop_returns_live_loop:
  assumes "reach thread_init (thread_step calm) s" "thread_step calm s t"
    and "owner s = Waiting" "owner t = Started"
  shows "loop_set t \<and> loop_alive t \<and> joinable t \<and> thr t \<in> {Entering, Looping, Clearing}"
proof -
  have "thread_inv s" by (rule loop_thread.inv_reach [OF assms(1)])
  with assms(2-4) show ?thesis
    by (cases rule: thread_step.cases; cases "thr s") (simp_all add: thread_inv_def)
qed

text \<open>A run of the two threads for the witnesses: started, entered, destroyed in order.\<close>

definition at :: "thread_pc \<Rightarrow> owner_pc \<Rightarrow> bool \<Rightarrow> loop_thread" where
  "at t w q = \<lparr>loop_set = t \<in> {Entering, Looping, Clearing},
     loop_alive = t \<in> {Publishing, Entering, Looping, Clearing, Returning}, quit_flag = q,
     joinable = t \<noteq> NoThread, exiting = w \<in> {DtorQuit, DtorJoin, DtorThread}, thr = t, owner = w\<rparr>"

abbreviation thread_reach :: "bool \<Rightarrow> loop_thread \<Rightarrow> bool" where
  "thread_reach calm \<equiv> reach thread_init (thread_step calm)"

lemma reach_entering: "thread_reach calm (at Entering Waiting False)"
proof -
  have "thread_reach calm (at NoThread Created False)"
    by (rule reach.reach_init) (simp add: thread_init_def new_loop_thread_def at_def)
  from reach.reach_step [OF this thread_step.starts]
  have "thread_reach calm (at Constructing Waiting False)" by (simp add: at_def)
  from reach.reach_step [OF this thread_step.constructs]
  have "thread_reach calm (at Publishing Waiting False)" by (simp add: at_def)
  from reach.reach_step [OF this thread_step.publishes]
  show ?thesis by (simp add: at_def)
qed

lemma entering_wakes: "thread_step calm (at Entering Waiting False) (at Entering Started False)"
  using thread_step.owner_wakes [of "at Entering Waiting False" calm] by (simp add: at_def)

lemma reach_started: "thread_reach calm (at Entering Started False)"
  by (rule reach.reach_step [OF reach_entering entering_wakes])

lemma reach_looping: "thread_reach calm (at Looping Started False)"
  using reach.reach_step [OF reach_started thread_step.enters] by (simp add: at_def)

lemma startLoop_returns_live_loop_witness:
  "loop_set (at Entering Started False) \<and> loop_alive (at Entering Started False)"
  using startLoop_returns_live_loop [OF reach_entering [of True] entering_wakes] by (simp add: at_def)


lemma reach_dtor_quit: "thread_reach calm (at Looping DtorQuit False)"
  using reach.reach_step [OF reach_looping thread_step.dtor_tests] by (simp add: at_def)


text \<open>A loop that ends before the destructor runs, by a \<open>quit()\<close> through the pointer that
  \<open>startLoop\<close> returned, leaves \<open>loop_\<close> empty: the destructor skips the join and destroys a
  joinable thread, which terminates the process.\<close>

theorem destructor_terminates_process:
  "\<exists>s. reach thread_init (thread_step False) s \<and> owner s = Faulted StdTerminate"
proof -
  from reach.reach_step [OF reach_looping thread_step.user_quits [of False]]
  have "thread_reach False (at Looping Started True)" by (simp add: at_def)
  from reach.reach_step [OF this thread_step.loop_returns]
  have "thread_reach False (at Clearing Started True)" by (simp add: at_def)
  from reach.reach_step [OF this thread_step.clears]
  have "thread_reach False (at Returning Started True)" by (simp add: at_def)
  from reach.reach_step [OF this thread_step.returns]
  have "thread_reach False (at Finished Started True)" by (simp add: at_def)
  from reach.reach_step [OF this thread_step.dtor_tests]
  have "thread_reach False (at Finished DtorThread True)" by (simp add: at_def)
  from reach.reach_step [OF this thread_step.dtor_ends] show ?thesis
    by (intro exI conjI) (auto simp: at_def)
qed

text \<open>A destructor that runs between the publication of the loop and its entry into \<open>loop()\<close> loses
  its \<open>quit()\<close>: the loop thread clears the flag and loops, the destructor waits in
  \<open>join\<close>, and neither can take a step any more.\<close>

theorem destructor_join_hangs:
  "\<exists>s. reach thread_init (thread_step True) s \<and> owner s = DtorJoin \<and> thr s = Looping \<and>
     (\<forall>t. \<not> thread_step True s t)"
proof -
  from reach.reach_step [OF reach_started thread_step.dtor_tests]
  have "thread_reach True (at Entering DtorQuit False)" by (simp add: at_def)
  from reach.reach_step [OF this thread_step.dtor_quits]
  have "thread_reach True (at Entering DtorJoin True)" by (simp add: at_def)
  from reach.reach_step [OF this thread_step.enters]
  have hang: "thread_reach True (at Looping DtorJoin False)" by (simp add: at_def)
  have "\<not> thread_step True (at Looping DtorJoin False) t" for t
    by (auto elim!: thread_stepE simp: at_def)
  with hang show ?thesis by (intro exI [of _ "at Looping DtorJoin False"]) (simp add: at_def)
qed

text \<open>\<open>startLoop\<close> itself hangs when the loop fails before the owner has woken up.\<close>

lemma startLoop_hangs:
  "\<exists>s. thread_reach False s \<and> owner s = Waiting \<and> thr s = Finished \<and> (\<forall>t. \<not> thread_step False s t)"
proof -
  from reach.reach_step [OF reach_entering thread_step.enters]
  have "thread_reach False (at Looping Waiting False)" by (simp add: at_def)
  from reach.reach_step [OF this thread_step.loop_fails [of False]]
  have "thread_reach False (at Clearing Waiting False)" by (simp add: at_def)
  from reach.reach_step [OF this thread_step.clears]
  have "thread_reach False (at Returning Waiting False)" by (simp add: at_def)
  from reach.reach_step [OF this thread_step.returns]
  have hang: "thread_reach False (at Finished Waiting False)" by (simp add: at_def)
  have "\<not> thread_step False (at Finished Waiting False) t" for t
    by (auto elim!: thread_stepE simp: at_def)
  with hang show ?thesis by (intro exI [of _ "at Finished Waiting False"]) (simp add: at_def)
qed

text \<open>The choice of the next loop is a fair round robin: any number of consecutive calls hands out
  the loops in cyclic order from the cursor on and never faults, and over \<open>m\<close> full rounds every loop
  is chosen exactly \<open>m\<close> times its multiplicity.\<close>

theorem round_robin_fair:
  assumes "loops p \<noteq> []" "next_idx p < length (loops p)" "next_loops k p = r"
  shows "r = Inr (map (\<lambda>j. loops p ! ((next_idx p + j) mod length (loops p))) [0..<k],
      p\<lparr>next_idx := (next_idx p + k) mod length (loops p)\<rparr>) \<and>
    (k = m * length (loops p) \<longrightarrow> (case r of Inr (ls, p') \<Rightarrow>
       \<forall>l. count_list ls l = m * count_list (loops p) l | Inl e \<Rightarrow> False))"
proof -
  have r: "r = Inr (map (\<lambda>j. loops p ! ((next_idx p + j) mod length (loops p))) [0..<k],
      p\<lparr>next_idx := (next_idx p + k) mod length (loops p)\<rparr>)"
    using next_loops_round [OF assms(1,2)] assms(3) by simp
  then show ?thesis using count_round [OF assms(2)] by simp
qed

definition three_loops :: pool where
  "three_loops = start_pool (\<lambda>i. 10 + i) (setThreadNum 3 (new_pool 1))"

lemma three_loops_eval: "three_loops = \<lparr>baseLoop = 1, started = True, threadNum = 3, next_idx = 0,
    threads = [10, 11, 12], loops = [10, 11, 12]\<rparr>"
  by (simp add: three_loops_def start_pool_def setThreadNum_def new_pool_def Let_def numeral_3_eq_3)

lemma round_robin_fair_witness:
  "next_loops 6 three_loops = Inr ([10, 11, 12, 10, 11, 12], three_loops)"
  using round_robin_fair [of three_loops 6 _ 2, OF _ _ refl]
  by (simp add: three_loops_eval upt_conv_Cons)

text \<open>Restarting the pool with fewer threads reads outside the vector of loops: \<open>stop()\<close> leaves the
  cursor where it was.\<close>

theorem restart_overruns:
  assumes "next_loops k p = Inr (ls, p')" "0 < n" "int n \<le> int (next_idx p')"
  shows "getNextLoop (start_pool f (setThreadNum (int n) (stop_pool p'))) = Inl OutOfBounds"
  using assms(2,3) by (simp add: getNextLoop_def start_pool_def setThreadNum_def stop_pool_def Let_def)

lemma restart_overruns_witness:
  "getNextLoop (start_pool (\<lambda>i. 20 + i) (setThreadNum 1 (stop_pool (three_loops\<lparr>next_idx := 2\<rparr>)))) = Inl OutOfBounds"
proof -
  have "next_loops 2 three_loops = Inr ([10, 11], three_loops\<lparr>next_idx := 2\<rparr>)"
    by (simp add: three_loops_eval numeral_2_eq_2 getNextLoop_def)
  from restart_overruns [OF this, of 1] show ?thesis by simp
qed

end
