(* ===== verification/Server.thy ===== *)
theory Server
  imports Tcp_Connection Loop_Threads
begin

text \<open>
  The server (\<open>reactor/Server.h\<close>, \<open>reactor/Server.cpp\<close>): the table of connections, their creation on
  the loop that the pool chooses, their removal, the heartbeat and the shutdown.  The state holds
  the connection objects as a heap, so that the moment when the last \<open>shared_ptr\<close> to one
  disappears is a step of the model: the object is destroyed, and a later access is a fault.

  Loops are numbers, 0 the main one; \<open>regs\<close>, \<open>queues\<close> and \<open>loop_live\<close> are indexed by them.
\<close>

section \<open>State\<close>

type_synonym oid = chan

datatype srv_task = NewConn fd | ConnTask oid conn_task

fun task_conn :: "srv_task \<Rightarrow> oid option" where
  "task_conn (NewConn fd) = None"
| "task_conn (ConnTask o' t) = Some o'"

datatype srv_event = AppConnection oid | AppMessage oid | AppClose oid

text \<open>
  \<open>connections\<close> is the \<open>std::map\<close> in the order of its keys.  \<open>running\<close> are the functors that a
  \<open>doPendingFunctors\<close> has taken out of a queue and not destroyed yet, \<open>held\<close> the local
  \<open>shared_ptr\<close>s of a function of the server.  \<open>sent\<close> is what the connections gave to the kernel.
\<close>

record 'k server =
  objs :: "oid \<Rightarrow> tcp option"
  loop_of :: "oid \<Rightarrow> nat"
  regs :: "'k poller list"
  queues :: "srv_task list list"
  loop_live :: "bool list"
  connections :: "(fd \<times> oid) list"
  running :: "srv_task list"
  held :: "oid list"
  pool :: pool
  conn_count :: nat
  ioThreadCount :: int
  heartbeatTimeout :: int
  heartbeatInterval :: int
  heartbeat_on :: bool
  has_messageCallback :: bool
  has_connectionCallback :: bool
  has_closeCallback :: bool
  app_events :: "srv_event list"
  sent :: "oid \<Rightarrow> byte list"

text \<open>
  What the code gets from outside: the kernel's \<open>epoll_ctl\<close>, the address of a new object, the
  answers of \<open>write\<close> and \<open>readv\<close>, the clock, and the messages that an application callback sends.
\<close>

record 'k srv_env =
  ctl :: "'k epoll_ctl"
  alloc :: "'k server \<Rightarrow> oid"
  wr :: "oid \<Rightarrow> byte list \<Rightarrow> io_answer"
  rd :: "oid \<Rightarrow> read_answer"
  now :: int
  app_sends :: "srv_event \<Rightarrow> 'k server \<Rightarrow> (oid \<times> byte list) list"

text \<open>
  The constructor, with the loops that exist or that the pool will start; \<open>conn_count\<close> is a static
  variable of \<open>TcpConnection.cpp\<close>.
\<close>

definition new_server :: "nat \<Rightarrow> 'k poller list \<Rightarrow> 'k server" where
  "new_server main lps = \<lparr>objs = (\<lambda>o'. None), loop_of = (\<lambda>o'. main), regs = lps,
     queues = replicate (length lps) [], loop_live = replicate (length lps) True, connections = [],
     running = [], held = [], pool = new_pool main, conn_count = 0, ioThreadCount = 0,
     heartbeatTimeout = 0, heartbeatInterval = 2000, heartbeat_on = False, has_messageCallback = False,
     has_connectionCallback = False, has_closeCallback = False, app_events = [], sent = (\<lambda>o'. [])\<rparr>"

section \<open>The table\<close>

fun map_put :: "fd \<Rightarrow> 'a \<Rightarrow> (fd \<times> 'a) list \<Rightarrow> (fd \<times> 'a) list" where
  "map_put k v [] = [(k, v)]"
| "map_put k v ((k', v') # m) =
     (if k < k' then (k, v) # (k', v') # m else if k = k' then (k, v) # m else (k', v') # map_put k v m)"

definition map_erase :: "fd \<Rightarrow> (fd \<times> 'a) list \<Rightarrow> (fd \<times> 'a) list" where
  "map_erase k m = filter (\<lambda>e. fst e \<noteq> k) m"

definition getAllConnections :: "'k server \<Rightarrow> oid list" where
  "getAllConnections s = map snd (connections s)"

section \<open>Lifetime of a connection object\<close>

definition referenced :: "oid \<Rightarrow> 'k server \<Rightarrow> bool" where
  "referenced o' s \<longleftrightarrow> o' \<in> set (map snd (connections s)) \<or> o' \<in> set (held s) \<or>
     Some o' \<in> set (map task_conn (running s)) \<or> list_ex (\<lambda>q. Some o' \<in> set (map task_conn q)) (queues s)"

text \<open>
  One reference was dropped: if it was the last one the object is destroyed, and its channel
  is, which touches the loop when it is still registered.
\<close>

definition release :: "'k srv_env \<Rightarrow> oid \<Rightarrow> 'k server \<Rightarrow> 'k server res" where
  "release env o' s = (if referenced o' s then Inr s
     else case objs s o' of None \<Rightarrow> Inr s
     | Some c \<Rightarrow>
         if \<not> isNoneEvent (channel c) \<and> \<not> loop_live s ! loop_of s o' then Inl UseAfterFree
         else Inr (s\<lparr>objs := (objs s)(o' := None), regs := (regs s)[loop_of s o' :=
           destroy_channel (ctl env) (self c) (channel c) (regs s ! loop_of s o')]\<rparr>))"

fun release_all :: "'k srv_env \<Rightarrow> oid list \<Rightarrow> 'k server \<Rightarrow> 'k server res" where
  "release_all env [] s = Inr s"
| "release_all env (o' # os) s = bind_res (release env o' s) (release_all env os)"

section \<open>Operations on one connection\<close>

text \<open>
  An operation of \<open>Tcp_Connection\<close> on the object at \<open>o'\<close>, in its loop's registry: what it posts goes
  to the queue of that loop, and the calls it makes to the outside are returned.
\<close>

definition conn_view :: "'k server \<Rightarrow> oid \<Rightarrow> tcp \<Rightarrow> 'k conn_world" where
  "conn_view s o' c = \<lparr>conn = c, registry = regs s ! loop_of s o', wire = [], tasks = [], trace = []\<rparr>"

definition conn_store :: "oid \<Rightarrow> 'k conn_world \<Rightarrow> 'k server \<Rightarrow> 'k server" where
  "conn_store o' w s = (let l = loop_of s o' in
     s\<lparr>objs := (objs s)(o' \<mapsto> conn w), regs := (regs s)[l := registry w],
       queues := (queues s)[l := queues s ! l @ map (ConnTask o') (tasks w)],
       sent := (sent s)(o' := sent s o' @ wire w)\<rparr>)"

definition on_conn :: "oid \<Rightarrow> ('k conn_world \<Rightarrow> 'k conn_world res) \<Rightarrow> 'k server \<Rightarrow>
    (conn_note list \<times> 'k server) res" where
  "on_conn o' f s = (case objs s o' of None \<Rightarrow> Inl UseAfterFree
     | Some c \<Rightarrow> bind_res (f (conn_view s o' c)) (\<lambda>w. Inr (trace w, conn_store o' w s)))"

definition conn_send :: "'k srv_env \<Rightarrow> nat \<Rightarrow> oid \<Rightarrow> byte list \<Rightarrow> 'k server \<Rightarrow> 'k server res" where
  "conn_send env l o' data s =
     bind_res (on_conn o' (send (ctl env) (loop_of s o' = l) (wr env o' data) data) s)
       (\<lambda>(notes, s). Inr s)"

text \<open>An application callback that runs on loop \<open>l\<close>: the event is recorded, its messages are sent.\<close>

definition app_call :: "'k srv_env \<Rightarrow> nat \<Rightarrow> srv_event \<Rightarrow> 'k server \<Rightarrow> 'k server res" where
  "app_call env l ev s = (let s' = s\<lparr>app_events := app_events s @ [ev]\<rparr> in
     fold (\<lambda>(o', data) r. bind_res r (conn_send env l o' data)) (app_sends env ev s) (Inr s'))"

section \<open>Callbacks of a connection\<close>

definition onMessage :: "'k srv_env \<Rightarrow> oid \<Rightarrow> 'k server \<Rightarrow> 'k server res" where
  "onMessage env o' s =
     (if has_messageCallback s then app_call env (loop_of s o') (AppMessage o') s else Inr s)"

definition onCloseConnection :: "'k srv_env \<Rightarrow> oid \<Rightarrow> 'k server \<Rightarrow> 'k server res" where
  "onCloseConnection env o' s = (case objs s o' of None \<Rightarrow> Inl UseAfterFree
     | Some c \<Rightarrow> (let fd = connfd c in
         bind_res (if has_closeCallback s then app_call env (loop_of s o') (AppClose o') s else Inr s)
         (\<lambda>s. (let gone = map snd (filter (\<lambda>e. fst e = fd) (connections s))
               in release_all env gone (s\<lparr>connections := map_erase fd (connections s)\<rparr>)))))"

fun dispatch_note :: "'k srv_env \<Rightarrow> oid \<Rightarrow> conn_note \<Rightarrow> 'k server \<Rightarrow> 'k server res" where
  "dispatch_note env o' MessageCalled s = onMessage env o' s"
| "dispatch_note env o' CloseCalled s = onCloseConnection env o' s"
| "dispatch_note env o' note s = Inr s"

fun dispatch_notes :: "'k srv_env \<Rightarrow> oid \<Rightarrow> conn_note list \<Rightarrow> 'k server \<Rightarrow> 'k server res" where
  "dispatch_notes env o' [] s = Inr s"
| "dispatch_notes env o' (n # ns) s = bind_res (dispatch_note env o' n s) (dispatch_notes env o' ns)"

definition conn_do :: "'k srv_env \<Rightarrow> oid \<Rightarrow> ('k conn_world \<Rightarrow> 'k conn_world res) \<Rightarrow> 'k server \<Rightarrow> 'k server res" where
  "conn_do env o' f s = bind_res (on_conn o' f s) (\<lambda>(ns, s). dispatch_notes env o' ns s)"

text \<open>The four lambdas of the channel, and an event of the loop for the channel at \<open>o'\<close>.\<close>

fun conn_callback :: "'k srv_env \<Rightarrow> oid \<Rightarrow> conn_cb \<Rightarrow> 'k server \<Rightarrow> 'k server res" where
  "conn_callback env o' ConnRead s = conn_do env o' (handleRead (ctl env) (rd env o') (now env)) s"
| "conn_callback env o' ConnWrite s = (case objs s o' of None \<Rightarrow> Inl UseAfterFree
     | Some c \<Rightarrow> conn_do env o' (handleWrite (ctl env) (wr env o' (contents (output_buffer c)))) s)"
| "conn_callback env o' ConnClose s = conn_do env o' (\<lambda>w. Inr (handleClose (ctl env) w)) s"
| "conn_callback env o' ConnError s = conn_do env o' (\<lambda>w. Inr (handleError w)) s"

definition conn_channel :: "oid \<Rightarrow> 'k server \<Rightarrow> conn_cb channel option" where
  "conn_channel o' s = map_option channel (objs s o')"

definition loop_event :: "'k srv_env \<Rightarrow> oid \<Rightarrow> uint32 \<Rightarrow> 'k server \<Rightarrow> 'k server res" where
  "loop_event env o' ev s = (case objs s o' of None \<Rightarrow> Inl UseAfterFree
     | Some c \<Rightarrow>
         handleEvent (conn_callback env o') (conn_channel o')
           (s\<lparr>objs := (objs s)(o' \<mapsto> c\<lparr>channel := setRevents ev (channel c)\<rparr>)\<rparr>))"

section \<open>New connections and posted functors\<close>

definition create_conn :: "'k srv_env \<Rightarrow> nat \<Rightarrow> fd \<Rightarrow> 'k server \<Rightarrow> 'k server res" where
  "create_conn env l fd s =
     (let o' = alloc env s;
          w = new_conn (ctl env) o' fd (conn_count s) (now env) (regs s ! l);
          c = (conn w)\<lparr>has_message := True, has_close := True\<rparr>;
          gone = map snd (filter (\<lambda>e. fst e = fd) (connections s));
          s = s\<lparr>objs := (objs s)(o' \<mapsto> c), loop_of := (loop_of s)(o' := l), regs := (regs s)[l := registry w],
            conn_count := Suc (conn_count s), connections := map_put fd o' (connections s),
            sent := (sent s)(o' := [])\<rparr>
      in bind_res (release_all env gone s) (\<lambda>s.
         if has_connectionCallback s then app_call env l (AppConnection o') s else Inr s))"

definition onNewConnection :: "'k srv_env \<Rightarrow> nat \<Rightarrow> fd \<Rightarrow> 'k server \<Rightarrow> 'k server res" where
  "onNewConnection env main fd s =
     bind_res (getNextLoop (pool s)) (\<lambda>(ioLoop, p). let s = s\<lparr>pool := p\<rparr> in
       if ioLoop = main then create_conn env ioLoop fd s
       else Inr (s\<lparr>queues := (queues s)[ioLoop := queues s ! ioLoop @ [NewConn fd]]\<rparr>))"

fun run_srv_task :: "'k srv_env \<Rightarrow> nat \<Rightarrow> srv_task \<Rightarrow> 'k server \<Rightarrow> 'k server res" where
  "run_srv_task env l (NewConn fd) s = create_conn env l fd s"
| "run_srv_task env l (ConnTask o' t) s = (case t of
       SendTask data \<Rightarrow> conn_do env o' (run_task (ctl env) (wr env o' data) t) s
     | _ \<Rightarrow> conn_do env o' (run_task (ctl env) (Done 0) t) s)"

fun run_srv_tasks :: "'k srv_env \<Rightarrow> nat \<Rightarrow> srv_task list \<Rightarrow> 'k server \<Rightarrow> 'k server res" where
  "run_srv_tasks env l [] s = Inr s"
| "run_srv_tasks env l (t # ts) s = bind_res (run_srv_task env l t s) (run_srv_tasks env l ts)"

text \<open>\<open>doPendingFunctors\<close> of loop \<open>l\<close>: the vector of functors dies at the end, with its references.\<close>

definition loop_pending :: "'k srv_env \<Rightarrow> nat \<Rightarrow> 'k server \<Rightarrow> 'k server res" where
  "loop_pending env l s = (let batch = queues s ! l;
       s = s\<lparr>queues := (queues s)[l := []], running := batch\<rparr>
     in bind_res (run_srv_tasks env l batch s) (\<lambda>s.
        release_all env (List.map_filter task_conn batch) (s\<lparr>running := []\<rparr>)))"

section \<open>Heartbeat, start and shutdown\<close>

definition setHeartbeat :: "int \<Rightarrow> int \<Rightarrow> 'k server \<Rightarrow> 'k server" where
  "setHeartbeat timeout checkInterval s =
     s\<lparr>heartbeatTimeout := timeout, heartbeatInterval := checkInterval\<rparr>"

definition srv_setThreadNum :: "int \<Rightarrow> 'k server \<Rightarrow> 'k server" where
  "srv_setThreadNum num s = s\<lparr>ioThreadCount := num, pool := setThreadNum num (pool s)\<rparr>"

text \<open>A close operation called on loop \<open>main\<close> for the connection at \<open>o'\<close>.\<close>

definition conn_close :: "'k srv_env \<Rightarrow> (bool \<Rightarrow> 'k conn_world \<Rightarrow> 'k conn_world) \<Rightarrow> nat \<Rightarrow> oid \<Rightarrow>
    'k server \<Rightarrow> 'k server res" where
  "conn_close env f main o' s = conn_do env o' (\<lambda>w. Inr (f (loop_of s o' = main) w)) s"

fun close_idle :: "'k srv_env \<Rightarrow> nat \<Rightarrow> oid list \<Rightarrow> 'k server \<Rightarrow> 'k server res" where
  "close_idle env main [] s = Inr s"
| "close_idle env main (o' # os) s = (case objs s o' of None \<Rightarrow> Inl UseAfterFree
     | Some c \<Rightarrow>
         bind_res (if isIdle (heartbeatTimeout s) (now env) c
           then conn_close env (forceClose (ctl env)) main o' s else Inr s) (close_idle env main os))"

definition checkHeartbeats :: "'k srv_env \<Rightarrow> nat \<Rightarrow> 'k server \<Rightarrow> 'k server res" where
  "checkHeartbeats env main s = (let snapshot = getAllConnections s in
     bind_res (close_idle env main snapshot (s\<lparr>held := snapshot\<rparr>)) (\<lambda>s.
       release_all env snapshot (s\<lparr>held := []\<rparr>)))"

definition start_server :: "(nat \<Rightarrow> nat) \<Rightarrow> 'k server \<Rightarrow> 'k server" where
  "start_server start_loop s = (let s = s\<lparr>pool := start_pool start_loop (pool s)\<rparr> in
     if heartbeatTimeout s > 0 then s\<lparr>heartbeat_on := True\<rparr> else s)"

fun close_each :: "'k srv_env \<Rightarrow> nat \<Rightarrow> oid list \<Rightarrow> 'k server \<Rightarrow> 'k server res" where
  "close_each env main [] s = Inr s"
| "close_each env main (o' # os) s =
     bind_res (conn_close env (closeNow (ctl env)) main o' s) (close_each env main os)"

text \<open>
  \<open>stop()\<close> of the pool joins the threads one by one: each loop runs its functors once more (the
  round that \<open>quit\<close> wakes and the call after the loop) and is then gone.
\<close>

fun stop_loops :: "'k srv_env \<Rightarrow> nat list \<Rightarrow> 'k server \<Rightarrow> 'k server res" where
  "stop_loops env [] s = Inr s"
| "stop_loops env (l # ls) s =
     bind_res (loop_pending env l s) (\<lambda>s. bind_res (loop_pending env l s) (\<lambda>s.
       stop_loops env ls (s\<lparr>loop_live := (loop_live s)[l := False]\<rparr>)))"

definition destroy_server :: "'k srv_env \<Rightarrow> nat \<Rightarrow> 'k server \<Rightarrow> 'k server res" where
  "destroy_server env main s =
     (let s = s\<lparr>has_messageCallback := False, has_connectionCallback := False, has_closeCallback := False\<rparr>;
          snapshot = getAllConnections s
      in bind_res (close_each env main snapshot (s\<lparr>held := snapshot\<rparr>)) (\<lambda>s.
         bind_res (release_all env snapshot (s\<lparr>held := []\<rparr>)) (\<lambda>s.
         bind_res (stop_loops env (threads (pool s)) s) (\<lambda>s.
         let s = s\<lparr>pool := stop_pool (pool s)\<rparr>; rest = getAllConnections s in
         release_all env rest (s\<lparr>connections := []\<rparr>)))))"

section \<open>Lemmas\<close>

lemma release_referenced: "referenced o' s \<Longrightarrow> release env o' s = Inr s"
  by (simp add: release_def)

lemma release_all_referenced: "\<forall>o'\<in>set os. referenced o' s \<Longrightarrow> release_all env os s = Inr s"
  by (induction os) (simp_all add: release_referenced)

lemma conn_store_sel [simp]:
  "connections (conn_store o' w s) = connections s" "held (conn_store o' w s) = held s"
  "running (conn_store o' w s) = running s" "loop_of (conn_store o' w s) = loop_of s"
  "objs (conn_store o' w s) = (objs s)(o' \<mapsto> conn w)" "loop_live (conn_store o' w s) = loop_live s"
  "has_closeCallback (conn_store o' w s) = has_closeCallback s"
  "has_messageCallback (conn_store o' w s) = has_messageCallback s"
  "has_connectionCallback (conn_store o' w s) = has_connectionCallback s"
  "heartbeatTimeout (conn_store o' w s) = heartbeatTimeout s" "pool (conn_store o' w s) = pool s"
  by (simp_all add: conn_store_def Let_def)

lemma conn_store_queues: "tasks w = [] \<Longrightarrow> queues (conn_store o' w s) = queues s"
  by (simp add: conn_store_def Let_def)

lemma conn_store_referenced:
  "tasks w = [] \<Longrightarrow> referenced x ((conn_store o' w s)\<lparr>connections := cs\<rparr>) = referenced x (s\<lparr>connections := cs\<rparr>)"
  by (simp add: referenced_def conn_store_queues)

lemma conn_view_sel [simp]:
  "conn (conn_view s o' c) = c" "registry (conn_view s o' c) = regs s ! loop_of s o'"
  "wire (conn_view s o' c) = []" "tasks (conn_view s o' c) = []" "trace (conn_view s o' c) = []"
  by (simp_all add: conn_view_def)

text \<open>A connection that is closed by an operation of its own, with its notes still to be dispatched.\<close>

definition closed_conn :: "tcp \<Rightarrow> tcp" where
  "closed_conn c = c\<lparr>state := kDisconnected, channel := (channel c)\<lparr>events := 0\<rparr>\<rparr>"

lemma handleClose_open:
  assumes "state (conn w) \<noteq> kDisconnected" "has_close (conn w)"
  shows "conn (handleClose ec w) = closed_conn (conn w)" "trace (handleClose ec w) = trace w @ [CloseCalled]"
    and "tasks (handleClose ec w) = tasks w" "wire (handleClose ec w) = wire w"
  using assms by (simp_all add: handleClose_def Let_def closed_conn_def)

text \<open>
  The close callback of the server on the only entry of an object that nothing else refers to:
  the object is destroyed.
\<close>

definition no_close_sends :: "'k srv_env \<Rightarrow> 'k server \<Rightarrow> bool" where
  "no_close_sends env s \<longleftrightarrow> \<not> has_closeCallback s \<or> (\<forall>o' s. app_sends env (AppClose o') s = [])"

lemma onClose_last_reference:
  assumes live: "objs s o' = Some c" and quiet: "no_close_sends env s"
    and only: "map snd (filter (\<lambda>e. fst e = connfd c) (connections s)) = [o']"
    and last: "\<not> referenced o' (s\<lparr>connections := map_erase (connfd c) (connections s)\<rparr>)"
    and none: "events (channel c) = 0"
  obtains s' where "onCloseConnection env o' s = Inr s'" "objs s' o' = None"
    "connections s' = map_erase (connfd c) (connections s)"
proof -
  define t where "t = (if has_closeCallback s then s\<lparr>app_events := app_events s @ [AppClose o']\<rparr> else s)"
  have app: "(if has_closeCallback s then app_call env (loop_of s o') (AppClose o') s else Inr s) = Inr t"
    using quiet by (auto simp: app_call_def t_def no_close_sends_def)
  have t: "objs t = objs s" "connections t = connections s" "referenced o' (t\<lparr>connections := cs\<rparr>) =
      referenced o' (s\<lparr>connections := cs\<rparr>)" for cs
    by (simp_all add: t_def referenced_def)
  let ?u = "t\<lparr>connections := map_erase (connfd c) (connections s)\<rparr>"
  define v where "v = ?u\<lparr>objs := (objs ?u)(o' := None), regs := (regs ?u)[loop_of ?u o' :=
      destroy_channel (ctl env) (self c) (channel c) (regs ?u ! loop_of ?u o')]\<rparr>"
  have "release env o' ?u = Inr v"
    using last t live none by (simp add: release_def isNoneEvent_def v_def)
  then have "onCloseConnection env o' s = Inr v"
    using live app only t by (simp add: onCloseConnection_def Let_def)
  then show thesis by (rule that) (simp_all add: v_def)
qed

section \<open>Properties\<close>

text \<open>C10: Every orderly close by the peer is a use after free.  When the peer of an open connection closes,
  and only the table of the server refers to the connection, \<open>Channel::handleEvent\<close> runs the read
  callback, which reads the end of file, closes the connection and erases the table entry: the
  connection and its channel are destroyed, and \<open>handleEvent\<close> then reads \<open>revents_\<close> of the
  destroyed channel.\<close>

theorem peer_close_uses_freed_channel:
  assumes live: "objs s o' = Some c" and "state c \<noteq> kDisconnected" "has_close c" "buf_inv (input_buffer c)"
    and cb: "readCallback (channel c) = Some ConnRead" and eof: "rd env o' = Delivered []"
    and quiet: "no_close_sends env s"
    and only: "map snd (filter (\<lambda>e. fst e = connfd c) (connections s)) = [o']"
    and last: "\<not> referenced o' (s\<lparr>connections := map_erase (connfd c) (connections s)\<rparr>)"
  shows "loop_event env o' EPOLLIN s = Inl UseAfterFree"
proof -
  define c1 where "c1 = c\<lparr>channel := setRevents EPOLLIN (channel c)\<rparr>"
  define s1 where "s1 = s\<lparr>objs := (objs s)(o' \<mapsto> c1)\<rparr>"
  have c1: "state c1 \<noteq> kDisconnected" "has_close c1" "buf_inv (input_buffer c1)" "connfd c1 = connfd c"
    "readCallback (channel c1) = Some ConnRead" "revents (channel c1) = EPOLLIN"
    using assms by (simp_all add: c1_def setRevents_def)
  have s1: "objs s1 o' = Some c1" "connections s1 = connections s" by (simp_all add: s1_def)
  have law: "readv_law (Delivered []) (input_buffer c1)" by (simp add: readv_law_def)
  obtain b where b: "readFd (Delivered []) (input_buffer c1) = Inr (0, b)"
    using readFd_fifo [OF c1(3) law] by auto
  let ?w = "handleClose (ctl env) ((conn_view s1 o' c1)\<lparr>conn := c1\<lparr>input_buffer := b\<rparr>\<rparr>)"
  have w: "conn ?w = closed_conn (c1\<lparr>input_buffer := b\<rparr>)" "trace ?w = [CloseCalled]" "tasks ?w = []"
    using handleClose_open [of "(conn_view s1 o' c1)\<lparr>conn := c1\<lparr>input_buffer := b\<rparr>\<rparr>" "ctl env"] c1 by simp_all
  have read: "handleRead (ctl env) (rd env o') (now env) (conn_view s1 o' c1) = Inr ?w"
    using b eof by (simp add: handleRead_def)
  let ?s = "conn_store o' ?w s1"
  have fd: "connfd (closed_conn (c1\<lparr>input_buffer := b\<rparr>)) = connfd c"
    "events (channel (closed_conn (c1\<lparr>input_buffer := b\<rparr>))) = 0"
    by (simp_all add: closed_conn_def c1_def)
  have ref: "referenced o' (?s\<lparr>connections := cs\<rparr>) = referenced o' (s\<lparr>connections := cs\<rparr>)" for cs
    unfolding conn_store_referenced [OF w(3)] by (simp add: referenced_def s1_def)
  have live': "objs ?s o' = Some (closed_conn (c1\<lparr>input_buffer := b\<rparr>))" using w(1) by simp
  have quiet': "no_close_sends env ?s" using quiet by (simp add: no_close_sends_def s1_def)
  have only': "map snd (filter (\<lambda>e. fst e = connfd (closed_conn (c1\<lparr>input_buffer := b\<rparr>))) (connections ?s)) = [o']"
    using only s1(2) by (simp only: fd conn_store_sel)
  have last': "\<not> referenced o' (?s\<lparr>connections :=
      map_erase (connfd (closed_conn (c1\<lparr>input_buffer := b\<rparr>))) (connections ?s)\<rparr>)"
    using last s1(2) by (simp only: fd ref conn_store_sel not_False_eq_True)
  obtain s2 where s2: "onCloseConnection env o' ?s = Inr s2" "objs s2 o' = None"
    by (rule onClose_last_reference [OF live' quiet' only' last' fd(2)])
  have "conn_callback env o' ConnRead s1 = Inr s2"
    using s1 read w s2 by (simp add: conn_do_def on_conn_def)
  moreover have "EPOLLIN AND EPOLLERR = 0" "EPOLLIN AND (EPOLLIN OR EPOLLPRI OR EPOLLRDHUP) \<noteq> 0"
    "EPOLLIN AND EPOLLRDHUP = 0"
    by (simp_all add: epoll_masks)
  ultimately have "handleEvent (conn_callback env o') (conn_channel o') s1 = Inl UseAfterFree"
    using s1 s2 c1 by (simp add: handleEvent_def deref_def conn_channel_def handle_error_part_def
        handle_read_part_def call_def del: conn_callback.simps)
  then show ?thesis using live by (simp add: loop_event_def s1_def c1_def)
qed

lemma onClose_still_referenced:
  assumes live: "objs s o' = Some c" and quiet: "no_close_sends env s"
    and only: "map snd (filter (\<lambda>e. fst e = connfd c) (connections s)) = [o']"
    and ref: "referenced o' (s\<lparr>connections := map_erase (connfd c) (connections s)\<rparr>)"
  obtains s' where "onCloseConnection env o' s = Inr s'" "objs s' = objs s" "queues s' = queues s"
    "running s' = running s" "held s' = held s" "loop_of s' = loop_of s"
    "connections s' = map_erase (connfd c) (connections s)"
proof -
  define t where "t = (if has_closeCallback s then s\<lparr>app_events := app_events s @ [AppClose o']\<rparr> else s)"
  have app: "(if has_closeCallback s then app_call env (loop_of s o') (AppClose o') s else Inr s) = Inr t"
    using quiet by (auto simp: app_call_def t_def no_close_sends_def)
  have t: "objs t = objs s" "connections t = connections s" "queues t = queues s" "running t = running s"
    "held t = held s" "loop_of t = loop_of s" "referenced o' (t\<lparr>connections := cs\<rparr>) =
      referenced o' (s\<lparr>connections := cs\<rparr>)" for cs
    by (simp_all add: t_def referenced_def)
  let ?u = "t\<lparr>connections := map_erase (connfd c) (connections s)\<rparr>"
  have "release env o' ?u = Inr ?u" using ref t by (simp add: release_referenced)
  then have "onCloseConnection env o' s = Inr ?u"
    using live app only t by (simp add: onCloseConnection_def Let_def)
  then show thesis by (rule that) (simp_all add: t)
qed

text \<open>The deferred close is the safe one.  When a loop runs the functor that completes a forced close,
  the functor itself keeps the connection alive through the close callback; the connection
  leaves the table, and it is destroyed when the functor is, outside of any of its members.\<close>

theorem deferred_close_frees_safely:
  assumes queue: "l < length (queues s)" "queues s ! l = [ConnTask o' ForceCloseTask]"
    and live: "objs s o' = Some c" and "state c = kDisconnecting" "has_close c"
    and quiet: "no_close_sends env s" and only: "map snd (filter (\<lambda>e. fst e = connfd c) (connections s)) = [o']"
    and last: "\<not> referenced o' (s\<lparr>queues := (queues s)[l := []], running := [],
      connections := map_erase (connfd c) (connections s)\<rparr>)"
  shows "\<exists>s'. loop_pending env l s = Inr s' \<and> objs s' o' = None \<and>
    connections s' = map_erase (connfd c) (connections s)"
proof -
  define s1 where "s1 = s\<lparr>queues := (queues s)[l := []], running := [ConnTask o' ForceCloseTask]\<rparr>"
  let ?w = "handleClose (ctl env) (conn_view s1 o' c)"
  have w: "conn ?w = closed_conn c" "trace ?w = [CloseCalled]" "tasks ?w = []"
    using handleClose_open [of "conn_view s1 o' c" "ctl env"] assms by simp_all
  have run: "run_task (ctl env) (Done 0) ForceCloseTask (conn_view s1 o' c) = Inr ?w"
    using assms by (simp add: forceCloseInLoop_def)
  let ?s = "conn_store o' ?w s1"
  have fd: "connfd (closed_conn c) = connfd c" "events (channel (closed_conn c)) = 0"
    by (simp_all add: closed_conn_def)
  have live': "objs ?s o' = Some (closed_conn c)" using w(1) by simp
  have quiet': "no_close_sends env ?s" using quiet by (simp add: no_close_sends_def s1_def)
  have only': "map snd (filter (\<lambda>e. fst e = connfd (closed_conn c)) (connections ?s)) = [o']"
    using only by (simp add: fd s1_def)
  have ref': "referenced o' (?s\<lparr>connections := map_erase (connfd (closed_conn c)) (connections ?s)\<rparr>)"
    by (simp add: referenced_def s1_def)
  obtain s2 where s2: "onCloseConnection env o' ?s = Inr s2" "objs s2 = objs ?s" "queues s2 = queues ?s"
    "held s2 = held ?s" "connections s2 = map_erase (connfd (closed_conn c)) (connections ?s)"
    by (rule onClose_still_referenced [OF live' quiet' only' ref'])
  have task: "run_srv_task env l (ConnTask o' ForceCloseTask) s1 = Inr s2"
    using run w s2 live by (simp add: conn_do_def on_conn_def s1_def)
  let ?e = "s2\<lparr>running := []\<rparr>"
  have e: "objs ?e o' = Some (closed_conn c)" "queues ?e = (queues s)[l := []]" "held ?e = held s"
    "connections ?e = map_erase (connfd c) (connections s)"
    using s2 w by (simp_all add: conn_store_queues fd) (simp_all add: s1_def)
  have "\<not> referenced o' ?e" using last by (simp add: referenced_def e)
  then have "\<exists>s'. release env o' ?e = Inr s' \<and> objs s' o' = None \<and> connections s' = connections ?e"
    using e(1) fd(2) by (simp add: release_def isNoneEvent_def)
  then show ?thesis using task queue e(4)
    by (auto simp: loop_pending_def Let_def List.map_filter_def s1_def [symmetric])
qed

text \<open>
  A server with one connection, descriptor 5 at address 9 on loop 1, for the witnesses; its peer
  has closed, the clock stands at 5000 and every write accepts everything.
\<close>

definition demo_tcp :: tcp where
  "demo_tcp = (conn demo_conn)\<lparr>has_message := True, has_close := True\<rparr>"

definition demo_pool :: pool where
  "demo_pool = start_pool (\<lambda>i. Suc i) (setThreadNum 1 (new_pool 0))"

definition demo_server :: "interest server" where
  "demo_server = \<lparr>objs = [9 \<mapsto> demo_tcp], loop_of = (\<lambda>o'. 1), regs = [idle_registry, registry demo_conn],
     queues = [[], []], loop_live = [True, True], connections = [(5, 9)], running = [], held = [],
     pool = demo_pool, conn_count = 1, ioThreadCount = 1, heartbeatTimeout = 3000, heartbeatInterval = 2000,
     heartbeat_on = True, has_messageCallback = False, has_connectionCallback = False,
     has_closeCallback = False, app_events = [], sent = (\<lambda>o'. [])\<rparr>"

definition demo_env :: "interest srv_env" where
  "demo_env = \<lparr>ctl = table_ctl, alloc = (\<lambda>s. 10), wr = (\<lambda>o' data. Done (length data)),
     rd = (\<lambda>o'. Delivered []), now = 5000, app_sends = (\<lambda>ev s. [])\<rparr>"

lemma demo_tcp_facts [simp]:
  "state demo_tcp = kConnected" "has_close demo_tcp" "connfd demo_tcp = 5" "self demo_tcp = 9"
  "readCallback (channel demo_tcp) = Some ConnRead" "last_active demo_tcp = 100"
  "buf_inv (input_buffer demo_tcp)" "buf_inv (output_buffer demo_tcp)"
  by (simp_all add: demo_tcp_def demo_conn_def new_conn_def)

lemma demo_server_facts [simp]:
  "objs demo_server = [9 \<mapsto> demo_tcp]" "connections demo_server = [(5, 9)]" "queues demo_server = [[], []]"
  "held demo_server = []" "running demo_server = []" "loop_of demo_server = (\<lambda>o'. 1)"
  "no_close_sends env demo_server"
  by (simp_all add: demo_server_def no_close_sends_def)

lemma peer_close_uses_freed_channel_witness:
  "loop_event demo_env 9 EPOLLIN demo_server = Inl UseAfterFree"
  by (rule peer_close_uses_freed_channel [where c = demo_tcp])
    (simp_all add: referenced_def map_erase_def demo_env_def)

lemma deferred_close_frees_safely_witness:
  "\<exists>s'. loop_pending demo_env 1 (demo_server\<lparr>objs := [9 \<mapsto> demo_tcp\<lparr>state := kDisconnecting\<rparr>],
       queues := [[], [ConnTask 9 ForceCloseTask]]\<rparr>) = Inr s' \<and> objs s' 9 = None \<and> connections s' = []"
proof -
  let ?s = "demo_server\<lparr>objs := [9 \<mapsto> demo_tcp\<lparr>state := kDisconnecting\<rparr>],
       queues := [[], [ConnTask 9 ForceCloseTask]]\<rparr>"
  have "no_close_sends demo_env ?s" by (simp add: no_close_sends_def demo_env_def)
  then show ?thesis
    using deferred_close_frees_safely [of 1 ?s 9 "demo_tcp\<lparr>state := kDisconnecting\<rparr>" demo_env]
    by (simp add: referenced_def map_erase_def)
qed

lemma create_conn_first:
  assumes "connections s = []" "\<not> has_connectionCallback s"
  obtains s' c where "create_conn env l fd s = Inr s'" "connections s' = [(fd, alloc env s)]"
    "objs s' (alloc env s) = Some c" "events (channel c) = EPOLLIN" "loop_of s' (alloc env s) = l"
    "queues s' = queues s" "held s' = held s" "running s' = running s" "loop_live s' = loop_live s"
    "pool s' = pool s"
proof -
  let ?w = "new_conn (ctl env) (alloc env s) fd (conn_count s) (now env) (regs s ! l)"
  let ?c = "(conn ?w)\<lparr>has_message := True, has_close := True\<rparr>"
  define s' where "s' = s\<lparr>objs := (objs s)(alloc env s \<mapsto> ?c), loop_of := (loop_of s)(alloc env s := l),
    regs := (regs s)[l := registry ?w], conn_count := Suc (conn_count s),
    connections := [(fd, alloc env s)], sent := (sent s)(alloc env s := [])\<rparr>"
  have "events (channel ?c) = EPOLLIN" by (simp add: new_conn_def channel_op_defs new_channel_def)
  moreover have "create_conn env l fd s = Inr s'" using assms by (simp add: create_conn_def Let_def s'_def)
  ultimately show thesis using that [of s' ?c] by (simp add: s'_def)
qed

text \<open>C27: The destructor of the server misses a connection whose creation is still queued.  Its snapshot of
  the table is empty; the last round of the joined loop then creates the connection, and when
  the table is destroyed the connection's channel is still registered and touches its loop,
  which no longer exists.\<close>

theorem shutdown_misses_queued_connection:
  assumes table: "connections s = []" "held s = []" "running s = []"
    and loops: "threads (pool s) = [l]" "l < length (queues s)" "l < length (loop_live s)"
    and queue: "queues s ! l = [NewConn fd]" "\<forall>q\<in>set ((queues s)[l := []]). q = []"
  shows "destroy_server env main s = Inl UseAfterFree"
proof -
  define s0 where "s0 = s\<lparr>has_messageCallback := False, has_connectionCallback := False,
    has_closeCallback := False, held := []\<rparr>"
  define s1 where "s1 = s0\<lparr>queues := (queues s)[l := []], running := [NewConn fd]\<rparr>"
  have "connections s1 = []" "\<not> has_connectionCallback s1" using table by (simp_all add: s1_def s0_def)
  then obtain s2 c where s2: "create_conn env l fd s1 = Inr s2" "connections s2 = [(fd, alloc env s1)]"
    "objs s2 (alloc env s1) = Some c" "events (channel c) = EPOLLIN" "loop_of s2 (alloc env s1) = l"
    "queues s2 = queues s1" "held s2 = held s1" "loop_live s2 = loop_live s1" "pool s2 = pool s1"
    by (rule create_conn_first)
  have first: "loop_pending env l s0 = Inr (s2\<lparr>running := []\<rparr>)"
    using queue s2(1) by (simp add: loop_pending_def Let_def s1_def s0_def List.map_filter_def)
  have empty: "queues s2 = (queues s)[l := []]" "queues s2 ! l = []"
    using s2(6) loops by (simp_all add: s1_def)
  define s3 where "s3 = s2\<lparr>running := [], queues := (queues s2)[l := []], loop_live := (loop_live s2)[l := False]\<rparr>"
  have second: "loop_pending env l (s2\<lparr>running := []\<rparr>) =
      Inr (s2\<lparr>running := [], queues := (queues s2)[l := []]\<rparr>)"
    using empty by (simp add: loop_pending_def Let_def List.map_filter_def)
  have stop: "stop_loops env (threads (pool s)) s0 = Inr s3"
    using loops first second by (simp add: s3_def)
  let ?d = "s3\<lparr>pool := stop_pool (pool s3), connections := []\<rparr>"
  have "\<not> referenced (alloc env s1) ?d"
    using s2(7) queue(2) empty table by (auto simp: referenced_def s3_def s1_def s0_def list_ex_iff)
  then have "release env (alloc env s1) ?d = Inl UseAfterFree"
    using s2 loops by (simp add: release_def s3_def isNoneEvent_def s1_def s0_def)
  then show ?thesis using stop table s2(2)
    by (simp add: destroy_server_def Let_def getAllConnections_def s0_def [symmetric])
      (simp add: s3_def s0_def)
qed

lemma shutdown_misses_queued_connection_witness:
  "destroy_server demo_env 0 (demo_server\<lparr>objs := Map.empty, connections := [], queues := [[], [NewConn 7]]\<rparr>)
     = Inl UseAfterFree"
  by (rule shutdown_misses_queued_connection [where l = 1 and fd = 7])
    (simp_all add: demo_server_def demo_pool_def start_pool_def setThreadNum_def new_pool_def Let_def)

definition idle_conn :: "'k srv_env \<Rightarrow> 'k server \<Rightarrow> oid \<Rightarrow> bool" where
  "idle_conn env s o' \<longleftrightarrow> (\<exists>c. objs s o' = Some c \<and> isIdle (heartbeatTimeout s) (now env) c)"

lemma remote_forceClose:
  assumes live: "objs s o' = Some c" and "loop_of s o' \<noteq> main"
  shows "conn_close env (forceClose ec) main o' s =
    Inr (s\<lparr>queues := (queues s)[loop_of s o' := queues s ! loop_of s o' @ [ConnTask o' ForceCloseTask]]\<rparr>)"
proof -
  have "(objs s)(o' \<mapsto> c) = objs s" using live by auto
  then show ?thesis using assms
    by (simp add: conn_close_def conn_do_def on_conn_def forceClose_def conn_store_def
        queue_task_def conn_view_def Let_def)
qed

lemma close_idle_posts:
  "\<forall>o'\<in>set os. objs s o' \<noteq> None \<and> loop_of s o' \<noteq> main \<and> loop_of s o' < length (queues s) \<Longrightarrow>
   \<exists>qs. close_idle env main os s = Inr (s\<lparr>queues := qs\<rparr>) \<and> length qs = length (queues s) \<and>
     (\<forall>l<length qs. qs ! l = queues s ! l @
        map (\<lambda>o'. ConnTask o' ForceCloseTask) (filter (\<lambda>o'. loop_of s o' = l \<and> idle_conn env s o') os))"
proof (induction os arbitrary: s)
  case Nil
  have "s = s\<lparr>queues := queues s\<rparr>" by simp
  then show ?case by (intro exI [of _ "queues s"]) simp
next
  case (Cons o' os)
  then obtain c where c: "objs s o' = Some c" by auto
  show ?case
  proof (cases "isIdle (heartbeatTimeout s) (now env) c")
    case True
    let ?l = "loop_of s o'"
    let ?t = "s\<lparr>queues := (queues s)[?l := queues s ! ?l @ [ConnTask o' ForceCloseTask]]\<rparr>"
    have same: "idle_conn env ?t = idle_conn env s" by (simp add: idle_conn_def fun_eq_iff)
    obtain qs where qs: "close_idle env main os ?t = Inr (?t\<lparr>queues := qs\<rparr>)" "length qs = length (queues s)"
      "\<forall>l<length qs. qs ! l = queues ?t ! l @
         map (\<lambda>o'. ConnTask o' ForceCloseTask) (filter (\<lambda>o'. loop_of s o' = l \<and> idle_conn env s o') os)"
      using Cons.IH [of ?t] Cons.prems unfolding same by auto
    have "close_idle env main (o' # os) s = Inr (s\<lparr>queues := qs\<rparr>)"
      using qs(1) c True Cons.prems by (simp add: remote_forceClose)
    moreover have "idle_conn env s o'" using c True by (simp add: idle_conn_def)
    ultimately show ?thesis using qs(2,3) Cons.prems
      by (intro exI [of _ qs]) (auto simp: nth_list_update)
  next
    case False
    then have "\<not> idle_conn env s o'" using c by (simp add: idle_conn_def)
    then show ?thesis using Cons.IH [of s] Cons.prems c False by simp
  qed
qed

lemma checkHeartbeats_posts:
  assumes live: "\<forall>o'\<in>set (getAllConnections s). objs s o' \<noteq> None \<and> loop_of s o' \<noteq> main \<and>
      loop_of s o' < length (queues s)"
    and held: "held s = []"
  shows "\<exists>qs. checkHeartbeats env main s = Inr (s\<lparr>queues := qs\<rparr>) \<and> length qs = length (queues s) \<and>
    (\<forall>l<length qs. qs ! l = queues s ! l @ map (\<lambda>o'. ConnTask o' ForceCloseTask)
       (filter (\<lambda>o'. loop_of s o' = l \<and> idle_conn env s o') (getAllConnections s)))"
proof -
  let ?all = "getAllConnections s" and ?t = "s\<lparr>held := getAllConnections s\<rparr>"
  have idle: "idle_conn env ?t = idle_conn env s" by (simp add: idle_conn_def fun_eq_iff)
  obtain qs where qs: "close_idle env main ?all ?t = Inr (?t\<lparr>queues := qs\<rparr>)" "length qs = length (queues s)"
    "\<forall>l<length qs. qs ! l = queues s ! l @ map (\<lambda>o'. ConnTask o' ForceCloseTask)
       (filter (\<lambda>o'. loop_of s o' = l \<and> idle_conn env ?t o') ?all)"
    using close_idle_posts [of ?all ?t main env] live by auto
  let ?u = "?t\<lparr>queues := qs, held := []\<rparr>"
  have "release_all env ?all ?u = Inr ?u"
    by (rule release_all_referenced) (auto simp: referenced_def getAllConnections_def)
  moreover have "?u = s\<lparr>queues := qs\<rparr>" using held by (cases s) simp
  ultimately have "checkHeartbeats env main s = Inr (s\<lparr>queues := qs\<rparr>)"
    using qs(1) by (simp add: checkHeartbeats_def Let_def)
  then show ?thesis using qs(2,3) unfolding idle by blast
qed



end
