(* ===== verification/Server_Memory.thy ===== *)
theory Server_Memory
  imports Server
begin

text \<open>
  The well-formed states of the server (\<open>reactor/Server.cpp\<close>): every connection object that a
  \<open>shared_ptr\<close> refers to exists, every object that exists is referred to, and the table is ordered by
  descriptor and its entries are the connections with these descriptors.  A small calculus
  (\<open>keeps\<close>) shows it for each operation, then for every reachable state of the server.
\<close>

section \<open>Well-formed states\<close>

text \<open>
  \<open>X\<close> are objects whose last reference may just have been dropped and that are about to be released.
\<close>

definition srv_refs :: "oid set \<Rightarrow> 'k server \<Rightarrow> bool" where
  "srv_refs X s \<longleftrightarrow> (\<forall>x. (referenced x s \<longrightarrow> objs s x \<noteq> None) \<and>
     (objs s x \<noteq> None \<longrightarrow> referenced x s \<or> x \<in> X))"

definition srv_table :: "'k server \<Rightarrow> bool" where
  "srv_table s \<longleftrightarrow> sorted_wrt (<) (map fst (connections s)) \<and>
     (\<forall>(fd, x)\<in>set (connections s). map_option connfd (objs s x) = Some fd)"

definition srv_ok :: "oid set \<Rightarrow> 'k server \<Rightarrow> bool" where
  "srv_ok X s \<longleftrightarrow> srv_refs X s \<and> srv_table s \<and> finite (dom (objs s))"

definition srv_wf :: "'k server \<Rightarrow> bool" where
  "srv_wf s \<longleftrightarrow> srv_ok {} s \<and> held s = [] \<and> running s = []"

text \<open>What no handler changes: the references of the functions below it, the loops and their threads.\<close>

definition srv_size :: "'k server \<Rightarrow> nat \<times> nat list" where
  "srv_size s = (length (queues s), threads (pool s))"

definition srv_frame :: "'k server \<Rightarrow> 'k server \<Rightarrow> bool" where
  "srv_frame s t \<longleftrightarrow> held t = held s \<and> running t = running s \<and> srv_size t = srv_size s"

definition keeps :: "'k server \<Rightarrow> 'k server res \<Rightarrow> bool" where
  "keeps s r \<longleftrightarrow> (\<forall>t. r = Inr t \<longrightarrow> srv_frame s t \<and> (\<forall>X. srv_ok X s \<longrightarrow> srv_ok X t))"

section \<open>The calculus\<close>

lemma keepsI: "(\<And>t. r = Inr t \<Longrightarrow> srv_frame s t \<and> (\<forall>X. srv_ok X s \<longrightarrow> srv_ok X t)) \<Longrightarrow> keeps s r"
  by (simp add: keeps_def)

lemma keepsD: "keeps s (Inr t) \<Longrightarrow> srv_frame s t" "keeps s (Inr t) \<Longrightarrow> srv_ok X s \<Longrightarrow> srv_ok X t"
  by (simp_all add: keeps_def)

lemma keeps_basic [simp]: "keeps s (Inr s)" "keeps s (Inl e)"
  by (simp_all add: keeps_def srv_frame_def srv_size_def)

lemma keeps_trans: "keeps s (Inr t) \<Longrightarrow> keeps t r \<Longrightarrow> keeps s r"
  by (auto simp: keeps_def srv_frame_def srv_size_def)

lemma keeps_bind: "keeps s m \<Longrightarrow> (\<And>t. m = Inr t \<Longrightarrow> keeps t (f t)) \<Longrightarrow> keeps s (bind_res m f)"
  by (cases m) (auto intro: keeps_trans)

lemma keeps_view:
  "objs t = objs s \<Longrightarrow> connections t = connections s \<Longrightarrow> held t = held s \<Longrightarrow> running t = running s \<Longrightarrow>
   queues t = queues s \<Longrightarrow> threads (pool t) = threads (pool s) \<Longrightarrow> keeps s (Inr t)"
  by (simp add: keeps_def srv_frame_def srv_size_def srv_ok_def srv_refs_def srv_table_def referenced_def)

lemma list_ex_append_at:
  "list_ex (\<lambda>q. a \<in> f ` set q) (Q[l := Q ! l @ ys]) \<longleftrightarrow>
   list_ex (\<lambda>q. a \<in> f ` set q) Q \<or> (l < length Q \<and> a \<in> f ` set ys)"
proof (induction Q arbitrary: l)
  case (Cons q Q)
  then show ?case by (cases l) auto
qed simp

lemma list_ex_clear_at:
  "l < length Q \<Longrightarrow> list_ex (\<lambda>q. a \<in> f ` set q) (Q[l := []]) \<or> a \<in> f ` set (Q ! l) \<longleftrightarrow>
   list_ex (\<lambda>q. a \<in> f ` set q) Q"
proof (induction Q arbitrary: l)
  case (Cons q Q)
  then show ?case by (cases l) auto
qed simp

lemma referenced_iff: "referenced x s \<longleftrightarrow> x \<in> snd ` set (connections s) \<or> x \<in> set (held s) \<or>
   Some x \<in> task_conn ` set (running s) \<or> list_ex (\<lambda>q. Some x \<in> task_conn ` set q) (queues s)"
  by (simp add: referenced_def)

section \<open>Release\<close>

lemma release_cases:
  assumes "release env o' s = Inr t"
  obtains (stays) "t = s" "referenced o' s \<or> objs s o' = None"
  | (freed) lps where "\<not> referenced o' s" "t = s\<lparr>objs := (objs s)(o' := None), regs := lps\<rparr>"
  using assms by (cases "referenced o' s"; cases "objs s o'") (auto simp: release_def split: if_splits)

lemma release_drops:
  assumes "release env o' s = Inr t"
  shows "srv_frame s t" "srv_ok (insert o' X) s \<Longrightarrow> srv_ok X t" "srv_ok X s \<Longrightarrow> srv_ok X t"
proof -
  have "srv_frame s t \<and> (srv_ok (insert o' X) s \<longrightarrow> srv_ok X t) \<and> (srv_ok X s \<longrightarrow> srv_ok X t)"
    using assms
  proof (cases rule: release_cases)
    case stays
    then show ?thesis by (auto simp: srv_frame_def srv_size_def srv_ok_def srv_refs_def)
  next
    case freed
    have "srv_table t" if "srv_table s"
    proof -
      have "x \<noteq> o'" if "(fd, x) \<in> set (connections s)" for fd x
        using freed(1) that by (force simp: referenced_iff)
      then show ?thesis using that freed(2) by (auto simp: srv_table_def)
    qed
    moreover have "referenced x t \<longleftrightarrow> referenced x s" for x using freed(2) by (simp add: referenced_def)
    ultimately show ?thesis using freed by (auto simp: srv_frame_def srv_size_def srv_ok_def srv_refs_def)
  qed
  then show "srv_frame s t" "srv_ok (insert o' X) s \<Longrightarrow> srv_ok X t" "srv_ok X s \<Longrightarrow> srv_ok X t" by blast+
qed

lemma release_all_drops:
  "release_all env os s = Inr t \<Longrightarrow> srv_frame s t \<and> (\<forall>X. srv_ok (set os \<union> X) s \<longrightarrow> srv_ok X t)"
proof (induction os arbitrary: s)
  case Nil
  then show ?case by (simp add: srv_frame_def srv_size_def)
next
  case (Cons o' os)
  then obtain u where u: "release env o' s = Inr u" "release_all env os u = Inr t"
    by (auto simp: bind_res_eq_Inr)
  have "srv_ok (set os \<union> X) u" if "srv_ok (set (o' # os) \<union> X) s" for X
    using release_drops(2) [OF u(1)] that by simp
  then show ?case using Cons.IH [OF u(2)] release_drops(1) [OF u(1)] by (auto simp: srv_frame_def)
qed

lemma keeps_release_all:
  assumes "\<And>X. srv_ok X s \<Longrightarrow> srv_ok (set os \<union> X) t" "srv_frame s t"
  shows "keeps s (release_all env os t)"
  using release_all_drops [of env os t] assms by (intro keepsI) (auto simp: srv_frame_def)

section \<open>Operations of a connection\<close>

definition keeps_fd :: "('k conn_world \<Rightarrow> 'k conn_world res) \<Rightarrow> bool" where
  "keeps_fd f \<longleftrightarrow> (\<forall>w w'. f w = Inr w' \<longrightarrow> connfd (conn w') = connfd (conn w))"

lemma keeps_fdD: "keeps_fd f \<Longrightarrow> f w = Inr w' \<Longrightarrow> connfd (conn w') = connfd (conn w)"
  by (simp add: keeps_fd_def)

lemma connfd_simps [simp]:
  "connfd (conn (note_that x w)) = connfd (conn w)" "connfd (conn (queue_task t w)) = connfd (conn w)"
  "connfd (conn (on_channel g w)) = connfd (conn w)" "connfd (conn (write_complete w)) = connfd (conn w)"
  "connfd (conn (handleClose ec w)) = connfd (conn w)"
  by (simp_all add: note_that_def queue_task_def on_channel_def write_complete_def handleClose_def case_prod_beta Let_def)

lemma connfd_closes [simp]:
  "connfd (conn (forceCloseInLoop ec w)) = connfd (conn w)" "connfd (conn (forceClose ec b w)) = connfd (conn w)"
  "connfd (conn (closeNow ec b w)) = connfd (conn w)" "connfd (conn (shutdownInLoop ans w)) = connfd (conn w)"
  "connfd (conn (handleError w)) = connfd (conn w)"
  by (simp_all add: forceCloseInLoop_def forceClose_def closeNow_def shutdownInLoop_def handleError_def
      split: io_answer.split)

lemma keeps_fd_sendInLoop: "keeps_fd (sendInLoop ec ans data)"
  by (auto simp: keeps_fd_def sendInLoop_def try_write_def bind_res_eq_Inr Let_def
      split: if_splits option.splits io_answer.splits)

lemma keeps_fd_send: "keeps_fd (send ec b ans data)"
  unfolding keeps_fd_def by (auto simp: send_def dest: keeps_fdD [OF keeps_fd_sendInLoop] split: if_splits)

lemma keeps_fd_task: "keeps_fd (run_task ec ans t)"
  unfolding keeps_fd_def by (cases t) (auto dest: keeps_fdD [OF keeps_fd_sendInLoop] split: if_splits)

lemma keeps_fd_read: "keeps_fd (handleRead ec ans clk)"
  by (auto simp: keeps_fd_def handleRead_def bind_res_eq_Inr Let_def split: if_splits)

lemma keeps_fd_write: "keeps_fd (handleWrite ec ans)"
proof (cases "\<exists>n. ans = Done (Suc n)")
  case True
  then obtain n where "ans = Done (Suc n)" ..
  then show ?thesis by (auto simp: keeps_fd_def handleWrite_def Let_def bind_res_eq_Inr split: if_splits)
next
  case False
  then have "(case ans of Done (Suc n) \<Rightarrow> f n | _ \<Rightarrow> r) = r" for f and r :: "'a conn_world res"
    by (simp split: io_answer.split nat.split)
  then show ?thesis by (auto simp: keeps_fd_def handleWrite_def Let_def bind_res_eq_Inr split: if_splits)
qed

lemma keeps_fd_pure: "(\<And>w. connfd (conn (f w)) = connfd (conn w)) \<Longrightarrow> keeps_fd (\<lambda>w. Inr (f w))"
  by (simp add: keeps_fd_def)

lemma conn_store_keeps:
  assumes c: "objs s o' = Some c" "connfd (conn w) = connfd c"
  shows "keeps s (Inr (conn_store o' w s))"
proof -
  have ref: "referenced x (conn_store o' w s) \<longleftrightarrow> referenced x s \<or>
      (x = o' \<and> loop_of s o' < length (queues s) \<and> tasks w \<noteq> [])" for x
  proof -
    have q: "queues (conn_store o' w s) =
        (queues s)[loop_of s o' := queues s ! loop_of s o' @ map (ConnTask o') (tasks w)]"
      by (simp add: conn_store_def Let_def)
    show ?thesis unfolding referenced_iff q list_ex_append_at by (cases "tasks w") auto
  qed
  have "map_option connfd (objs (conn_store o' w s) x) = map_option connfd (objs s x)" for x
    using c by simp
  moreover have "objs (conn_store o' w s) x \<noteq> None \<longleftrightarrow> objs s x \<noteq> None" for x using c by simp
  ultimately have "srv_ok X s \<Longrightarrow> srv_ok X (conn_store o' w s)" for X
    using ref c(1) unfolding srv_ok_def srv_refs_def srv_table_def by auto
  then show ?thesis by (simp add: keeps_def srv_frame_def srv_size_def) (simp add: conn_store_def Let_def)
qed

lemma on_conn_keeps:
  assumes "on_conn o' f s = Inr (ns, t)" "keeps_fd f"
  shows "keeps s (Inr t)"
  using assms conn_store_keeps by (fastforce simp: on_conn_def keeps_fd_def bind_res_eq_Inr split: option.splits)

lemma conn_send_keeps: "keeps s (conn_send env l o' data s)"
  unfolding conn_send_def
  by (cases "on_conn o' (send (ctl env) (loop_of s o' = l) (wr env o' data) data) s")
    (auto intro: on_conn_keeps [OF _ keeps_fd_send])

lemma app_call_keeps: "keeps s (app_call env l ev s)"
proof -
  have "keeps s r \<Longrightarrow> keeps s (fold (\<lambda>(o', data) r. bind_res r (conn_send env l o' data)) xs r)" for xs r
    by (induction xs arbitrary: r) (auto intro!: keeps_bind conn_send_keeps)
  moreover have "keeps s (Inr (s\<lparr>app_events := app_events s @ [ev]\<rparr>))" by (rule keeps_view) simp_all
  ultimately show ?thesis by (simp add: app_call_def Let_def)
qed
section \<open>Callbacks and events\<close>

lemma sorted_erase: "sorted_wrt (<) (map fst m) \<Longrightarrow> sorted_wrt (<) (map fst (map_erase k m))"
  by (induction m) (auto simp: map_erase_def)

lemma erase_drops:
  assumes "srv_ok X s"
  shows "srv_ok (set (map snd (filter (\<lambda>e. fst e = fd) (connections s))) \<union> X)
    (s\<lparr>connections := map_erase fd (connections s)\<rparr>)"
proof -
  let ?t = "s\<lparr>connections := map_erase fd (connections s)\<rparr>"
  have "snd ` set (connections s) = snd ` set (map_erase fd (connections s)) \<union> snd ` {e \<in> set (connections s). fst e = fd}"
    unfolding image_Un [symmetric] by (rule arg_cong [of _ _ "image snd"]) (auto simp: map_erase_def)
  then have ref: "referenced x s \<longleftrightarrow> referenced x ?t \<or> x \<in> snd ` {e \<in> set (connections s). fst e = fd}" for x
    unfolding referenced_iff by auto
  then have "srv_refs (set (map snd (filter (\<lambda>e. fst e = fd) (connections s))) \<union> X) ?t"
    using assms unfolding srv_ok_def srv_refs_def by auto
  moreover have "srv_table ?t"
    using assms sorted_erase [of "connections s" fd] by (auto simp: srv_ok_def srv_table_def map_erase_def)
  ultimately show ?thesis using assms by (simp add: srv_ok_def)
qed

lemma onMessage_keeps: "keeps s (onMessage env o' s)"
  by (simp add: onMessage_def app_call_keeps)

lemma onCloseConnection_keeps: "keeps s (onCloseConnection env o' s)"
proof (cases "objs s o'")
  case (Some c)
  have "keeps t (release_all env (map snd (filter (\<lambda>e. fst e = connfd c) (connections t)))
      (t\<lparr>connections := map_erase (connfd c) (connections t)\<rparr>))" for t :: "'a server"
    by (rule keeps_release_all [OF erase_drops]) (simp_all add: srv_frame_def srv_size_def)
  then show ?thesis using Some
    by (auto simp: onCloseConnection_def Let_def intro!: keeps_bind app_call_keeps)
qed (simp add: onCloseConnection_def)

lemma dispatch_note_keeps: "keeps s (dispatch_note env o' n s)"
  by (cases n) (simp_all add: onMessage_keeps onCloseConnection_keeps)

lemma dispatch_notes_keeps: "keeps s (dispatch_notes env o' ns s)"
  by (induction ns arbitrary: s) (auto intro!: keeps_bind dispatch_note_keeps)

lemma conn_do_keeps: "keeps_fd f \<Longrightarrow> keeps s (conn_do env o' f s)"
  unfolding conn_do_def
  by (cases "on_conn o' f s") (auto intro: keeps_trans [OF on_conn_keeps dispatch_notes_keeps])

lemma conn_callback_keeps: "keeps s (conn_callback env o' cb s)"
  by (cases cb) (auto split: option.split intro!: conn_do_keeps keeps_fd_read keeps_fd_write keeps_fd_pure)

lemma handleEvent_keeps:
  assumes run: "\<And>cb s. keeps s (run cb s)"
  shows "keeps s (handleEvent run get s)"
proof -
  have call: "keeps s (Poller.call run cb s)" for cb s using run by (simp add: call_def split: option.split)
  have part: "keeps s (bind_res (deref get s) (\<lambda>ch. if P ch then Poller.call run (cb ch) s else Inr s))" for P cb s
    using call by (cases "get s") (simp_all add: deref_def)
  have "keeps s (bind_res (deref get s) (\<lambda>ch. handle_error_part run ch s))"
    "keeps s (bind_res (deref get s) (\<lambda>ch. handle_read_part run ch s))"
    "keeps s (bind_res (deref get s) (\<lambda>ch. handle_write_part run ch s))"
    "keeps s (bind_res (deref get s) (\<lambda>ch. handle_hup_part run ch s))" for s
    using call by (cases "get s", simp_all add: deref_def handle_error_part_def handle_read_part_def
      handle_write_part_def handle_hup_part_def)+
  then show ?thesis unfolding handleEvent_def by (intro keeps_bind)
qed

lemma modify_conn_keeps:
  "objs s o' = Some c \<Longrightarrow> connfd c' = connfd c \<Longrightarrow> keeps s (Inr (s\<lparr>objs := (objs s)(o' \<mapsto> c')\<rparr>))"
  by (auto simp: keeps_def srv_frame_def srv_size_def srv_ok_def srv_refs_def srv_table_def referenced_def)

lemma loop_event_keeps: "keeps s (loop_event env o' ev s)"
proof (cases "objs s o'")
  case (Some c)
  then have "keeps s (Inr (s\<lparr>objs := (objs s)(o' \<mapsto> c\<lparr>channel := setRevents ev (channel c)\<rparr>)\<rparr>))"
    by (intro modify_conn_keeps) simp_all
  from keeps_trans [OF this handleEvent_keeps [OF conn_callback_keeps]] show ?thesis
    using Some by (simp add: loop_event_def)
qed (simp add: loop_event_def)

section \<open>New connections and functors\<close>

text \<open>\<open>new\<close> does not return the address of an object that exists.\<close>

definition fresh_env :: "'k srv_env \<Rightarrow> bool" where
  "fresh_env env \<longleftrightarrow> (\<forall>s. finite (dom (objs s)) \<longrightarrow> objs s (alloc env s) = None)"

lemma map_put_set:
  "sorted_wrt (<) (map fst m) \<Longrightarrow> set (map_put k v m) = insert (k, v) {e \<in> set m. fst e \<noteq> k}"
proof (induction k v m rule: map_put.induct)
  case (2 k v k' v' m)
  then show ?case by (cases k k' rule: linorder_cases) fastforce+
qed simp

lemma map_put_sorted:
  "sorted_wrt (<) (map fst m) \<Longrightarrow> sorted_wrt (<) (map fst (map_put k v m))"
proof (induction k v m rule: map_put.induct)
  case (2 k v k' v' m)
  then show ?case using map_put_set [of m k v] by (cases k k' rule: linorder_cases) fastforce+
qed simp
text \<open>The state in which a new connection is in the table and nothing has been released or called yet.\<close>

definition created :: "'k srv_env \<Rightarrow> nat \<Rightarrow> fd \<Rightarrow> 'k server \<Rightarrow> 'k server" where
  "created env l fd s = (let o' = alloc env s; w = new_conn (ctl env) o' fd (conn_count s) (now env) (regs s ! l) in
     s\<lparr>objs := (objs s)(o' \<mapsto> (conn w)\<lparr>has_message := True, has_close := True\<rparr>), loop_of := (loop_of s)(o' := l),
       regs := (regs s)[l := registry w], conn_count := Suc (conn_count s),
       connections := map_put fd o' (connections s), sent := (sent s)(o' := [])\<rparr>)"

definition replaced :: "fd \<Rightarrow> 'k server \<Rightarrow> oid list" where
  "replaced fd s = map snd (filter (\<lambda>e. fst e = fd) (connections s))"

lemma create_conn_created:
  "create_conn env l fd s = bind_res (release_all env (replaced fd s) (created env l fd s))
     (\<lambda>t. if has_connectionCallback t then app_call env l (AppConnection (alloc env s)) t else Inr t)"
  by (simp add: create_conn_def created_def replaced_def Let_def)

lemma created_sel [simp]:
  "held (created env l fd s) = held s" "running (created env l fd s) = running s"
  "queues (created env l fd s) = queues s" "connections (created env l fd s) = map_put fd (alloc env s) (connections s)"
  "loop_of (created env l fd s) = (loop_of s)(alloc env s := l)" "pool (created env l fd s) = pool s"
  by (simp_all add: created_def Let_def)

lemma created_ok:
  assumes fresh: "fresh_env env" and ok: "srv_ok X s"
  shows "srv_ok (set (replaced fd s) \<union> X) (created env l fd s)"
proof -
  let ?o = "alloc env s"
  define t where "t = created env l fd s"
  have new: "objs s ?o = None" using fresh ok by (simp add: fresh_env_def srv_ok_def)
  have sorted: "sorted_wrt (<) (map fst (connections s))" using ok by (simp add: srv_ok_def srv_table_def)
  have set: "set (connections t) = insert (fd, ?o) {e \<in> set (connections s). fst e \<noteq> fd}"
    using map_put_set [OF sorted] by (simp add: t_def)
  have nref: "\<not> referenced ?o s" using ok new unfolding srv_ok_def srv_refs_def by blast
  have gone: "set (replaced fd s) = snd ` {e \<in> set (connections s). fst e = fd}" by (auto simp: replaced_def)
  have split: "snd ` set (connections s) = snd ` {e \<in> set (connections s). fst e \<noteq> fd} \<union> set (replaced fd s)"
    unfolding gone image_Un [symmetric] by (rule arg_cong [of _ _ "image snd"]) auto
  have "snd ` set (connections t) = insert ?o (snd ` {e \<in> set (connections s). fst e \<noteq> fd})"
    unfolding set by simp
  moreover have "held t = held s" "running t = running s" "queues t = queues s" by (simp_all add: t_def)
  ultimately have ref: "referenced x t \<longleftrightarrow> x = ?o \<or> x \<in> snd ` {e \<in> set (connections s). fst e \<noteq> fd} \<or>
      x \<in> set (held s) \<or> Some x \<in> task_conn ` set (running s) \<or>
      list_ex (\<lambda>q. Some x \<in> task_conn ` set q) (queues s)" for x
    by (simp only: referenced_iff) blast
  have old: "referenced x t \<Longrightarrow> x \<noteq> ?o \<Longrightarrow> referenced x s" for x
    unfolding ref by (auto simp only: referenced_iff split)
  have kept: "referenced x s \<Longrightarrow> referenced x t \<or> x \<in> set (replaced fd s)" for x
    unfolding ref by (auto simp only: referenced_iff split)
  have objs: "objs t x \<noteq> None \<longleftrightarrow> x = ?o \<or> objs s x \<noteq> None" for x by (simp add: t_def created_def Let_def)
  have "srv_refs (set (replaced fd s) \<union> X) t"
    unfolding srv_refs_def objs using ref old kept ok unfolding srv_ok_def srv_refs_def by blast
  moreover have "(d, ?o) \<notin> set (connections s)" for d using nref by (force simp: referenced_iff)
  then have "srv_table t"
    using ok set map_put_sorted [OF sorted]
    by (auto simp: srv_ok_def srv_table_def t_def) (auto simp: created_def new_conn_def Let_def split: if_splits)
  moreover have "finite (dom (objs t))" using ok by (simp add: srv_ok_def t_def created_def Let_def)
  ultimately show ?thesis by (simp add: srv_ok_def t_def)
qed

lemma create_conn_keeps:
  assumes fresh: "fresh_env env"
  shows "keeps s (create_conn env l fd s)"
proof -
  have "srv_frame s (created env l fd s)" by (simp add: srv_frame_def srv_size_def)
  then have "keeps s (release_all env (replaced fd s) (created env l fd s))"
    by (intro keeps_release_all created_ok [OF fresh])
  then show ?thesis unfolding create_conn_created by (rule keeps_bind) (simp add: app_call_keeps)
qed

lemma run_srv_task_keeps: "fresh_env env \<Longrightarrow> keeps s (run_srv_task env l t s)"
  by (cases t) (auto simp: create_conn_keeps split: conn_task.split intro!: conn_do_keeps keeps_fd_task simp del: run_task.simps)

lemma run_srv_tasks_keeps: "fresh_env env \<Longrightarrow> keeps s (run_srv_tasks env l ts s)"
  by (induction ts arbitrary: s) (auto intro!: keeps_bind run_srv_task_keeps)

lemma onNewConnection_keeps:
  assumes "fresh_env env"
  shows "keeps s (onNewConnection env main fd s)"
proof (cases "getNextLoop (pool s)")
  case (Inr r)
  obtain l p where r: "r = (l, p)" by (cases r)
  have threads: "threads p = threads (pool s)" using Inr r by (auto simp: getNextLoop_def split: if_splits)
  have p: "keeps s (Inr (s\<lparr>pool := p\<rparr>))" by (rule keeps_view) (simp_all add: threads)
  have "srv_ok X s \<Longrightarrow> srv_ok X (s\<lparr>pool := p, queues := (queues s)[l := queues s ! l @ [NewConn fd]]\<rparr>)" for X
    unfolding srv_ok_def srv_refs_def referenced_iff by (simp add: list_ex_append_at srv_table_def)
  then have "keeps s (Inr (s\<lparr>pool := p, queues := (queues s)[l := queues s ! l @ [NewConn fd]]\<rparr>))"
    by (simp add: keeps_def srv_frame_def srv_size_def threads)
  then show ?thesis using Inr r keeps_trans [OF p create_conn_keeps [OF assms]] by (simp add: onNewConnection_def Let_def)
qed (simp add: onNewConnection_def)

section \<open>Whole operations\<close>

lemma srv_okI:
  "srv_ok X s \<Longrightarrow> (\<And>x. referenced x s \<longleftrightarrow> referenced x t \<or> x \<in> Y) \<Longrightarrow> objs t = objs s \<Longrightarrow>
   connections t = connections s \<Longrightarrow> srv_ok (Y \<union> X) t"
  unfolding srv_ok_def srv_refs_def srv_table_def by auto

lemma set_task_conns: "x \<in> set (List.map_filter task_conn b) \<longleftrightarrow> Some x \<in> task_conn ` set b"
  by (induction b) (auto simp: List.map_filter_simps split: option.split)

lemma loop_pending_wf:
  assumes "fresh_env env" "srv_wf s" "l < length (queues s)" "loop_pending env l s = Inr t"
  shows "srv_wf t" "srv_size t = srv_size s"
proof -
  let ?batch = "queues s ! l"
  let ?s = "s\<lparr>queues := (queues s)[l := []], running := ?batch\<rparr>"
  have wf: "srv_ok {} s" "held s = []" "running s = []" using assms(2) by (simp_all add: srv_wf_def)
  have "referenced x s \<longleftrightarrow> referenced x ?s" for x
    using list_ex_clear_at [OF assms(3), of "Some x" task_conn] wf(2,3) by (auto simp: referenced_iff)
  then have s: "srv_ok {} ?s" using srv_okI [OF wf(1), of ?s "{}"] by simp
  obtain u where u: "run_srv_tasks env l ?batch ?s = Inr u"
    "release_all env (List.map_filter task_conn ?batch) (u\<lparr>running := []\<rparr>) = Inr t"
    using assms(4) by (auto simp: loop_pending_def Let_def bind_res_eq_Inr)
  have k: "srv_frame ?s u" "srv_ok {} u"
    using keepsD [of ?s u] run_srv_tasks_keeps [OF assms(1), of ?s l ?batch] u(1) s by auto
  have "referenced x u \<longleftrightarrow> referenced x (u\<lparr>running := []\<rparr>) \<or> x \<in> set (List.map_filter task_conn ?batch)" for x
    using k(1) by (auto simp: srv_frame_def referenced_iff set_task_conns)
  then have "srv_ok (set (List.map_filter task_conn ?batch) \<union> {}) (u\<lparr>running := []\<rparr>)"
    by (intro srv_okI [OF k(2)]) simp_all
  with release_all_drops [OF u(2)] k(1) wf(2)
  show "srv_wf t" "srv_size t = srv_size s" by (auto simp: srv_wf_def srv_frame_def srv_size_def)
qed

lemma release_held_wf:
  assumes "srv_ok {} s" "held s = os" "running s = []" "release_all env os (s\<lparr>held := []\<rparr>) = Inr t"
  shows "srv_wf t" "srv_size t = srv_size s"
proof -
  have "referenced x s \<longleftrightarrow> referenced x (s\<lparr>held := []\<rparr>) \<or> x \<in> set os" for x
    using assms(2) by (auto simp: referenced_iff)
  then have "srv_ok (set os \<union> {}) (s\<lparr>held := []\<rparr>)" by (intro srv_okI [OF assms(1)]) simp_all
  with release_all_drops [OF assms(4)] assms(3)
  show "srv_wf t" "srv_size t = srv_size s" by (auto simp: srv_wf_def srv_frame_def srv_size_def)
qed

lemma hold_snapshot:
  assumes "srv_wf s"
  shows "srv_ok {} (s\<lparr>held := getAllConnections s\<rparr>)"
proof -
  have "referenced x s \<longleftrightarrow> referenced x (s\<lparr>held := getAllConnections s\<rparr>)" for x
    using assms by (auto simp: srv_wf_def referenced_iff getAllConnections_def)
  then show ?thesis using assms srv_okI [of "{}" s "s\<lparr>held := getAllConnections s\<rparr>" "{}"] by (simp add: srv_wf_def)
qed

lemma conn_close_keeps: "(\<And>b w. connfd (conn (f b w)) = connfd (conn w)) \<Longrightarrow> keeps s (conn_close env f main o' s)"
  unfolding conn_close_def by (intro conn_do_keeps keeps_fd_pure)

lemma close_idle_keeps: "keeps s (close_idle env main os s)"
  by (induction os arbitrary: s) (auto split: option.split intro!: keeps_bind conn_close_keeps)

lemma close_each_keeps: "keeps s (close_each env main os s)"
  by (induction os arbitrary: s) (auto intro!: keeps_bind conn_close_keeps)

text \<open>A loop over a snapshot of the table that the function holds.\<close>

lemma snapshot_wf:
  assumes "srv_wf s" and f: "\<And>s. keeps s (f s)"
    and run: "bind_res (f (s\<lparr>held := getAllConnections s\<rparr>)) (\<lambda>u. release_all env (getAllConnections s) (u\<lparr>held := []\<rparr>)) = Inr t"
  shows "srv_wf t" "srv_size t = srv_size s"
proof -
  obtain u where u: "f (s\<lparr>held := getAllConnections s\<rparr>) = Inr u"
    "release_all env (getAllConnections s) (u\<lparr>held := []\<rparr>) = Inr t"
    using run by (auto simp: bind_res_eq_Inr)
  have "srv_ok {} u" "held u = getAllConnections s" "running u = []" "srv_size u = srv_size s"
    using keepsD [of "s\<lparr>held := getAllConnections s\<rparr>" u] f [of "s\<lparr>held := getAllConnections s\<rparr>"] u(1)
      hold_snapshot [OF assms(1)] assms(1) by (auto simp: srv_frame_def srv_wf_def srv_size_def)
  with release_held_wf [of u "getAllConnections s" env t] u(2)
  show "srv_wf t" "srv_size t = srv_size s" by simp_all
qed

lemma checkHeartbeats_wf:
  "srv_wf s \<Longrightarrow> checkHeartbeats env main s = Inr t \<Longrightarrow> srv_wf t \<and> srv_size t = srv_size s"
  using snapshot_wf [of s "close_idle env main (getAllConnections s)" env t] close_idle_keeps
  by (auto simp: checkHeartbeats_def Let_def)
lemma srv_wf_view:
  "srv_wf s \<Longrightarrow> objs t = objs s \<Longrightarrow> connections t = connections s \<Longrightarrow> held t = held s \<Longrightarrow>
   running t = running s \<Longrightarrow> queues t = queues s \<Longrightarrow> srv_wf t"
proof -
  assume s: "srv_wf s" and t: "objs t = objs s" "connections t = connections s" "held t = held s"
    "running t = running s" "queues t = queues s"
  then have "referenced x t \<longleftrightarrow> referenced x s" for x by (simp add: referenced_def)
  then show "srv_wf t" using s t by (auto simp: srv_wf_def srv_ok_def srv_refs_def srv_table_def)
qed

lemma stop_loops_wf:
  assumes "fresh_env env"
  shows "srv_wf s \<Longrightarrow> \<forall>l\<in>set ls. l < length (queues s) \<Longrightarrow> stop_loops env ls s = Inr t \<Longrightarrow>
    srv_wf t \<and> srv_size t = srv_size s"
proof (induction ls arbitrary: s)
  case (Cons l ls)
  obtain u v where u: "loop_pending env l s = Inr u" "loop_pending env l u = Inr v"
    "stop_loops env ls (v\<lparr>loop_live := (loop_live v)[l := False]\<rparr>) = Inr t"
    using Cons.prems(3) by (auto simp: bind_res_eq_Inr)
  have wu: "srv_wf u" "srv_size u = srv_size s"
    using loop_pending_wf [OF assms Cons.prems(1) _ u(1)] Cons.prems(2) by auto
  have wv: "srv_wf v" "srv_size v = srv_size s"
    using loop_pending_wf [OF assms wu(1) _ u(2)] Cons.prems(2) wu(2) by (auto simp: srv_size_def)
  let ?v = "v\<lparr>loop_live := (loop_live v)[l := False]\<rparr>"
  have "srv_wf ?v" using wv(1) by (rule srv_wf_view) simp_all
  then show ?case using Cons.IH [of ?v] Cons.prems(2) u(3) wv(2) by (auto simp: srv_size_def)
qed simp

text \<open>The destructor leaves an empty table, and no object that nothing refers to.\<close>

lemma destroy_server_wf:
  assumes "fresh_env env" "srv_wf s" "\<forall>l\<in>set (threads (pool s)). l < length (queues s)"
    and "destroy_server env main s = Inr t"
  shows "srv_wf t \<and> connections t = [] \<and> threads (pool t) = []"
proof -
  let ?s = "s\<lparr>has_messageCallback := False, has_connectionCallback := False, has_closeCallback := False\<rparr>"
  have s: "srv_wf ?s" using assms(2) by (rule srv_wf_view) simp_all
  obtain u v w where u: "close_each env main (getAllConnections ?s) (?s\<lparr>held := getAllConnections ?s\<rparr>) = Inr u"
    "release_all env (getAllConnections ?s) (u\<lparr>held := []\<rparr>) = Inr v" "stop_loops env (threads (pool v)) v = Inr w"
    "release_all env (getAllConnections w) (w\<lparr>pool := stop_pool (pool w), connections := []\<rparr>) = Inr t"
    using assms(4) by (auto simp: destroy_server_def Let_def bind_res_eq_Inr getAllConnections_def)
  have v: "srv_wf v" "srv_size v = srv_size s"
    using snapshot_wf [OF s, of "close_each env main (getAllConnections ?s)" env v] close_each_keeps u(1,2)
    by (auto simp: srv_size_def)
  have w: "srv_wf w" using stop_loops_wf [OF assms(1) v(1) _ u(3)] v(2) assms(3) by (auto simp: srv_size_def)
  let ?w = "w\<lparr>pool := stop_pool (pool w), connections := []\<rparr>"
  have ref: "referenced x w \<longleftrightarrow> referenced x ?w \<or> x \<in> set (getAllConnections w)" for x
    by (auto simp: referenced_iff getAllConnections_def)
  then have "srv_refs (set (getAllConnections w)) ?w" "srv_table ?w" "finite (dom (objs ?w))"
    using w by (auto simp: srv_wf_def srv_ok_def srv_refs_def srv_table_def)
  then have "srv_ok (set (getAllConnections w) \<union> {}) ?w" by (simp add: srv_ok_def)
  moreover have "connections t = connections ?w" if "release_all env os z = Inr t" "connections z = connections ?w" for os z
    using that by (induction os arbitrary: z) (auto simp: bind_res_eq_Inr elim!: release_cases)
  ultimately show ?thesis
    using release_all_drops [OF u(4)] u(4) w by (auto simp: srv_wf_def srv_frame_def srv_size_def stop_pool_def)
qed

section \<open>Runs of the server\<close>

text \<open>
  What can happen to a server, each with its own answers from outside: a connection is accepted, a
  loop runs its functors or dispatches an event, the heartbeat scans, the application sends or
  configures, the server starts or is destroyed.
\<close>

inductive srv_step :: "nat \<Rightarrow> 'k server \<Rightarrow> 'k server \<Rightarrow> bool" for main where
  srv_accepts: "fresh_env env \<Longrightarrow> onNewConnection env main fd s = Inr t \<Longrightarrow> srv_step main s t"
| srv_runs: "fresh_env env \<Longrightarrow> l < length (queues s) \<Longrightarrow> loop_pending env l s = Inr t \<Longrightarrow> srv_step main s t"
| srv_dispatches: "loop_event env x ev s = Inr t \<Longrightarrow> srv_step main s t"
| srv_scans: "checkHeartbeats env main s = Inr t \<Longrightarrow> srv_step main s t"
| srv_sends: "conn_send env l x data s = Inr t \<Longrightarrow> srv_step main s t"
| srv_threads: "srv_step main s (srv_setThreadNum n s)"
| srv_beats: "srv_step main s (setHeartbeat timeout interval s)"
| srv_callbacks: "srv_step main s (s\<lparr>has_messageCallback := a, has_connectionCallback := b, has_closeCallback := c\<rparr>)"
| srv_starts: "\<forall>i. start_loop i < length (queues s) \<Longrightarrow> srv_step main s (start_server start_loop s)"
| srv_ends: "fresh_env env \<Longrightarrow> destroy_server env main s = Inr t \<Longrightarrow> srv_step main s t"

definition srv_inv :: "'k server \<Rightarrow> bool" where
  "srv_inv s \<longleftrightarrow> srv_wf s \<and> (\<forall>l\<in>set (threads (pool s)). l < length (queues s))"

lemma srv_inv_size: "srv_inv s \<Longrightarrow> srv_wf t \<Longrightarrow> srv_size t = srv_size s \<Longrightarrow> srv_inv t"
  by (simp add: srv_inv_def srv_size_def)

lemma srv_inv_keeps: "srv_inv s \<Longrightarrow> keeps s r \<Longrightarrow> r = Inr t \<Longrightarrow> srv_inv t"
  by (rule srv_inv_size) (auto simp: srv_inv_def srv_wf_def keeps_def srv_frame_def)

lemma srv_step_inv:
  assumes "srv_step main s t" "srv_inv s"
  shows "srv_inv t"
  using assms
proof (induction rule: srv_step.induct)
  case (srv_accepts env fd s t)
  then show ?case using srv_inv_keeps onNewConnection_keeps by blast
next
  case (srv_runs env l s t)
  then have "srv_wf s" by (simp add: srv_inv_def)
  from loop_pending_wf [OF srv_runs.hyps(1) this srv_runs.hyps(2,3)] srv_runs.prems show ?case by (blast intro: srv_inv_size)
next
  case (srv_dispatches env x ev s t)
  then show ?case using srv_inv_keeps loop_event_keeps by blast
next
  case (srv_scans env s t)
  then show ?case using srv_inv_size [OF _ _ ] checkHeartbeats_wf [OF _ srv_scans.hyps] by (auto simp: srv_inv_def srv_size_def)
next
  case (srv_sends env l x data s t)
  then show ?case using srv_inv_keeps conn_send_keeps by blast
next
  case (srv_ends env s t)
  then have "srv_wf s" "\<forall>l\<in>set (threads (pool s)). l < length (queues s)" by (simp_all add: srv_inv_def)
  from destroy_server_wf [OF srv_ends.hyps(1) this srv_ends.hyps(2)] show ?case by (simp add: srv_inv_def)
qed (auto simp: srv_inv_def srv_setThreadNum_def setThreadNum_def setHeartbeat_def start_server_def start_pool_def
    Let_def elim!: srv_wf_view)

lemma new_server_inv: "srv_inv (new_server main lps)"
  by (simp add: srv_inv_def srv_wf_def srv_ok_def srv_refs_def srv_table_def new_server_def new_pool_def
      referenced_iff list_ex_iff)

interpretation server_runs:
  inductive_invariant "\<lambda>s. \<exists>lps. s = new_server main lps" "srv_step main" srv_inv for main
  by unfold_locales (auto simp: new_server_inv elim: srv_step_inv)

section \<open>Properties\<close>


definition least_env :: "interest srv_env" where
  "least_env = demo_env\<lparr>alloc := (\<lambda>s. Suc (Max (insert 0 (dom (objs s)))))\<rparr>"

lemma least_env_fresh: "fresh_env least_env"
proof -
  have "objs s (Suc (Max (insert 0 (dom (objs s))))) = None" if "finite (dom (objs s))" for s :: "interest server"
  proof (rule ccontr)
    assume "objs s (Suc (Max (insert 0 (dom (objs s))))) \<noteq> None"
    then have "Suc (Max (insert 0 (dom (objs s)))) \<le> Max (insert 0 (dom (objs s)))"
      using that by (intro Max_ge) auto
    then show False by simp
  qed
  then show ?thesis by (simp add: fresh_env_def least_env_def)
qed


end
