(* ===== verification/Connection_Steps.thy ===== *)
theory Connection_Steps
  imports Tcp_Connection
begin

text \<open>
  One step of a connection (\<open>reactor/TcpConnection.cpp\<close>) as the server sees it: an operation or a functor on
  a sound connection succeeds, keeps it sound, touches the registry only at its own descriptor,
  makes at most one call to the outside, and calls the close callback exactly if it closes the
  connection.  The facts come from \<open>conn_wf\<close>, by putting the functors and notes of the past in front.
\<close>

section \<open>Sound connections\<close>

text \<open>
  What \<open>conn_wf\<close> says of the object and its registry; the functors and the notes of a connection of
  the server are in the server's queues and calls.
\<close>

definition conn_sound :: "('k \<Rightarrow> interest) \<Rightarrow> 'k conn_world \<Rightarrow> bool" where
  "conn_sound tbl w \<longleftrightarrow> buf_inv (input_buffer (conn w)) \<and> buf_inv (output_buffer (conn w)) \<and>
     events (channel (conn w)) = interest_of (conn w) \<and> conn_reg tbl w \<and> has_close (conn w)"

text \<open>The same world behind functors and notes of the past, which no operation reads.\<close>

definition behind :: "conn_task list \<Rightarrow> conn_note list \<Rightarrow> 'k conn_world \<Rightarrow> 'k conn_world" where
  "behind ts tr w = w\<lparr>tasks := ts @ tasks w, trace := tr @ trace w\<rparr>"

lemma behind_sel [simp]:
  "conn (behind ts tr w) = conn w" "registry (behind ts tr w) = registry w" "wire (behind ts tr w) = wire w"
  "tasks (behind ts tr w) = ts @ tasks w" "trace (behind ts tr w) = tr @ trace w"
  by (simp_all add: behind_def)

definition unseen :: "('k conn_world \<Rightarrow> 'k conn_world res) \<Rightarrow> bool" where
  "unseen f \<longleftrightarrow> (\<forall>ts tr w. f (behind ts tr w) = map_sum id (behind ts tr) (f w))"

lemma behind_update:
  "note_that x (behind ts tr w) = behind ts tr (note_that x w)"
  "queue_task t (behind ts tr w) = behind ts tr (queue_task t w)"
  "on_channel g (behind ts tr w) = behind ts tr (on_channel g w)"
  "(behind ts tr w)\<lparr>conn := c\<rparr> = behind ts tr (w\<lparr>conn := c\<rparr>)"
  "(behind ts tr w)\<lparr>wire := b\<rparr> = behind ts tr (w\<lparr>wire := b\<rparr>)"
  by (simp_all add: behind_def note_that_def queue_task_def on_channel_def case_prod_beta Let_def)

lemma behind_ops:
  "handleClose ec (behind ts tr w) = behind ts tr (handleClose ec w)"
  "write_complete (behind ts tr w) = behind ts tr (write_complete w)"
  "handleError (behind ts tr w) = behind ts tr (handleError w)"
  "shutdownInLoop ans (behind ts tr w) = behind ts tr (shutdownInLoop ans w)"
  by (simp_all add: handleClose_def write_complete_def handleError_def shutdownInLoop_def behind_update Let_def
      split: io_answer.split)

lemma map_sum_bind: "map_sum id g (bind_res m f) = bind_res m (\<lambda>x. map_sum id g (f x))"
  by (cases m) simp_all

lemma unseen_ops:
  "unseen (sendInLoop ec ans data)" "unseen (\<lambda>w. Inr (forceCloseInLoop ec w))" "unseen (handleRead ec ra clk)"
  by (auto simp: unseen_def sendInLoop_def try_write_def forceCloseInLoop_def handleRead_def behind_update behind_ops
      map_sum_bind Let_def if_distrib [of "map_sum id g" for g] case_prod_beta
      split: io_answer.split intro!: arg_cong [of _ _ "bind_res m" for m])
lemma unseen_write: "unseen (handleWrite ec ans)"
proof (cases "\<exists>n. ans = Done (Suc n)")
  case True
  then obtain n where "ans = Done (Suc n)" ..
  then show ?thesis
    by (simp add: unseen_def handleWrite_def behind_update behind_ops map_sum_bind Let_def
        if_distrib [of "map_sum id g" for g] if_distrib [of "behind ts tr" for ts tr] cong: if_cong)
next
  case False
  then have "(case ans of Done (Suc n) \<Rightarrow> f n | _ \<Rightarrow> r) = r" for f and r :: "'a conn_world res"
    by (simp split: io_answer.split nat.split)
  then show ?thesis
    by (simp add: unseen_def handleWrite_def behind_update map_sum_bind Let_def if_distrib [of "map_sum id g" for g])
qed

lemma unseen_task: "unseen (run_task ec ans t)"
proof (cases t)
  case (SendTask data)
  then show ?thesis using unseen_ops(1) [of ec ans data] by (simp add: unseen_def)
next
  case ForceCloseTask
  then show ?thesis using unseen_ops(2) [of ec] by (simp add: unseen_def)
qed (auto simp: unseen_def behind_ops)

text \<open>Operations given as \<open>conn_op\<close>, all but the functors.\<close>

definition plain_op :: "conn_op \<Rightarrow> bool" where
  "plain_op op \<longleftrightarrow> (\<forall>ans. op \<noteq> RunTask ans)"

lemma unseen_exec: "plain_op op \<Longrightarrow> unseen (conn_exec ec op)"
proof (cases op)
  case (Send inl ans data)
  then show ?thesis using unseen_ops(1) [of ec ans data] by (simp add: unseen_def send_def behind_update)
next
  case (ForceClose inl)
  then show ?thesis using unseen_ops(2) [of ec] by (simp add: unseen_def forceClose_def behind_update)
qed (simp_all add: plain_op_def unseen_def unseen_ops(3) [unfolded unseen_def] unseen_write [unfolded unseen_def]
    shutdown_def closeNow_def behind_update behind_ops)

text \<open>
  \<open>steps_sound f w\<close>: the operation succeeds on a sound connection, keeps it sound, and calls the close
  callback exactly if it closes the connection.
\<close>

definition closes :: "'k conn_world \<Rightarrow> 'k conn_world \<Rightarrow> bool" where
  "closes w w' \<longleftrightarrow> state (conn w) \<noteq> kDisconnected \<and> state (conn w') = kDisconnected"

definition past :: "'k conn_world \<Rightarrow> conn_note list" where
  "past w = (if state (conn w) = kDisconnected then [CloseCalled] else [])"

lemma sound_behind:
  assumes "conn_sound tbl w" "trace w = []" "ForceCloseTask \<in> set ts"
  shows "conn_wf tbl (behind ts (past w) w)"
  using assms by (auto simp: conn_wf_def conn_sound_def conn_reg_def past_def close_calls_def)

lemma behind_sound:
  assumes w': "conn_wf tbl (behind ts (past w) w')" and "has_close (conn w')"
    and closed: "state (conn w) = kDisconnected \<Longrightarrow> state (conn w') = kDisconnected"
  shows "conn_sound tbl w'" "CloseCalled \<in> set (trace w') \<longleftrightarrow> closes w w'"
proof -
  have "length (filter (\<lambda>x. x = CloseCalled) (past w @ trace w')) = (if state (conn w') = kDisconnected then 1 else 0)"
    using w' assms(2) by (simp add: conn_wf_def close_calls_def)
  moreover have "CloseCalled \<in> set (trace w') \<longleftrightarrow> length (filter (\<lambda>x. x = CloseCalled) (trace w')) \<noteq> 0"
    by (auto simp: filter_empty_conv)
  ultimately show "CloseCalled \<in> set (trace w') \<longleftrightarrow> closes w w'"
    using closed by (auto simp: past_def closes_def length_Suc_conv split: if_splits)
  show "conn_sound tbl w'" using w' assms(2) by (simp add: conn_sound_def conn_wf_def conn_reg_def)
qed
text \<open>
  What no operation of a connection changes: its identity, the callbacks of its channel, and the registry at
  other descriptors.
\<close>

definition wired :: "conn_cb channel \<Rightarrow> bool" where
  "wired ch \<longleftrightarrow> readCallback ch = Some ConnRead \<and> writeCallback ch = Some ConnWrite \<and>
     closeCallback ch = Some ConnClose \<and> errorCallback ch = Some ConnError"

lemma wired_update [simp]: "wired (ch\<lparr>events := e\<rparr>) = wired ch" "wired (ch\<lparr>revents := e\<rparr>) = wired ch"
  by (simp_all add: wired_def)

definition conn_local :: "'k conn_world \<Rightarrow> 'k conn_world \<Rightarrow> bool" where
  "conn_local w w' \<longleftrightarrow> self (conn w') = self (conn w) \<and> connfd (conn w') = connfd (conn w) \<and>
     has_close (conn w') = has_close (conn w) \<and> ch_fd (channel (conn w')) = ch_fd (channel (conn w)) \<and>
     wired (channel (conn w')) = wired (channel (conn w)) \<and>
     (\<forall>g. g \<noteq> ch_fd (channel (conn w)) \<longrightarrow> channels (registry w') g = channels (registry w) g)"

lemma conn_local_basic [simp]: "conn_local w w"
  by (simp add: conn_local_def)

lemma conn_local_trans: "conn_local u v \<Longrightarrow> conn_local v w \<Longrightarrow> conn_local u w"
  by (simp add: conn_local_def)

lemma conn_local_update [simp]:
  "conn_local u (note_that x w) = conn_local u w" "conn_local u (queue_task t w) = conn_local u w"
  "conn_local u (w\<lparr>wire := b\<rparr>) = conn_local u w"
  "conn_local u (w\<lparr>wire := b, conn := c\<rparr>) = conn_local u (w\<lparr>conn := c\<rparr>)"
  "conn_local w (w\<lparr>conn := c\<rparr>) \<longleftrightarrow> self c = self (conn w) \<and> connfd c = connfd (conn w) \<and>
     has_close c = has_close (conn w) \<and> ch_fd (channel c) = ch_fd (channel (conn w)) \<and>
     wired (channel c) = wired (channel (conn w))"
  "conn_local u (w\<lparr>conn := (conn w)\<lparr>state := st\<rparr>\<rparr>) = conn_local u w"
  "conn_local u (write_complete w) = conn_local u w"
  by (simp_all add: conn_local_def)

lemma conn_local_channel [simp]:
  "conn_local u w \<Longrightarrow> conn_local u (on_channel (enableWriting ec) w)"
  "conn_local u w \<Longrightarrow> conn_local u (on_channel (disableWriting ec) w)"
  "conn_local u w \<Longrightarrow> conn_local u (on_channel (disableAll ec) w)"
  by (auto simp: conn_local_def channel_op_defs updateChannel_frame)

lemma conn_local_close [simp]:
  "conn_local u w \<Longrightarrow> conn_local u (handleClose ec w)"
  "conn_local u w \<Longrightarrow> conn_local u (forceCloseInLoop ec w)"
  "conn_local u w \<Longrightarrow> conn_local u (shutdownInLoop ans w)"
  by (auto simp: handleClose_def forceCloseInLoop_def shutdownInLoop_def Let_def split: io_answer.split)

lemma sendInLoop_local:
  assumes "sendInLoop ec ans data w = Inr w'"
  shows "conn_local w w' \<and> state (conn w') = state (conn w) \<and> (\<exists>x. trace w' = trace w @ x \<and> x \<in> {[], [CompleteCalled], [ErrorLogged]})"
  using assms by (auto simp: sendInLoop_def try_write_def bind_res_eq_Inr Let_def write_complete_def
      split: if_splits option.splits io_answer.splits)

lemma handleWrite_local:
  assumes "handleWrite ec ans w = Inr w'"
  shows "conn_local w w' \<and> state (conn w') = state (conn w) \<and> (\<exists>x. trace w' = trace w @ x \<and> x \<in> {[], [CompleteCalled], [ErrorLogged]})"
proof (cases "\<exists>n. ans = Done (Suc n)")
  case True
  then obtain n where "ans = Done (Suc n)" ..
  then show ?thesis using assms
    by (auto simp: handleWrite_def bind_res_eq_Inr Let_def write_complete_def split: if_splits)
next
  case False
  then have "(case ans of Done (Suc n) \<Rightarrow> f n | _ \<Rightarrow> r) = r" for f and r :: "'a conn_world res"
    by (simp split: io_answer.split nat.split)
  then show ?thesis using assms by (auto simp: handleWrite_def bind_res_eq_Inr Let_def split: if_splits)
qed

lemma handleClose_local:
  "conn_local w (handleClose ec w) \<and> state (conn w) \<le> state (conn (handleClose ec w)) \<and> (\<exists>x. trace (handleClose ec w) = trace w @ x \<and> x \<in> {[], [CloseCalled]})"
  by (auto simp: handleClose_def Let_def)

lemma handleRead_local:
  assumes "handleRead ec ans clk w = Inr w'"
  shows "conn_local w w' \<and> state (conn w) \<le> state (conn w') \<and>
    (\<exists>x. trace w' = trace w @ x \<and> x \<in> {[], [MessageCalled], [CloseCalled], [ErrorLogged]})"
  using assms by (auto simp: handleRead_def bind_res_eq_Inr Let_def handleError_def handleClose_def split: if_splits)

lemma forceCloseInLoop_local:
  "(\<exists>x. trace (forceCloseInLoop ec w) = trace w @ x \<and> x \<in> {[], [CloseCalled]})"
  "state (conn w) \<le> state (conn (forceCloseInLoop ec w))"
  "state (conn w) = kDisconnected \<Longrightarrow> forceCloseInLoop ec w = w"
  using handleClose_local [of w ec] by (auto simp: forceCloseInLoop_def)

text \<open>The bytes that a connection has accepted: handed to the kernel, or in its output buffer.  They only grow.\<close>

definition conn_stream :: "'k conn_world \<Rightarrow> byte list" where
  "conn_stream w = wire w @ contents (output_buffer (conn w))"

lemma conn_stream_abs: "conn_stream w = a_wire (conn_abs w) @ a_pending (conn_abs w)"
  by (simp add: conn_stream_def)

lemma conn_stream_behind [simp]: "conn_stream (behind ts tr w) = conn_stream w"
  by (simp add: conn_stream_def)

definition stream_grows :: "'k conn_world \<Rightarrow> 'k conn_world \<Rightarrow> bool" where
  "stream_grows w w' \<longleftrightarrow> (\<exists>more. conn_stream w' = conn_stream w @ more)"

lemma stream_grows_behind [simp]:
  "stream_grows (behind ts tr w) w' = stream_grows w w'" "stream_grows w (behind ts tr w') = stream_grows w w'"
  by (simp_all add: stream_grows_def)

text \<open>A plain operation, and a functor, on a sound connection without notes or functors of its own.\<close>

definition op_result :: "('k \<Rightarrow> interest) \<Rightarrow> 'k conn_world \<Rightarrow> 'k conn_world res \<Rightarrow> bool" where
  "op_result tbl w r \<longleftrightarrow> (\<exists>w'. r = Inr w' \<and> conn_sound tbl w' \<and> conn_local w w' \<and>
     state (conn w) \<le> state (conn w') \<and> length (trace w') \<le> 1 \<and>
     (CloseCalled \<in> set (trace w') \<longleftrightarrow> closes w w') \<and> stream_grows w w')"

lemma op_resultI:
  assumes sound: "conn_sound tbl w" "trace w = []" and f: "unseen f"
    and wf: "\<exists>v. f (behind ts (past w) w) = Inr v \<and> conn_wf tbl v \<and> stream_grows w v"
    and local: "\<And>w'. f w = Inr w' \<Longrightarrow> conn_local w w' \<and>
      state (conn w) \<le> state (conn w') \<and> length (trace w') \<le> 1"
  shows "op_result tbl w (f w)"
proof -
  obtain w' where w': "f w = Inr w'" "conn_wf tbl (behind ts (past w) w')" "stream_grows w w'"
    using wf f by (cases "f w") (auto simp: unseen_def)
  have "has_close (conn w')" using local [OF w'(1)] sound by (simp add: conn_local_def conn_sound_def)
  moreover have "state (conn w) = kDisconnected \<Longrightarrow> state (conn w') = kDisconnected" using local [OF w'(1)] by simp
  ultimately show ?thesis using behind_sound [OF w'(2)] local [OF w'(1)] w'(1,3) by (auto simp: op_result_def)
qed

lemma exec_result:
  assumes law: "epoll_law ec tbl" and sound: "conn_sound tbl w" "trace w = []" and op: "plain_op op" "conn_ok op w"
  shows "op_result tbl w (conn_exec ec op w)"
proof (rule op_resultI [OF sound unseen_exec [OF op(1)], where ts = "[ForceCloseTask]"])
  have "conn_ok op (behind [ForceCloseTask] (past w) w)" using op by (cases op) (simp_all add: plain_op_def)
  then obtain v where v: "conn_exec ec op (behind [ForceCloseTask] (past w) w) = Inr v" "conn_wf tbl v"
      "conn_abs v = conn_step_spec op (conn_abs (behind [ForceCloseTask] (past w) w))"
    using conn_exec_ok [OF law sound_behind [OF sound, of "[ForceCloseTask]"]] by auto
  then have "stream_grows (behind [ForceCloseTask] (past w) w) v"
    unfolding stream_grows_def conn_stream_abs by (simp add: spec_step_stream)
  with v(1,2) show "\<exists>v. conn_exec ec op (behind [ForceCloseTask] (past w) w) = Inr v \<and> conn_wf tbl v \<and> stream_grows w v" by auto
  show "conn_local w w' \<and> state (conn w) \<le> state (conn w') \<and> length (trace w') \<le> 1"
    if "conn_exec ec op w = Inr w'" for w'
    using that op(1) sound(2) forceCloseInLoop_local [where w = w and ec = ec] handleClose_local [of w ec]
    by (cases op) (auto simp: plain_op_def send_def shutdown_def shutdownInLoop_def forceClose_def closeNow_def
        handleError_def handleClose_idle dest!: sendInLoop_local handleRead_local handleWrite_local
        split: if_splits io_answer.splits)
qed

lemma task_result:
  assumes law: "epoll_law ec tbl" and sound: "conn_sound tbl w" "trace w = []"
    and ans: "\<And>data. t = SendTask data \<Longrightarrow> write_law ans data"
  shows "op_result tbl w (run_task ec ans t w)"
proof (rule op_resultI [OF sound unseen_task, where ts = "[ForceCloseTask]"])
  let ?b = "behind [t, ForceCloseTask] (past w) w"
  have "tasks ?b = t # (ForceCloseTask # tasks w)" by simp
  moreover have "conn_ok (RunTask ans) ?b" using ans by (simp split: conn_task.split)
  moreover have taken: "behind [ForceCloseTask] (past w) w = ?b\<lparr>tasks := ForceCloseTask # tasks w\<rparr>" by (simp add: behind_def)
  ultimately obtain v where v: "run_task ec ans t (behind [ForceCloseTask] (past w) w) = Inr v" "conn_wf tbl v"
      "conn_abs v = spec_task ans t ((conn_abs ?b)\<lparr>a_tasks := ForceCloseTask # tasks w\<rparr>)"
    unfolding taken using run_task_ok [OF law sound_behind [OF sound, of "[t, ForceCloseTask]"], of t "ForceCloseTask # tasks w" ans]
    by auto
  then have "stream_grows ?b v" unfolding stream_grows_def conn_stream_abs by (simp add: spec_task_stream)
  with v(1,2) show "\<exists>v. run_task ec ans t (behind [ForceCloseTask] (past w) w) = Inr v \<and> conn_wf tbl v \<and> stream_grows w v" by auto
  show "conn_local w w' \<and> state (conn w) \<le> state (conn w') \<and> length (trace w') \<le> 1"
    if "run_task ec ans t w = Inr w'" for w'
    using that sound(2) forceCloseInLoop_local [where w = w and ec = ec] handleClose_local [of w ec]
    by (cases t) (auto simp: shutdownInLoop_def handleClose_idle dest!: sendInLoop_local split: if_splits io_answer.splits)
qed

text \<open>The functor of a send from another loop accepts its whole message, unless the write fails for good.\<close>

lemma send_task_stream:
  assumes law: "epoll_law ec tbl" and sound: "conn_sound tbl w" "trace w = []" and ans: "write_law ans data" "\<not> fatal ans"
    and "state (conn w) \<noteq> kDisconnected" and run: "run_task ec ans (SendTask data) w = Inr w'"
  shows "conn_stream w' = conn_stream w @ data"
proof -
  let ?b = "behind [SendTask data, ForceCloseTask] (past w) w" and ?v = "behind [ForceCloseTask] (past w) w"
  have "tasks ?b = SendTask data # (ForceCloseTask # tasks w)" "conn_ok (RunTask ans) ?b" using ans by simp_all
  moreover have "?v = ?b\<lparr>tasks := ForceCloseTask # tasks w\<rparr>" by (simp add: behind_def)
  ultimately obtain v where v: "run_task ec ans (SendTask data) ?v = Inr v"
      "conn_abs v = spec_task ans (SendTask data) ((conn_abs ?b)\<lparr>a_tasks := ForceCloseTask # tasks w\<rparr>)"
    using run_task_ok [OF law sound_behind [OF sound, of "[SendTask data, ForceCloseTask]"], of "SendTask data" "ForceCloseTask # tasks w" ans]
    by auto
  have "v = behind [ForceCloseTask] (past w) w'"
    using v(1) run unseen_task [of ec ans "SendTask data"] unfolding unseen_def by (metis map_sum.simps(2) sum.inject(2))
  then have "conn_stream w' = conn_stream v" by simp
  also have "\<dots> = conn_stream ?b @ data"
    unfolding conn_stream_abs v(2) spec_task_stream using assms(6) ans(2) by (simp add: spec_accepts_def)
  finally show ?thesis by simp
qed

text \<open>A read closes the connection only at the end of file.\<close>

lemma handleRead_closes:
  assumes inv: "buf_inv (input_buffer (conn w))" "readv_law ans (input_buffer (conn w))" and "trace w = []"
    and run: "handleRead ec ans clk w = Inr w'" "CloseCalled \<in> set (trace w')"
  shows "ans = Delivered []"
proof (cases ans)
  case (Delivered data)
  obtain b where "readFd ans (input_buffer (conn w)) = Inr (int (length data), b)"
    using readFd_fifo [OF inv(1), of data] inv(2) Delivered by metis
  then show ?thesis using run assms(3) Delivered
    by (cases "data = []") (auto simp: handleRead_def Let_def split: if_splits)
next
  case (ReadFail e)
  then show ?thesis using run assms(3) by (auto simp: handleRead_def handleError_def Let_def)
qed

end
