(* ===== verification/Server_Sound.thy ===== *)
theory Server_Sound
  imports Server_Memory Connection_Steps
begin

text \<open>
  The sound states of the server (\<open>reactor/Server.cpp\<close>): an invariant over all its connections, the registries
  of its loops, the descriptors on their way, the table being exactly the open connections, and the
  pool.  The calculus \<open>succeeds\<close> shows for the sends, callbacks and events of a connection that
  they do not fault in such a state and that they keep it.
\<close>

section \<open>The invariant\<close>

text \<open>The descriptors of connections that wait in a queue for their creation.\<close>

fun new_fd :: "srv_task \<Rightarrow> fd list" where
  "new_fd (NewConn fd) = [fd]"
| "new_fd (ConnTask o' t) = []"

definition new_fds :: "srv_task list \<Rightarrow> fd list" where
  "new_fds ts = concat (map new_fd ts)"

definition queued_fds :: "'k server \<Rightarrow> fd list" where
  "queued_fds s = concat (map new_fds (queues s))"

definition srv_conns :: "('k \<Rightarrow> interest) \<Rightarrow> 'k server \<Rightarrow> bool" where
  "srv_conns tbl s \<longleftrightarrow> (\<forall>x c. objs s x = Some c \<longrightarrow>
     self c = x \<and> wired (channel c) \<and> loop_of s x < length (regs s) \<and> conn_sound tbl (conn_view s x c))"

text \<open>
  Every open descriptor has one owner: a channel of the loops themselves (\<open>base\<close>), a connection, a functor that
  will create one, or the rest \<open>R\<close> of the batch that is running.
\<close>

definition srv_fds :: "fd set \<Rightarrow> fd list \<Rightarrow> 'k server \<Rightarrow> bool" where
  "srv_fds base R s \<longleftrightarrow> distinct (R @ queued_fds s) \<and>
     (\<forall>fd\<in>set (R @ queued_fds s). fd \<notin> base \<and> (\<forall>x c. objs s x = Some c \<longrightarrow> connfd c \<noteq> fd)) \<and>
     (\<forall>x c. objs s x = Some c \<longrightarrow> connfd c \<notin> base) \<and>
     (\<forall>x y c d. objs s x = Some c \<longrightarrow> objs s y = Some d \<longrightarrow> connfd c = connfd d \<longrightarrow> x = y)"

definition srv_regs :: "('k \<Rightarrow> interest) \<Rightarrow> fd set \<Rightarrow> 'k server \<Rightarrow> bool" where
  "srv_regs tbl base s \<longleftrightarrow> length (regs s) = length (queues s) \<and>
     (\<forall>l<length (regs s). mirrors tbl (regs s ! l) \<and>
       (\<forall>f p. channels (regs s ! l) f = Some p \<longrightarrow>
          f \<in> base \<or> (\<exists>c. objs s p = Some c \<and> connfd c = f \<and> loop_of s p = l)))"

text \<open>The table holds exactly the open connections, but for those in \<open>E\<close>, which are being closed.\<close>

definition srv_open :: "oid set \<Rightarrow> 'k server \<Rightarrow> bool" where
  "srv_open E s \<longleftrightarrow> (\<forall>x c. objs s x = Some c \<longrightarrow>
     (state c \<noteq> kDisconnected \<longrightarrow> x \<in> snd ` set (connections s)) \<and>
     (x \<in> snd ` set (connections s) \<longrightarrow> x \<notin> E \<longrightarrow> state c \<noteq> kDisconnected))"

definition srv_pool :: "'k server \<Rightarrow> bool" where
  "srv_pool s \<longleftrightarrow> (loops (pool s) = [] \<longrightarrow> next_idx (pool s) = 0) \<and>
     (loops (pool s) \<noteq> [] \<longrightarrow> next_idx (pool s) < length (loops (pool s))) \<and>
     baseLoop (pool s) < length (queues s) \<and> (\<forall>l\<in>set (loops (pool s)). l < length (queues s))"

definition srv_good :: "('k \<Rightarrow> interest) \<Rightarrow> fd set \<Rightarrow> oid set \<Rightarrow> fd list \<Rightarrow> 'k server \<Rightarrow> bool" where
  "srv_good tbl base E R s \<longleftrightarrow> srv_conns tbl s \<and> srv_fds base R s \<and> srv_regs tbl base s \<and> srv_open E s \<and> srv_pool s"

lemmas srv_good_defs = srv_good_def srv_conns_def srv_fds_def srv_regs_def srv_open_def srv_pool_def

lemma new_fds_simps [simp]:
  "new_fds [] = []" "new_fds (t # ts) = new_fd t @ new_fds ts" "new_fds (ts @ us) = new_fds ts @ new_fds us"
  "new_fds (map (ConnTask x) ks) = []"
  by (simp_all add: new_fds_def)

lemma queued_fds_append:
  "new_fds ts = [] \<Longrightarrow> concat (map new_fds (Q[l := Q ! l @ ts])) = concat (map new_fds Q)"
proof (induction Q arbitrary: l)
  case (Cons q Q)
  then show ?case by (cases l) simp_all
qed simp

text \<open>What the invariant reads of the state.\<close>

lemma srv_good_fds:
  assumes "objs t = objs s" "regs t = regs s" "loop_of t = loop_of s" "length (queues t) = length (queues s)"
  shows "srv_good tbl base E R t \<longleftrightarrow> srv_conns tbl s \<and> srv_fds base R t \<and> srv_regs tbl base s \<and> srv_open E t \<and> srv_pool t"
proof -
  have "srv_conns tbl t = srv_conns tbl s" "srv_regs tbl base t = srv_regs tbl base s"
    unfolding srv_conns_def srv_regs_def conn_view_def by (simp_all only: assms)
  then show ?thesis by (simp add: srv_good_def)
qed

lemma srv_good_open:
  assumes "objs t = objs s" "regs t = regs s" "loop_of t = loop_of s" "queued_fds t = queued_fds s"
    "length (queues t) = length (queues s)" "loops (pool t) = loops (pool s)" "next_idx (pool t) = next_idx (pool s)"
    "baseLoop (pool t) = baseLoop (pool s)"
  shows "srv_good tbl base E R t \<longleftrightarrow> srv_conns tbl s \<and> srv_fds base R s \<and> srv_regs tbl base s \<and> srv_open E t \<and> srv_pool s"
  using srv_good_fds [OF assms(1-3,5)] by (simp add: srv_fds_def srv_pool_def assms)

lemma srv_good_view:
  assumes "srv_good tbl base E R s" "objs t = objs s" "connections t = connections s" "regs t = regs s"
    "loop_of t = loop_of s" "queued_fds t = queued_fds s" "length (queues t) = length (queues s)"
    "loops (pool t) = loops (pool s)" "next_idx (pool t) = next_idx (pool s)" "baseLoop (pool t) = baseLoop (pool s)"
  shows "srv_good tbl base E R t"
  using assms(1,3) unfolding srv_good_open [OF assms(2,4-10)] by (simp add: srv_good_def srv_open_def assms(2))

text \<open>An operation stored back: the connection it worked on, and no other, may have changed.\<close>

lemma conn_store_good:
  assumes good: "srv_good tbl base E R s" and c: "objs s x = Some c"
    and w: "conn_local (conn_view s x c) w" "conn_sound tbl w"
    and closed: "state c \<le> state (conn w)"
  shows "srv_good tbl base (if state c \<noteq> kDisconnected \<and> state (conn w) = kDisconnected then insert x E else E) R
    (conn_store x w s)"
proof -
  let ?t = "conn_store x w s" and ?l = "loop_of s x"
  have l: "?l < length (regs s)" and self: "self c = x" "wired (channel c)" and sound: "conn_sound tbl (conn_view s x c)"
    using good c by (simp_all add: srv_good_def srv_conns_def)
  have same: "self (conn w) = self c" "connfd (conn w) = connfd c" "ch_fd (channel (conn w)) = ch_fd (channel c)"
    "\<And>g. g \<noteq> connfd c \<Longrightarrow> channels (registry w) g = channels (regs s ! ?l) g" "wired (channel (conn w))"
    using w(1) sound self(2) by (auto simp: conn_local_def conn_sound_def conn_reg_def)
  have regs: "regs ?t = (regs s)[?l := registry w]" and queues: "length (queues ?t) = length (queues s)"
    and fds: "queued_fds ?t = queued_fds s"
    by (simp_all add: conn_store_def Let_def queued_fds_def queued_fds_append)
  have mirror: "mirrors tbl (registry w)" using w(2) by (simp add: conn_sound_def conn_reg_def)
  have "srv_conns tbl ?t" unfolding srv_conns_def
  proof (intro allI impI)
    fix y d
    assume d: "objs ?t y = Some d"
    show "self d = y \<and> wired (channel d) \<and> loop_of ?t y < length (regs ?t) \<and> conn_sound tbl (conn_view ?t y d)"
    proof (cases "y = x")
      case True
      then show ?thesis using d w(2) l self same
        by (simp add: regs conn_sound_def conn_reg_def)
    next
      case False
      then have y: "objs s y = Some d" using d by simp
      have "connfd d \<noteq> connfd c" using good c y False unfolding srv_good_def srv_fds_def by blast
      moreover have "self d = y \<and> wired (channel d) \<and> loop_of s y < length (regs s) \<and> conn_sound tbl (conn_view s y d)"
        using good y by (simp add: srv_good_def srv_conns_def)
      ultimately show ?thesis using y same(4) mirror l
        by (cases "loop_of s y = ?l") (simp_all add: regs conn_sound_def conn_reg_def)
    qed
  qed
  moreover have "srv_fds base R ?t"
    using good c same(2) unfolding srv_good_def srv_fds_def fds by (auto split: if_splits)
  moreover have "srv_regs tbl base ?t"
    unfolding srv_regs_def regs queues
  proof (intro conjI allI impI)
    show "length ((regs s)[?l := registry w]) = length (queues s)" using good by (simp add: srv_good_def srv_regs_def)
  next
    fix k
    assume k: "k < length ((regs s)[?l := registry w])"
    show "mirrors tbl ((regs s)[?l := registry w] ! k)"
      using good mirror k by (cases "k = ?l") (simp_all add: srv_good_def srv_regs_def)
    fix f p
    assume p: "channels ((regs s)[?l := registry w] ! k) f = Some p"
    show "f \<in> base \<or> (\<exists>c. objs ?t p = Some c \<and> connfd c = f \<and> loop_of ?t p = k)"
    proof (cases "k = ?l \<and> f = connfd c")
      case True
      then have "p = x" using p l w(2) self same by (simp add: conn_sound_def conn_reg_def split: if_splits)
      then show ?thesis using True same(2) by simp
    next
      case False
      then have "channels (regs s ! k) f = Some p" using p l same(4) by (cases "k = ?l") auto
      then have "f \<in> base \<or> (\<exists>c. objs s p = Some c \<and> connfd c = f \<and> loop_of s p = k)"
        using good k by (simp add: srv_good_def srv_regs_def)
      then show ?thesis using False c same(2) by auto
    qed
  qed
  moreover have "srv_open (if state c \<noteq> kDisconnected \<and> state (conn w) = kDisconnected then insert x E else E) ?t"
  proof -
    have "state c = kDisconnected \<Longrightarrow> state (conn w) = kDisconnected" using closed by simp
    then show ?thesis using good c by (auto simp: srv_good_def srv_open_def)
  qed
  moreover have "srv_pool ?t" using good queues by (simp add: srv_good_def srv_pool_def)
  ultimately show ?thesis by (simp add: srv_good_def)
qed
section \<open>What the server relies on\<close>

fun event_conn :: "srv_event \<Rightarrow> oid" where
  "event_conn (AppConnection x) = x"
| "event_conn (AppMessage x) = x"
| "event_conn (AppClose x) = x"

text \<open>
  \<open>epoll_ctl\<close> does what it documents and does not run out of room, \<open>new\<close> returns fresh addresses, \<open>write\<close> takes
  no more than it was given, and an application sends to the connection it was called for or to
  connections of the table.
\<close>

definition roomy :: "'k epoll_ctl \<Rightarrow> ('k \<Rightarrow> interest) \<Rightarrow> bool" where
  "roomy ec tbl \<longleftrightarrow> (\<forall>k fd ev p. tbl k fd = None \<longrightarrow> fst (ec (CtlAdd fd ev p) k))"

definition app_law :: "'k srv_env \<Rightarrow> bool" where
  "app_law env \<longleftrightarrow> (\<forall>ev s. \<forall>(x, data)\<in>set (app_sends env ev s).
     x = event_conn ev \<or> x \<in> snd ` set (connections s))"

definition env_law :: "('k \<Rightarrow> interest) \<Rightarrow> 'k srv_env \<Rightarrow> bool" where
  "env_law tbl env \<longleftrightarrow> epoll_law (ctl env) tbl \<and> roomy (ctl env) tbl \<and> fresh_env env \<and>
     (\<forall>x data. write_law (wr env x data) data) \<and> app_law env"

text \<open>The bytes that a connection has accepted: handed to the kernel, or in its output buffer.\<close>

definition srv_stream :: "'k server \<Rightarrow> oid \<Rightarrow> byte list" where
  "srv_stream s x = sent s x @ (case objs s x of None \<Rightarrow> [] | Some c \<Rightarrow> contents (output_buffer c))"

text \<open>
  \<open>carries D s t\<close>: from \<open>s\<close> to \<open>t\<close> no object outside \<open>D\<close> was destroyed, states only advanced, and queues and the
  streams of accepted bytes only grew.  \<open>succeeds\<close>: the operation does not fault, its result is good again and carries the state over.
\<close>

definition carries :: "oid set \<Rightarrow> 'k server \<Rightarrow> 'k server \<Rightarrow> bool" where
  "carries D s t \<longleftrightarrow> length (queues t) = length (queues s) \<and>
     (\<forall>l<length (queues s). \<exists>ts. queues t ! l = queues s ! l @ ts) \<and>
     (\<forall>y c. objs s y = Some c \<longrightarrow> y \<notin> D \<longrightarrow>
       (\<exists>d. objs t y = Some d \<and> connfd d = connfd c \<and> loop_of t y = loop_of s y \<and> state c \<le> state d \<and>
         (\<exists>more. srv_stream t y = srv_stream s y @ more)))"

definition succeeds :: "('k \<Rightarrow> interest) \<Rightarrow> fd set \<Rightarrow> oid set \<Rightarrow> oid set \<Rightarrow> fd list \<Rightarrow> 'k server \<Rightarrow> 'k server res \<Rightarrow> bool" where
  "succeeds tbl base D E R s r \<longleftrightarrow> (\<exists>t. r = Inr t \<and> srv_good tbl base E R t \<and> carries D s t)"

lemma succeeds_Inr [simp]:
  "succeeds tbl base D E R s (Inr t) \<longleftrightarrow> srv_good tbl base E R t \<and> carries D s t"
  by (simp add: succeeds_def)

lemma queue_grows: "k < length Q \<Longrightarrow> \<exists>ts. Q[l := Q ! l @ us] ! k = Q ! k @ ts"
  by (cases "k = l") auto

lemma carries_refl [simp]: "carries D s s"
  by (simp add: carries_def)

lemma carriesD:
  assumes "carries D s t" "objs s y = Some c" "y \<notin> D"
  obtains d where "objs t y = Some d" "connfd d = connfd c" "loop_of t y = loop_of s y" "state c \<le> state d"
  using assms unfolding carries_def by blast

lemma carries_stream:
  assumes "carries D s t" "objs s y = Some c" "y \<notin> D"
  obtains more where "srv_stream t y = srv_stream s y @ more"
  using assms unfolding carries_def by blast

lemma carries_alive: "carries D s t \<Longrightarrow> objs s y \<noteq> None \<Longrightarrow> y \<notin> D \<Longrightarrow> objs t y \<noteq> None"
  unfolding carries_def by blast

lemma carries_trans:
  assumes st: "carries D s t" and tu: "carries D t u"
  shows "carries D s u"
  unfolding carries_def
proof (intro conjI allI impI)
  show "length (queues u) = length (queues s)" using st tu by (simp add: carries_def)
next
  fix l assume "l < length (queues s)"
  then obtain ts us where "queues t ! l = queues s ! l @ ts" "queues u ! l = queues t ! l @ us"
    using st tu unfolding carries_def by metis
  then show "\<exists>ts. queues u ! l = queues s ! l @ ts" by auto
next
  fix y c assume y: "objs s y = Some c" "y \<notin> D"
  then obtain d where d: "objs t y = Some d" "connfd d = connfd c" "loop_of t y = loop_of s y" "state c \<le> state d"
    by (rule carriesD [OF st])
  obtain e where e: "objs u y = Some e" "connfd e = connfd d" "loop_of u y = loop_of t y" "state d \<le> state e"
    by (rule carriesD [OF tu d(1) y(2)])
  obtain a where "srv_stream t y = srv_stream s y @ a" by (rule carries_stream [OF st y])
  moreover obtain b where "srv_stream u y = srv_stream t y @ b" by (rule carries_stream [OF tu d(1) y(2)])
  ultimately have "\<exists>more. srv_stream u y = srv_stream s y @ more" by simp
  with d e show "\<exists>d. objs u y = Some d \<and> connfd d = connfd c \<and> loop_of u y = loop_of s y \<and> state c \<le> state d \<and>
      (\<exists>more. srv_stream u y = srv_stream s y @ more)"
    by (auto intro: order_trans)
qed

lemma carries_view:
  "objs t = objs s \<Longrightarrow> loop_of t = loop_of s \<Longrightarrow> queues t = queues s \<Longrightarrow> sent t = sent s \<Longrightarrow> carries D s t"
  by (simp add: carries_def srv_stream_def)

lemma succeeds_bind:
  assumes "succeeds tbl base D E R s m"
    and "\<And>t. m = Inr t \<Longrightarrow> srv_good tbl base E R t \<Longrightarrow> carries D s t \<Longrightarrow> succeeds tbl base D F Q t (f t)"
  shows "succeeds tbl base D F Q s (bind_res m f)"
proof -
  obtain t where t: "m = Inr t" "srv_good tbl base E R t" "carries D s t" using assms(1) by (auto simp: succeeds_def)
  from assms(2) [OF this] obtain u where "f t = Inr u" "srv_good tbl base F Q u" "carries D t u"
    by (auto simp: succeeds_def)
  with t carries_trans [OF t(3)] show ?thesis by (auto simp: succeeds_def)
qed

lemma succeeds_mono: "succeeds tbl base D E R s r \<Longrightarrow> D \<subseteq> D' \<Longrightarrow> succeeds tbl base D' E R s r"
  unfolding succeeds_def carries_def by blast

lemma succeeds_from:
  "succeeds tbl base D E R t r \<Longrightarrow> carries D s t \<Longrightarrow> succeeds tbl base D E R s r"
  unfolding succeeds_def by (blast intro: carries_trans)

section \<open>Release\<close>

text \<open>A connection that nothing refers to is closed, so that its destructor leaves the loop alone.\<close>

lemma unreferenced_closed:
  assumes "srv_good tbl base E R s" "objs s x = Some c" "\<not> referenced x s"
  shows "state c = kDisconnected" "isNoneEvent (channel c)" "channels (regs s ! loop_of s x) (connfd c) = None"
proof -
  have "x \<notin> snd ` set (connections s)" using assms(3) by (simp add: referenced_iff)
  then show closed: "state c = kDisconnected" using assms by (auto simp: srv_good_def srv_open_def)
  have "conn_sound tbl (conn_view s x c)" using assms by (simp add: srv_good_def srv_conns_def)
  then show "isNoneEvent (channel c)" "channels (regs s ! loop_of s x) (connfd c) = None"
    using closed by (simp_all add: conn_sound_def conn_reg_def isNoneEvent_def interest_of_def)
qed

lemma release_succeeds:
  assumes good: "srv_good tbl base E R s"
  shows "succeeds tbl base {y. y = x \<and> \<not> referenced y s} E R s (release env x s)"
proof (cases "referenced x s \<or> objs s x = None")
  case True
  then show ?thesis using good by (auto simp: release_def)
next
  case False
  then obtain c where c: "objs s x = Some c" "\<not> referenced x s" by auto
  note closed = unreferenced_closed [OF good c]
  let ?t = "s\<lparr>objs := (objs s)(x := None)\<rparr>"
  have "release env x s = Inr ?t" using c closed(2) by (simp add: release_def destroy_channel_def)
  moreover have "srv_good tbl base E R ?t"
  proof -
    have "srv_conns tbl ?t"
      using good by (auto simp: srv_good_def srv_conns_def conn_view_def split: if_splits)
    moreover have "srv_fds base R ?t" using good unfolding srv_good_def srv_fds_def queued_fds_def by auto
    moreover have "srv_regs tbl base ?t" using good c(1) closed(3) unfolding srv_good_def srv_regs_def by fastforce
    moreover have "srv_open E ?t" using good unfolding srv_good_def srv_open_def by auto
    moreover have "srv_pool ?t" using good by (simp add: srv_good_def srv_pool_def)
    ultimately show ?thesis by (simp add: srv_good_def)
  qed
  ultimately show ?thesis using c(2) by (auto simp: carries_def srv_stream_def)
qed

lemma release_referenced_same: "release env x s = Inr t \<Longrightarrow> referenced y t = referenced y s"
  by (erule release_cases) (simp_all add: referenced_def)

lemma release_all_succeeds:
  "srv_good tbl base E R s \<Longrightarrow> succeeds tbl base {y \<in> set os. \<not> referenced y s} E R s (release_all env os s)"
proof (induction os arbitrary: s)
  case (Cons x os)
  let ?D = "{y \<in> set (x # os). \<not> referenced y s}"
  have "succeeds tbl base ?D E R s (release env x s)"
    by (rule succeeds_mono [OF release_succeeds [OF Cons.prems]]) auto
  moreover have "succeeds tbl base ?D E R t (release_all env os t)"
    if "release env x s = Inr t" "srv_good tbl base E R t" for t
    by (rule succeeds_mono [OF Cons.IH [OF that(2)]]) (auto simp: release_referenced_same [OF that(1)])
  ultimately show ?case by (auto intro: succeeds_bind)
qed simp

section \<open>Sends and callbacks of the application\<close>

lemma on_conn_succeeds:
  assumes good: "srv_good tbl base E R s" and c: "objs s x = Some c"
    and op: "op_result tbl (conn_view s x c) (f (conn_view s x c))"
  obtains ns t d where "on_conn x f s = Inr (ns, t)" "length ns \<le> 1" "carries {} s t" "objs t x = Some d"
    "srv_good tbl base (if CloseCalled \<in> set ns then insert x E else E) R t"
    "CloseCalled \<in> set ns \<Longrightarrow> state d = kDisconnected" "connections t = connections s"
proof -
  obtain w where w: "f (conn_view s x c) = Inr w" "conn_sound tbl w" "conn_local (conn_view s x c) w"
    "state c \<le> state (conn w)" "length (trace w) \<le> 1"
    "CloseCalled \<in> set (trace w) \<longleftrightarrow> state c \<noteq> kDisconnected \<and> state (conn w) = kDisconnected"
    "stream_grows (conn_view s x c) w"
    using op by (auto simp: op_result_def closes_def)
  let ?t = "conn_store x w s"
  have "on_conn x f s = Inr (trace w, ?t)" using c w(1) by (simp add: on_conn_def)
  moreover have "srv_good tbl base (if CloseCalled \<in> set (trace w) then insert x E else E) R ?t"
    using conn_store_good [OF good c w(3,2,4)] w(6) by simp
  moreover have "carries {} s ?t"
  proof -
    have "length (queues ?t) = length (queues s)" by (simp add: conn_store_def Let_def)
    moreover have "\<exists>ts. queues ?t ! l = queues s ! l @ ts" if "l < length (queues s)" for l
      using queue_grows [OF that] by (simp add: conn_store_def Let_def)
    moreover have "srv_stream ?t y = srv_stream s y" if "y \<noteq> x" for y
      using that by (simp add: srv_stream_def) (simp add: conn_store_def Let_def)
    moreover have "\<exists>more. srv_stream ?t x = srv_stream s x @ more"
      using w(7) c by (auto simp: srv_stream_def stream_grows_def conn_stream_def conn_view_def) (simp add: conn_store_def Let_def)
    ultimately show ?thesis using c w(3,4) by (auto simp: carries_def conn_local_def)
  qed
  ultimately show thesis using that [of "trace w" ?t "conn w"] w(5,6) by auto
qed

lemma conn_send_succeeds:
  assumes law: "env_law tbl env" and good: "srv_good tbl base E R s" and x: "objs s x \<noteq> None"
  shows "succeeds tbl base {} E R s (conn_send env l x data s)"
proof -
  obtain c where c: "objs s x = Some c" using x by auto
  let ?f = "send (ctl env) (loop_of s x = l) (wr env x data) data"
  have "conn_sound tbl (conn_view s x c)" using good c by (simp add: srv_good_def srv_conns_def)
  moreover have "epoll_law (ctl env) tbl" "write_law (wr env x data) data" using law by (simp_all add: env_law_def)
  ultimately have op: "op_result tbl (conn_view s x c) (?f (conn_view s x c))"
    using exec_result [of "ctl env" tbl "conn_view s x c" "Send (loop_of s x = l) (wr env x data) data"]
    by (simp add: plain_op_def)
  obtain ns t d where t: "on_conn x ?f s = Inr (ns, t)" "carries {} s t"
    "srv_good tbl base (if CloseCalled \<in> set ns then insert x E else E) R t"
    by (rule on_conn_succeeds [OF good c, where f = ?f, OF op])
  have "CloseCalled \<notin> set ns"
    using t(1) c by (auto simp: on_conn_def bind_res_eq_Inr send_def dest!: sendInLoop_local split: if_splits)
  then show ?thesis using t by (simp add: conn_send_def)
qed

lemma app_call_succeeds:
  assumes law: "env_law tbl env" and good: "srv_good tbl base E R s" and ok: "srv_ok X s"
    and x: "objs s (event_conn ev) \<noteq> None"
  shows "succeeds tbl base {} E R s (app_call env l ev s)"
proof -
  have sends: "succeeds tbl base {} E R u (fold (\<lambda>(o', data) r. bind_res r (conn_send env l o' data)) xs (Inr u))"
    if "srv_good tbl base E R u" "\<forall>(y, d)\<in>set xs. objs u y \<noteq> None" for xs u
    using that
  proof (induction xs arbitrary: u)
    case (Cons a xs)
    obtain y d where a: "a = (y, d)" by (cases a)
    obtain v where v: "conn_send env l y d u = Inr v" "srv_good tbl base E R v" "carries {} u v"
      using conn_send_succeeds [OF law Cons.prems(1), of y l d] Cons.prems(2) by (auto simp: a succeeds_def)
    have "\<forall>(y, d)\<in>set xs. objs v y \<noteq> None" using Cons.prems(2) carries_alive [OF v(3)] by auto
    from succeeds_from [OF Cons.IH [OF v(2) this] v(3)] show ?case using v(1) by (simp add: a)
  qed simp
  let ?s = "s\<lparr>app_events := app_events s @ [ev]\<rparr>"
  have "objs ?s y \<noteq> None" if "(y, d) \<in> set (app_sends env ev s)" for y d
  proof -
    have "y = event_conn ev \<or> y \<in> snd ` set (connections s)"
      using law that by (fastforce simp: env_law_def app_law_def)
    then show ?thesis using x ok by (auto simp: srv_ok_def srv_refs_def referenced_iff)
  qed
  then have "\<forall>(y, d)\<in>set (app_sends env ev s). objs ?s y \<noteq> None" by auto
  moreover have "srv_good tbl base E R ?s" using good by (rule srv_good_view) (simp_all add: queued_fds_def)
  ultimately have "succeeds tbl base {} E R ?s (fold (\<lambda>(o', data) r. bind_res r (conn_send env l o' data)) (app_sends env ev s) (Inr ?s))"
    using sends by blast
  moreover have "carries {} s ?s" by (rule carries_view) simp_all
  ultimately show ?thesis by (auto simp: app_call_def Let_def intro: succeeds_from)
qed

section \<open>Callbacks and events of a connection\<close>

lemma onMessage_succeeds:
  assumes "env_law tbl env" "srv_good tbl base E R s" "srv_ok X s" "objs s x \<noteq> None"
  shows "succeeds tbl base {} E R s (onMessage env x s)"
  using app_call_succeeds [OF assms(1-3)] assms(2,4) by (simp add: onMessage_def)

text \<open>Entries of the table with the descriptor of a connection are that connection.\<close>

lemma table_entry:
  assumes "srv_good tbl base E R s" "srv_ok X s" "objs s x = Some c" "(connfd c, y) \<in> set (connections s)"
  shows "y = x"
proof -
  have "map_option connfd (objs s y) = Some (connfd c)" using assms(2,4) by (auto simp: srv_ok_def srv_table_def)
  then show ?thesis using assms(1,3) unfolding srv_good_def srv_fds_def by auto
qed

text \<open>A local \<open>shared_ptr\<close> or a running functor keeps a connection alive through its close callback.\<close>

definition anchored :: "oid \<Rightarrow> 'k server \<Rightarrow> bool" where
  "anchored x s \<longleftrightarrow> x \<in> set (held s) \<or> Some x \<in> task_conn ` set (running s)"

lemma anchored_frame: "srv_frame s t \<Longrightarrow> anchored x t = anchored x s"
  by (simp add: anchored_def srv_frame_def)

lemma onClose_succeeds:
  assumes law: "env_law tbl env" and good: "srv_good tbl base (insert x E) R s" and ok: "srv_ok X s"
    and c: "objs s x = Some c" "state c = kDisconnected"
  shows "succeeds tbl base (if anchored x s then {} else {x}) E R s (onCloseConnection env x s)"
proof -
  let ?D = "if anchored x s then {} else {x}"
  let ?m = "if has_closeCallback s then app_call env (loop_of s x) (AppClose x) s else Inr s"
  obtain t where t: "?m = Inr t" "srv_good tbl base (insert x E) R t" "carries {} s t"
  proof (cases "has_closeCallback s")
    case True
    then show ?thesis using that app_call_succeeds [OF law good ok, of "AppClose x" "loop_of s x"] c(1)
      by (auto simp: succeeds_def)
  qed (use that [of s] good in simp)
  have "keeps s ?m" by (simp add: app_call_keeps)
  then have okt: "srv_ok X t" and frame: "srv_frame s t" using t(1) ok by (auto dest: keepsD)
  obtain d where d: "objs t x = Some d" "connfd d = connfd c" "state d = kDisconnected"
    by (rule carriesD [OF t(3) c(1)]) (use c(2) in auto)
  let ?gone = "map snd (filter (\<lambda>e. fst e = connfd c) (connections t))"
  let ?u = "t\<lparr>connections := map_erase (connfd c) (connections t)\<rparr>"
  have entry: "y = x" if "(connfd c, y) \<in> set (connections t)" for y
    using table_entry [OF t(2) okt d(1)] that d(2) by simp
  have left: "y \<in> snd ` set (connections ?u) \<longleftrightarrow> y \<in> snd ` set (connections t) \<and> y \<noteq> x" for y
  proof -
    have own: "(f, x) \<in> set (connections t) \<Longrightarrow> f = connfd c" for f
      using okt d by (auto simp: srv_ok_def srv_table_def)
    have "y \<in> snd ` set (connections ?u) \<longleftrightarrow> (\<exists>f. (f, y) \<in> set (connections t) \<and> f \<noteq> connfd c)"
      by (force simp: map_erase_def)
    moreover have "y \<in> snd ` set (connections t) \<longleftrightarrow> (\<exists>f. (f, y) \<in> set (connections t))" by force
    ultimately show ?thesis using entry own by blast
  qed
  have "srv_open E ?u"
    unfolding srv_open_def left using t(2) d by (auto simp: srv_good_def srv_open_def)
  then have u: "srv_good tbl base E R ?u"
    using t(2) by (subst srv_good_open [of _ t]) (simp_all add: srv_good_def queued_fds_def)
  have "anchored x s \<Longrightarrow> referenced x ?u"
    using anchored_frame [OF frame] by (auto simp: anchored_def referenced_iff)
  then have "{y \<in> set ?gone. \<not> referenced y ?u} \<subseteq> ?D" using entry by auto
  then have "succeeds tbl base ?D E R ?u (release_all env ?gone ?u)"
    by (rule succeeds_mono [OF release_all_succeeds [OF u]])
  moreover have "carries ?D s ?u"
  proof (rule carries_trans)
    show "carries ?D s t" using t(3) unfolding carries_def by blast
    show "carries ?D t ?u" by (rule carries_view) simp_all
  qed
  ultimately show ?thesis using c(1) t(1) by (simp add: onCloseConnection_def Let_def succeeds_from)
qed

text \<open>An operation with the calls it makes: the connection is destroyed at most if it closes.\<close>

lemma conn_do_parts:
  assumes law: "env_law tbl env" and good: "srv_good tbl base {} R s" and ok: "srv_ok X s" and c: "objs s x = Some c"
    and op: "op_result tbl (conn_view s x c) (f (conn_view s x c))" and fd: "keeps_fd f"
    and D: "\<And>w. f (conn_view s x c) = Inr w \<Longrightarrow> CloseCalled \<in> set (trace w) \<Longrightarrow> \<not> anchored x s \<Longrightarrow> x \<in> D"
  obtains ns t where "on_conn x f s = Inr (ns, t)" "carries {} s t" "succeeds tbl base D {} R t (dispatch_notes env x ns t)"
proof -
  obtain ns t d where t: "on_conn x f s = Inr (ns, t)" "length ns \<le> 1" "carries {} s t" "objs t x = Some d"
    "srv_good tbl base (if CloseCalled \<in> set ns then insert x {} else {}) R t"
    "CloseCalled \<in> set ns \<Longrightarrow> state d = kDisconnected"
    by (rule on_conn_succeeds [OF good c, where f = f, OF op]) (rule that)
  have kt: "keeps s (Inr t)" by (rule on_conn_keeps [OF t(1) fd])
  then have okt: "srv_ok X t" using ok by (rule keepsD)
  have closes: "x \<in> D" if "CloseCalled \<in> set ns" "\<not> anchored x t"
    using that t(1) c D anchored_frame [OF keepsD(1) [OF kt]] by (auto simp: on_conn_def bind_res_eq_Inr)
  have "succeeds tbl base D {} R t (dispatch_notes env x ns t)"
  proof (cases ns)
    case Nil
    then show ?thesis using t(5) by simp
  next
    case (Cons n ns')
    then have ns: "ns = [n]" using t(2) by simp
    have one: "dispatch_notes env x ns t = dispatch_note env x n t"
      by (cases "dispatch_note env x n t") (simp_all add: ns)
    have "succeeds tbl base D {} R t (dispatch_note env x n t)"
    proof (cases n)
      case MessageCalled
      then have "succeeds tbl base {} {} R t (onMessage env x t)"
        using t(4,5) ns by (intro onMessage_succeeds [OF law _ okt]) auto
      then show ?thesis using MessageCalled by (auto intro: succeeds_mono)
    next
      case CloseCalled
      then have "succeeds tbl base (if anchored x t then {} else {x}) {} R t (onCloseConnection env x t)"
        using t(4-6) ns by (intro onClose_succeeds [OF law _ okt]) auto
      moreover have "(if anchored x t then {} else {x}) \<subseteq> D" using CloseCalled ns closes by auto
      ultimately show ?thesis using CloseCalled by (auto intro: succeeds_mono)
    qed (use t(5) ns in simp_all)
    then show ?thesis by (simp only: one)
  qed
  with t(1,3) show thesis by (rule that)
qed

lemma conn_do_succeeds:
  assumes law: "env_law tbl env" and good: "srv_good tbl base {} R s" and ok: "srv_ok X s" and c: "objs s x = Some c"
    and op: "op_result tbl (conn_view s x c) (f (conn_view s x c))" and fd: "keeps_fd f"
    and D: "\<And>w. f (conn_view s x c) = Inr w \<Longrightarrow> CloseCalled \<in> set (trace w) \<Longrightarrow> \<not> anchored x s \<Longrightarrow> x \<in> D"
  shows "succeeds tbl base D {} R s (conn_do env x f s)"
proof -
  obtain ns t where t: "on_conn x f s = Inr (ns, t)" "carries {} s t" "succeeds tbl base D {} R t (dispatch_notes env x ns t)"
    by (rule conn_do_parts [OF law good ok c op fd, where D = D]) (blast intro: D that)+
  then have "carries D s t" by (auto simp: carries_def)
  then show ?thesis using t(1,3) by (simp add: conn_do_def succeeds_from)
qed

text \<open>An operation that ends in the closed state closes the connection for good.\<close>

definition closed :: "oid \<Rightarrow> 'k server \<Rightarrow> bool" where
  "closed x s \<longleftrightarrow> (\<exists>c. objs s x = Some c \<and> state c = kDisconnected)"

lemma closed_carries: "carries D s t \<Longrightarrow> x \<notin> D \<Longrightarrow> closed x s \<Longrightarrow> closed x t"
  by (auto simp: closed_def elim!: carriesD)

lemma conn_do_closed:
  assumes law: "env_law tbl env" and good: "srv_good tbl base {} R s" and ok: "srv_ok X s" and c: "objs s x = Some c"
    and op: "op_result tbl (conn_view s x c) (f (conn_view s x c))" and fd: "keeps_fd f" and "anchored x s"
    and w: "f (conn_view s x c) = Inr w" "state (conn w) = kDisconnected" and run: "conn_do env x f s = Inr t"
  shows "closed x t"
proof -
  obtain ns u where u: "on_conn x f s = Inr (ns, u)" "succeeds tbl base {} {} R u (dispatch_notes env x ns u)"
    by (rule conn_do_parts [OF law good ok c op fd, where D = "{}"]) (use assms(7) in auto)
  have "closed x u" using u(1) c w by (auto simp: on_conn_def closed_def)
  moreover have "carries {} u t" using u run by (simp add: conn_do_def)
  ultimately show ?thesis by (auto intro: closed_carries)
qed

text \<open>The four callbacks of a channel.\<close>

lemma callback_succeeds:
  assumes law: "env_law tbl env" and good: "srv_good tbl base {} R s" and ok: "srv_ok X s" and c: "objs s x = Some c"
    and read: "cb = ConnRead \<Longrightarrow> readv_law (rd env x) (input_buffer c)"
    and D: "cb = ConnClose \<or> cb = ConnRead \<and> rd env x = Delivered [] \<Longrightarrow> x \<in> D"
  shows "succeeds tbl base D {} R s (conn_callback env x cb s)"
proof -
  let ?w = "conn_view s x c"
  have sound: "conn_sound tbl ?w" "trace ?w = []" using good c by (simp_all add: srv_good_def srv_conns_def)
  have ec: "epoll_law (ctl env) tbl" and wl: "\<And>data. write_law (wr env x data) data" using law by (simp_all add: env_law_def)
  note result = exec_result [OF ec sound]
  show ?thesis
  proof (cases cb)
    case ConnRead
    let ?f = "handleRead (ctl env) (rd env x) (now env)"
    have law': "readv_law (rd env x) (input_buffer c)" using ConnRead by (rule read)
    then have "op_result tbl ?w (?f ?w)" using result [of "Readable (rd env x) (now env)"] by (simp add: plain_op_def)
    moreover have "x \<in> D" if "?f ?w = Inr w" "CloseCalled \<in> set (trace w)" for w
      using handleRead_closes [of ?w, OF _ _ _ that] sound law' D ConnRead by (simp add: conn_sound_def)
    ultimately show ?thesis unfolding ConnRead conn_callback.simps
      by (intro conn_do_succeeds [OF law good ok c] keeps_fd_read)
  next
    case ConnWrite
    let ?f = "handleWrite (ctl env) (wr env x (contents (output_buffer c)))"
    have "op_result tbl ?w (?f ?w)"
      using wl result [of "Writable (wr env x (contents (output_buffer c)))"] by (simp add: plain_op_def)
    moreover have "x \<in> D" if "?f ?w = Inr w" "CloseCalled \<in> set (trace w)" for w
      using handleWrite_local [OF that(1)] that(2) by auto
    ultimately have "succeeds tbl base D {} R s (conn_do env x ?f s)"
      by (intro conn_do_succeeds [OF law good ok c] keeps_fd_write)
    then show ?thesis using ConnWrite c by simp
  next
    case ConnClose
    have "op_result tbl ?w (Inr (handleClose (ctl env) ?w))" using result [of HungUp] by (simp add: plain_op_def)
    then show ?thesis using ConnClose D
      by (simp add: conn_do_succeeds [OF law good ok c] keeps_fd_pure)
  next
    case ConnError
    have "op_result tbl ?w (Inr (handleError ?w))" using result [of FdError] by (simp add: plain_op_def)
    moreover have "CloseCalled \<notin> set (trace (handleError ?w))" by (simp add: handleError_def)
    ultimately have "succeeds tbl base D {} R s (conn_do env x (\<lambda>w. Inr (handleError w)) s)"
      by (intro conn_do_succeeds [OF law good ok c] keeps_fd_pure) auto
    then show ?thesis using ConnError by simp
  qed
qed

text \<open>
  An event of the loop.  Before the last of its four tests \<open>handleEvent\<close> may close the connection only by
  reading the end of file (or \<open>EPOLLRDHUP\<close>); without that it reads a live channel at each test.
\<close>

definition event_ok :: "'k srv_env \<Rightarrow> oid \<Rightarrow> uint32 \<Rightarrow> 'k server \<Rightarrow> bool" where
  "event_ok env x ev s \<longleftrightarrow> (\<exists>c. objs s x = Some c \<and> (ev AND (EPOLLIN OR EPOLLPRI OR EPOLLRDHUP) \<noteq> 0 \<longrightarrow>
     ev AND EPOLLRDHUP = 0 \<and> rd env x \<noteq> Delivered [] \<and> readv_law (rd env x) (input_buffer c)))"

lemma conn_store_conn:
  "conn_store x ((conn_view s x c)\<lparr>conn := c'\<rparr>) s = s\<lparr>objs := (objs s)(x \<mapsto> c')\<rparr>"
  by (simp add: conn_store_def conn_view_def Let_def)

lemma setRevents_good:
  assumes "srv_good tbl base E R s" "objs s x = Some c"
  shows "srv_good tbl base E R (s\<lparr>objs := (objs s)(x \<mapsto> c\<lparr>channel := setRevents ev (channel c)\<rparr>)\<rparr>)"
proof -
  let ?c = "c\<lparr>channel := setRevents ev (channel c)\<rparr>"
  have "conn_sound tbl (conn_view s x c)" using assms by (simp add: srv_good_def srv_conns_def)
  then have "conn_sound tbl ((conn_view s x c)\<lparr>conn := ?c\<rparr>)"
    by (simp add: conn_sound_def conn_reg_def interest_of_def setRevents_def)
  moreover have "conn_local (conn_view s x c) ((conn_view s x c)\<lparr>conn := ?c\<rparr>)" by (simp add: setRevents_def)
  ultimately show ?thesis using conn_store_good [OF assms, of "(conn_view s x c)\<lparr>conn := ?c\<rparr>"]
    by (simp add: conn_store_conn split: if_splits)
qed

lemma call_error:
  assumes "objs s x = Some c"
  shows "conn_callback env x ConnError s = Inr s"
proof -
  have "conn_store x (note_that ErrorLogged (conn_view s x c)) s = s"
    using assms by (simp add: conn_store_def conn_view_def note_that_def Let_def fun_upd_idem)
  then show ?thesis using assms by (simp add: conn_do_def on_conn_def handleError_def)
qed

text \<open>The three parts of \<open>handleEvent\<close> that call the connection, on a live object.\<close>

lemma live_wired: "srv_good tbl base E R s \<Longrightarrow> objs s x = Some c \<Longrightarrow> wired (channel c)"
  by (simp add: srv_good_def srv_conns_def)

lemma read_part_succeeds:
  assumes law: "env_law tbl env" and good: "srv_good tbl base {} R s" and ok: "srv_ok X s" and c: "objs s x = Some c"
    and read: "revents (channel c) AND (EPOLLIN OR EPOLLPRI OR EPOLLRDHUP) \<noteq> 0 \<Longrightarrow>
      revents (channel c) AND EPOLLRDHUP = 0 \<and> rd env x \<noteq> Delivered [] \<and> readv_law (rd env x) (input_buffer c)"
  shows "succeeds tbl base {} {} R s (handle_read_part (conn_callback env x) (channel c) s)"
proof (cases "revents (channel c) AND (EPOLLIN OR EPOLLPRI OR EPOLLRDHUP) = 0")
  case False
  note r = read [OF False]
  have "succeeds tbl base {} {} R s (conn_callback env x ConnRead s)"
    using r by (intro callback_succeeds [OF law good ok c]) auto
  then show ?thesis using False r live_wired [OF good c]
    by (simp add: handle_read_part_def call_def wired_def del: conn_callback.simps)
qed (use good in \<open>simp add: handle_read_part_def\<close>)

lemma write_part_succeeds:
  assumes law: "env_law tbl env" and good: "srv_good tbl base {} R s" and ok: "srv_ok X s" and c: "objs s x = Some c"
  shows "succeeds tbl base {} {} R s (handle_write_part (conn_callback env x) (channel c) s)"
proof -
  have "succeeds tbl base {} {} R s (conn_callback env x ConnWrite s)"
    by (rule callback_succeeds [OF law good ok c]) simp_all
  then show ?thesis using live_wired [OF good c] good
    by (simp add: handle_write_part_def call_def wired_def del: conn_callback.simps)
qed

lemma hup_part_succeeds:
  assumes law: "env_law tbl env" and good: "srv_good tbl base {} R s" and ok: "srv_ok X s" and c: "objs s x = Some c"
  shows "succeeds tbl base {x} {} R s (handle_hup_part (conn_callback env x) (channel c) s)"
proof -
  have "succeeds tbl base {x} {} R s (conn_callback env x ConnClose s)"
    by (rule callback_succeeds [OF law good ok c]) simp_all
  then show ?thesis using live_wired [OF good c] good
    by (simp add: handle_hup_part_def call_def wired_def del: conn_callback.simps)
qed

lemma part_keeps:
  "keeps s (handle_read_part (conn_callback env x) ch s)" "keeps s (handle_write_part (conn_callback env x) ch s)"
  by (simp_all add: handle_read_part_def handle_write_part_def call_def conn_callback_keeps split: option.split)

lemma loop_event_succeeds:
  assumes law: "env_law tbl env" and good: "srv_good tbl base {} R s" and ok: "srv_ok X s" and ev: "event_ok env x ev s"
  shows "succeeds tbl base {x} {} R s (loop_event env x ev s)"
proof -
  obtain c where c: "objs s x = Some c" and read: "ev AND (EPOLLIN OR EPOLLPRI OR EPOLLRDHUP) \<noteq> 0 \<Longrightarrow>
      ev AND EPOLLRDHUP = 0 \<and> rd env x \<noteq> Delivered [] \<and> readv_law (rd env x) (input_buffer c)"
    using ev by (auto simp: event_ok_def)
  let ?c = "c\<lparr>channel := setRevents ev (channel c)\<rparr>" and ?run = "conn_callback env x"
  let ?s = "s\<lparr>objs := (objs s)(x \<mapsto> ?c)\<rparr>"
  have s: "srv_good tbl base {} R ?s" "objs ?s x = Some ?c" "srv_ok X ?s" "carries {} s ?s"
    using setRevents_good [OF good c] modify_conn_keeps [OF c, of ?c] ok c by (auto dest: keepsD simp: carries_def srv_stream_def)
  have error: "handle_error_part ?run (channel ?c) ?s = Inr ?s"
    using live_wired [OF s(1,2)] call_error [OF s(2)]
    by (simp add: handle_error_part_def call_def wired_def del: conn_callback.simps)
  obtain t where t: "handle_read_part ?run (channel ?c) ?s = Inr t" "srv_good tbl base {} R t" "carries {} ?s t"
    using read_part_succeeds [OF law s(1,3,2)] read by (auto simp: setRevents_def succeeds_def)
  then obtain d where d: "objs t x = Some d" using carries_alive [OF t(3), of x] s(2) by auto
  have okt: "srv_ok X t" using part_keeps(1) [of ?s env x "channel ?c"] t(1) s(3) by (auto dest: keepsD)
  obtain u where u: "handle_write_part ?run (channel d) t = Inr u" "srv_good tbl base {} R u" "carries {} t u"
    using write_part_succeeds [OF law t(2) okt d] by (auto simp: succeeds_def)
  then obtain e where e: "objs u x = Some e" using carries_alive [OF u(3), of x] d by auto
  have oku: "srv_ok X u" using part_keeps(2) [of t env x "channel d"] u(1) okt by (auto dest: keepsD)
  have "carries {} s u" using s(4) t(3) u(3) by (blast intro: carries_trans)
  then have "carries {x} s u" unfolding carries_def by blast
  with hup_part_succeeds [OF law u(2) oku e]
  have "succeeds tbl base {x} {} R s (handle_hup_part ?run (channel e) u)" by (rule succeeds_from)
  then show ?thesis using s(2) error t(1) d u(1) e c
    by (simp add: loop_event_def handleEvent_def deref_def conn_channel_def)
qed
end
