(* ===== verification/Server_Safety.thy ===== *)
theory Server_Safety
  imports Server_Sound "HOL-Library.Multiset"
begin

text \<open>
  The safety of the server (\<open>reactor/Server.cpp\<close>): creation of connections, batches of functors, the heartbeat
  and the set-up succeed in every sound state and keep it, and so does any sequence of operations.
  The properties say what that means: no fault, a table of exactly the open connections, no
  dangling pointer in epoll, and rounds of the loop that find every channel of their batch alive.
\<close>

section \<open>New connections\<close>

text \<open>A descriptor without an owner is not in the registry of any loop.\<close>

lemma fresh_fd_unregistered:
  assumes "srv_good tbl base E (fd # R) s" "l < length (queues s)"
  shows "channels (regs s ! l) fd = None" "mirrors tbl (regs s ! l)"
proof -
  have own: "fd \<notin> base" "\<And>x c. objs s x = Some c \<Longrightarrow> connfd c \<noteq> fd"
    using assms(1) unfolding srv_good_def srv_fds_def by auto
  have reg: "mirrors tbl (regs s ! l)" "\<And>f p. channels (regs s ! l) f = Some p \<Longrightarrow>
      f \<in> base \<or> (\<exists>c. objs s p = Some c \<and> connfd c = f \<and> loop_of s p = l)"
    using assms by (auto simp: srv_good_def srv_regs_def)
  show "channels (regs s ! l) fd = None"
    using own reg(2) [of fd] by (cases "channels (regs s ! l) fd") auto
  show "mirrors tbl (regs s ! l)" by (rule reg(1))
qed

lemma new_conn_fields:
  "connfd (conn (new_conn ec p fd n clk lp)) = fd" "self (conn (new_conn ec p fd n clk lp)) = p"
  "wired (channel (conn (new_conn ec p fd n clk lp)))" "state (conn (new_conn ec p fd n clk lp)) = kConnected"
  "g \<noteq> fd \<Longrightarrow> channels (registry (new_conn ec p fd n clk lp)) g = channels lp g"
  by (simp_all add: new_conn_def wired_def channel_op_defs new_channel_def updateChannel_frame)

text \<open>The new connection and the registry of its loop.\<close>

definition creation :: "('k \<Rightarrow> interest) \<Rightarrow> 'k srv_env \<Rightarrow> nat \<Rightarrow> fd \<Rightarrow> 'k server \<Rightarrow> 'k conn_world \<Rightarrow> bool" where
  "creation tbl env l fd s w \<longleftrightarrow> conn_sound tbl w \<and> connfd (conn w) = fd \<and> self (conn w) = alloc env s \<and>
     wired (channel (conn w)) \<and> state (conn w) = kConnected \<and> l < length (regs s) \<and> objs s (alloc env s) = None \<and>
     channels (registry w) fd = Some (alloc env s) \<and>
     (\<forall>g. g \<noteq> fd \<longrightarrow> channels (registry w) g = channels (regs s ! l) g) \<and>
     objs (created env l fd s) = (objs s)(alloc env s \<mapsto> conn w) \<and> regs (created env l fd s) = (regs s)[l := registry w]"

lemma creation_exists:
  assumes law: "env_law tbl env" and good: "srv_good tbl base E (fd # R) s" and ok: "srv_ok X s"
    and l: "l < length (queues s)"
  obtains w where "creation tbl env l fd s w"
proof -
  let ?w = "new_conn (ctl env) (alloc env s) fd (conn_count s) (now env) (regs s ! l)"
  let ?v = "?w\<lparr>conn := (conn ?w)\<lparr>has_message := True, has_close := True\<rparr>\<rparr>"
  note free = fresh_fd_unregistered [OF good l]
  have "tbl (kern (regs s ! l)) fd = None" using mirrorsD [OF free(2), of fd] free(1) by simp
  then have wf: "conn_wf tbl ?w"
    using law free by (intro new_conn_wf) (simp_all add: env_law_def roomy_def)
  then have "conn_sound tbl ?v" by (simp add: conn_sound_def conn_wf_def conn_reg_def interest_of_def)
  moreover have "channels (registry ?w) fd = Some (alloc env s)"
    using wf by (simp add: conn_wf_def conn_reg_def new_conn_fields)
  moreover have "objs s (alloc env s) = None" using law ok by (simp add: env_law_def fresh_env_def srv_ok_def)
  moreover have "l < length (regs s)" using good l by (simp add: srv_good_def srv_regs_def)
  ultimately have "creation tbl env l fd s ?v"
    by (simp add: creation_def new_conn_fields) (simp add: created_def Let_def)
  then show thesis by (rule that)
qed

lemma created_conns:
  assumes w: "creation tbl env l fd s w" and good: "srv_conns tbl s"
    and fds: "\<And>y d. objs s y = Some d \<Longrightarrow> connfd d \<noteq> fd"
  shows "srv_conns tbl (created env l fd s)"
  unfolding srv_conns_def
proof (intro allI impI)
  let ?t = "created env l fd s" and ?o = "alloc env s"
  fix y d assume d: "objs ?t y = Some d"
  show "self d = y \<and> wired (channel d) \<and> loop_of ?t y < length (regs ?t) \<and> conn_sound tbl (conn_view ?t y d)"
  proof (cases "y = ?o")
    case True
    then have c: "d = conn w" using d w by (simp add: creation_def)
    show ?thesis unfolding c using True w by (simp add: creation_def conn_sound_def conn_reg_def)
  next
    case False
    then have y: "objs s y = Some d" using d w by (simp add: creation_def)
    then have "self d = y \<and> wired (channel d) \<and> loop_of s y < length (regs s) \<and> conn_sound tbl (conn_view s y d)"
      using good by (simp add: srv_conns_def)
    moreover have "channels (registry w) (connfd d) = channels (regs s ! l) (connfd d)"
      using w fds [OF y] by (simp add: creation_def)
    ultimately show ?thesis using False w
      by (cases "loop_of s y = l") (simp_all add: creation_def conn_sound_def conn_reg_def)
  qed
qed

lemma created_regs:
  assumes w: "creation tbl env l fd s w" and good: "srv_regs tbl base s"
  shows "srv_regs tbl base (created env l fd s)"
proof -
  let ?t = "created env l fd s" and ?o = "alloc env s"
  have "mirrors tbl (regs ?t ! k)" if "k < length (regs s)" for k
    using good w that by (cases "k = l") (simp_all add: creation_def srv_regs_def conn_sound_def conn_reg_def)
  moreover have "f \<in> base \<or> (\<exists>c. objs ?t p = Some c \<and> connfd c = f \<and> loop_of ?t p = k)"
    if k: "k < length (regs s)" and p: "channels (regs ?t ! k) f = Some p" for k f p
  proof (cases "k = l \<and> f = fd")
    case True
    then have "p = ?o" using p w by (simp add: creation_def)
    then show ?thesis using True w by (simp add: creation_def)
  next
    case False
    then have "channels (regs s ! k) f = Some p" using p w k by (cases "k = l") (auto simp: creation_def)
    then have "f \<in> base \<or> (\<exists>c. objs s p = Some c \<and> connfd c = f \<and> loop_of s p = k)"
      using good k by (simp add: srv_regs_def)
    moreover have "p \<noteq> ?o" if "objs s p \<noteq> None" using w that by (auto simp: creation_def)
    ultimately show ?thesis using w by (auto simp: creation_def)
  qed
  moreover have "length (regs ?t) = length (regs s)" using w by (simp add: creation_def)
  ultimately show ?thesis using good by (simp add: srv_regs_def)
qed

lemma created_good:
  assumes law: "env_law tbl env" and good: "srv_good tbl base {} (fd # R) s" and ok: "srv_ok X s"
    and l: "l < length (queues s)"
  shows "srv_good tbl base {} R (created env l fd s)" "carries {} s (created env l fd s)" "replaced fd s = []"
proof -
  let ?t = "created env l fd s"
  obtain w where w: "creation tbl env l fd s w" using law good ok l by (rule creation_exists)
  have t: "objs ?t = (objs s)(alloc env s \<mapsto> conn w)"
    and new: "objs s (alloc env s) = None" "connfd (conn w) = fd" "state (conn w) = kConnected"
    using w by (simp_all add: creation_def)
  have fds: "\<forall>y d. objs s y = Some d \<longrightarrow> connfd d \<noteq> fd"
    using good unfolding srv_good_def srv_fds_def by auto
  have nofd: "fst e \<noteq> fd" if "e \<in> set (connections s)" for e
  proof -
    have "map_option connfd (objs s (snd e)) = Some (fst e)" using ok that by (auto simp: srv_ok_def srv_table_def)
    then show ?thesis using fds by blast
  qed
  then show "replaced fd s = []" by (simp add: replaced_def filter_empty_conv)
  have "sorted_wrt (<) (map fst (connections s))" using ok by (simp add: srv_ok_def srv_table_def)
  then have conns: "set (connections ?t) = insert (fd, alloc env s) (set (connections s))"
    using map_put_set [of "connections s" fd "alloc env s"] nofd by auto
  have "srv_stream ?t y = srv_stream s y" if "y \<noteq> alloc env s" for y
    using that by (simp add: srv_stream_def t) (simp add: created_def Let_def)
  then show "carries {} s ?t" using new by (auto simp: carries_def t)
  have "srv_conns tbl ?t" using created_conns [OF w] fds good by (simp add: srv_good_def)
  moreover have "srv_fds base R ?t"
  proof -
    have old: "distinct (fd # R @ queued_fds s)" "\<forall>f\<in>set (fd # R @ queued_fds s). f \<notin> base \<and> (\<forall>x c. objs s x = Some c \<longrightarrow> connfd c \<noteq> f)"
      "\<forall>x c. objs s x = Some c \<longrightarrow> connfd c \<notin> base"
      "\<forall>x y c d. objs s x = Some c \<longrightarrow> objs s y = Some d \<longrightarrow> connfd c = connfd d \<longrightarrow> x = y"
      using good by (simp_all add: srv_good_def srv_fds_def)
    have "\<forall>x y c d. objs ?t x = Some c \<longrightarrow> objs ?t y = Some d \<longrightarrow> connfd c = connfd d \<longrightarrow> x = y"
    proof (intro allI impI)
      have only: "x = alloc env s" if "objs ?t x = Some c" "connfd c = fd" for x c
        using fds that by (cases "x = alloc env s") (simp_all add: t)
      fix x y c d assume xy: "objs ?t x = Some c" "objs ?t y = Some d" "connfd c = connfd d"
      show "x = y"
      proof (cases "connfd c = fd")
        case True
        then show ?thesis using xy only [of x c] only [of y d] by simp
      next
        case False
        then show ?thesis using xy old(4) new(2) by (auto simp: t split: if_splits)
      qed
    qed
    moreover have q: "queued_fds ?t = queued_fds s" by (simp add: queued_fds_def)
    have own: "connfd c = fd \<or> objs s x = Some c" if "objs ?t x = Some c" for x c
      using that new(2) by (cases "x = alloc env s") (simp_all add: t)
    have "f \<notin> base \<and> (\<forall>x c. objs ?t x = Some c \<longrightarrow> connfd c \<noteq> f)" if f: "f \<in> set (R @ queued_fds ?t)" for f
    proof -
      have "f \<noteq> fd" "f \<in> set (fd # R @ queued_fds s)" using old(1) f q by auto
      then show ?thesis using old(2) own by metis
    qed
    moreover have "\<forall>x c. objs ?t x = Some c \<longrightarrow> connfd c \<notin> base" using old(2,3) own by (metis list.set_intros(1))
    ultimately show ?thesis using old(1) q unfolding srv_fds_def by simp
  qed
  moreover have "srv_regs tbl base ?t" using created_regs [OF w] good by (simp add: srv_good_def)
  moreover have "srv_open {} ?t" using good new unfolding srv_good_def srv_open_def conns t by auto
  moreover have "srv_pool ?t" using good by (simp add: srv_good_def srv_pool_def)
  ultimately show "srv_good tbl base {} R ?t" by (simp add: srv_good_def)
qed

lemma create_conn_succeeds:
  assumes law: "env_law tbl env" and good: "srv_good tbl base {} (fd # R) s" and ok: "srv_ok X s"
    and l: "l < length (queues s)"
  shows "succeeds tbl base {} {} R s (create_conn env l fd s)"
proof -
  note t = created_good [OF assms]
  have "srv_ok X (created env l fd s)"
    using created_ok [of env X s fd l] law ok t(3) by (simp add: env_law_def)
  moreover have "objs (created env l fd s) (alloc env s) \<noteq> None" by (simp add: created_def Let_def)
  ultimately have "succeeds tbl base {} {} R (created env l fd s) (create_conn env l fd s)"
    using app_call_succeeds [OF law t(1), of X "AppConnection (alloc env s)" l] t(1,3)
    by (simp add: create_conn_created)
  then show ?thesis using t(2) by (rule succeeds_from)
qed

section \<open>Functors, heartbeat and the other operations\<close>

lemma run_srv_task_succeeds:
  assumes law: "env_law tbl env" and ok: "srv_ok X s" and l: "l < length (queues s)"
    and good: "srv_good tbl base {} (new_fd t @ R) s"
    and live: "\<And>x. task_conn t = Some x \<Longrightarrow> objs s x \<noteq> None \<and> anchored x s"
  shows "succeeds tbl base {} {} R s (run_srv_task env l t s)"
proof (cases t)
  case (NewConn fd)
  then show ?thesis using create_conn_succeeds [OF law _ ok l] good by simp
next
  case (ConnTask x k)
  obtain c where c: "objs s x = Some c" "anchored x s" using live ConnTask by auto
  have good': "srv_good tbl base {} R s" using good ConnTask by simp
  let ?ans = "case k of SendTask data \<Rightarrow> wr env x data | _ \<Rightarrow> Done 0"
  have "conn_sound tbl (conn_view s x c)" using good' c by (simp add: srv_good_def srv_conns_def)
  then have "op_result tbl (conn_view s x c) (run_task (ctl env) ?ans k (conn_view s x c))"
    using law by (intro task_result) (auto simp: env_law_def)
  then have "succeeds tbl base {} {} R s (conn_do env x (run_task (ctl env) ?ans k) s)"
    using c(2) by (intro conn_do_succeeds [OF law good' ok c(1)] keeps_fd_task) simp_all
  then show ?thesis using ConnTask by (cases k) simp_all
qed

text \<open>
  A batch: \<open>running\<close> keeps the connections of its functors alive, so that no functor of the batch destroys a
  connection.
\<close>

lemma run_srv_task_step:
  assumes law: "env_law tbl env" and ok: "srv_ok {} s" and l: "l < length (queues s)"
    and good: "srv_good tbl base {} (new_fds (t # ts) @ R) s" and run: "set (t # ts) \<subseteq> set (running s)"
  obtains u where "run_srv_task env l t s = Inr u" "srv_good tbl base {} (new_fds ts @ R) u" "carries {} s u"
    "srv_ok {} u" "l < length (queues u)" "set ts \<subseteq> set (running u)" "srv_frame s u"
proof -
  have "objs s x \<noteq> None \<and> anchored x s" if "task_conn t = Some x" for x
  proof -
    have "anchored x s" using run that by (force simp: anchored_def)
    then show ?thesis using ok by (auto simp: srv_ok_def srv_refs_def referenced_iff anchored_def)
  qed
  then obtain u where u: "run_srv_task env l t s = Inr u" "srv_good tbl base {} (new_fds ts @ R) u" "carries {} s u"
    using run_srv_task_succeeds [OF law ok l, of base t "new_fds ts @ R"] good by (auto simp: succeeds_def)
  have "fresh_env env" using law by (simp add: env_law_def)
  then have "srv_frame s u" "srv_ok {} u" using run_srv_task_keeps [of env s l t] u(1) ok by (auto dest: keepsD)
  with u l run show thesis by (intro that) (auto simp: srv_frame_def srv_size_def)
qed

lemma run_srv_tasks_succeeds:
  assumes law: "env_law tbl env"
  shows "srv_ok {} s \<Longrightarrow> l < length (queues s) \<Longrightarrow> srv_good tbl base {} (new_fds ts @ R) s \<Longrightarrow>
    set ts \<subseteq> set (running s) \<Longrightarrow> succeeds tbl base {} {} R s (run_srv_tasks env l ts s)"
proof (induction ts arbitrary: s)
  case (Cons t ts)
  obtain u where u: "run_srv_task env l t s = Inr u" "srv_good tbl base {} (new_fds ts @ R) u" "carries {} s u"
    "srv_ok {} u" "l < length (queues u)" "set ts \<subseteq> set (running u)"
    by (rule run_srv_task_step [OF law Cons.prems])
  from succeeds_from [OF Cons.IH [OF u(4,5,2,6)] u(3)] show ?case using u(1) by simp
qed simp

lemma queued_fds_clear:
  assumes "l < length Q"
  shows "mset (concat (map new_fds Q)) = mset (new_fds (Q ! l) @ concat (map new_fds (Q[l := []])))"
  using assms
proof (induction Q arbitrary: l)
  case (Cons q Q)
  then show ?case by (cases l) (simp_all add: add.left_commute)
qed simp

text \<open>\<open>doPendingFunctors\<close>.\<close>

definition srv_sound :: "('k \<Rightarrow> interest) \<Rightarrow> fd set \<Rightarrow> 'k server \<Rightarrow> bool" where
  "srv_sound tbl base s \<longleftrightarrow> srv_wf s \<and> srv_good tbl base {} [] s"

text \<open>The state in which the batch of loop \<open>l\<close> has been taken out of its queue.\<close>

definition batch_taken :: "nat \<Rightarrow> 'k server \<Rightarrow> 'k server" where
  "batch_taken l s = s\<lparr>queues := (queues s)[l := []], running := queues s ! l\<rparr>"

lemma batch_taken_good:
  assumes s: "srv_sound tbl base s" and l: "l < length (queues s)"
  shows "srv_ok {} (batch_taken l s)" "srv_good tbl base {} (new_fds (queues s ! l) @ []) (batch_taken l s)"
proof -
  let ?batch = "queues s ! l" and ?s = "batch_taken l s"
  have wf: "srv_ok {} s" "held s = []" "running s = []" and good: "srv_good tbl base {} [] s"
    using s by (simp_all add: srv_sound_def srv_wf_def)
  have "referenced x s \<longleftrightarrow> referenced x ?s" for x
    using list_ex_clear_at [OF l, of "Some x" task_conn] wf(2,3) by (auto simp: referenced_iff batch_taken_def)
  then show "srv_ok {} ?s" using srv_okI [OF wf(1), of ?s "{}"] by (simp add: batch_taken_def)
  have m: "mset (queued_fds s) = mset (new_fds ?batch @ queued_fds ?s)"
    using queued_fds_clear [OF l] by (simp add: queued_fds_def batch_taken_def)
  note fds = mset_eq_setD [OF m] mset_eq_imp_distinct_iff [OF m]
  have "srv_fds base (new_fds ?batch @ []) ?s" using good fds by (simp add: srv_good_def srv_fds_def) (simp add: batch_taken_def)
  then show "srv_good tbl base {} (new_fds ?batch @ []) ?s"
    using good by (subst srv_good_fds [of _ s]) (simp_all add: srv_good_def srv_open_def srv_pool_def batch_taken_def)
qed

lemma loop_pending_split:
  "loop_pending env l s = bind_res (run_srv_tasks env l (queues s ! l) (batch_taken l s))
     (\<lambda>u. release_all env (List.map_filter task_conn (queues s ! l)) (u\<lparr>running := []\<rparr>))"
  by (simp add: loop_pending_def batch_taken_def Let_def)

lemma loop_pending_sound:
  assumes law: "env_law tbl env" and s: "srv_sound tbl base s" and l: "l < length (queues s)"
  shows "\<exists>t. loop_pending env l s = Inr t \<and> srv_sound tbl base t"
proof -
  note taken = batch_taken_good [OF s l]
  obtain u where u: "run_srv_tasks env l (queues s ! l) (batch_taken l s) = Inr u" "srv_good tbl base {} [] u"
    using run_srv_tasks_succeeds [OF law taken(1) _ taken(2)] l by (auto simp: succeeds_def batch_taken_def)
  let ?u = "u\<lparr>running := []\<rparr>"
  have "srv_good tbl base {} [] ?u" using u(2) by (rule srv_good_view) (simp_all add: queued_fds_def)
  from release_all_succeeds [OF this, of "List.map_filter task_conn (queues s ! l)" env]
  obtain t where t: "release_all env (List.map_filter task_conn (queues s ! l)) ?u = Inr t" "srv_good tbl base {} [] t"
    by (auto simp: succeeds_def)
  have run: "loop_pending env l s = Inr t" using u(1) t(1) by (simp add: loop_pending_split)
  have "fresh_env env" "srv_wf s" using law s by (simp_all add: env_law_def srv_sound_def)
  from loop_pending_wf(1) [OF this l run] show ?thesis using run t(2) by (simp add: srv_sound_def)
qed

lemma srv_wf_keeps: "srv_wf s \<Longrightarrow> keeps s (Inr t) \<Longrightarrow> srv_wf t"
  by (auto simp: srv_wf_def keeps_def srv_frame_def)

text \<open>An operation that succeeds and keeps the references gives a sound state again.\<close>

lemma sound_result:
  "srv_sound tbl base s \<Longrightarrow> succeeds tbl base D {} [] s r \<Longrightarrow> keeps s r \<Longrightarrow> \<exists>t. r = Inr t \<and> srv_sound tbl base t"
  by (auto simp: srv_sound_def succeeds_def intro: srv_wf_keeps)

lemma loop_event_sound:
  assumes "env_law tbl env" "srv_sound tbl base s" "event_ok env x ev s"
  shows "\<exists>t. loop_event env x ev s = Inr t \<and> srv_sound tbl base t"
proof (rule sound_result [OF assms(2) _ loop_event_keeps])
  show "succeeds tbl base {x} {} [] s (loop_event env x ev s)"
    using assms by (intro loop_event_succeeds [where X = "{}"]) (auto simp: srv_sound_def srv_wf_def)
qed

lemma conn_send_sound:
  assumes "env_law tbl env" "srv_sound tbl base s" "referenced x s"
  shows "\<exists>t. conn_send env l x data s = Inr t \<and> srv_sound tbl base t"
proof (rule sound_result [OF assms(2) _ conn_send_keeps])
  show "succeeds tbl base {} {} [] s (conn_send env l x data s)"
    using assms by (intro conn_send_succeeds) (auto simp: srv_sound_def srv_wf_def srv_ok_def srv_refs_def)
qed

text \<open>Accepting: the descriptor is new to the process.\<close>

definition fresh_fd :: "fd set \<Rightarrow> 'k server \<Rightarrow> fd \<Rightarrow> bool" where
  "fresh_fd base s fd \<longleftrightarrow> fd \<notin> base \<and> fd \<notin> set (queued_fds s) \<and> (\<forall>x c. objs s x = Some c \<longrightarrow> connfd c \<noteq> fd)"

lemma queued_fds_push:
  assumes "l < length Q"
  shows "mset (concat (map new_fds (Q[l := Q ! l @ ts]))) = mset (new_fds ts @ concat (map new_fds Q))"
  using assms
proof (induction Q arbitrary: l)
  case (Cons q Q)
  then show ?case by (cases l) (simp_all add: add.left_commute)
qed simp

lemma next_loop:
  assumes "srv_good tbl base E R s"
  obtains l p where "getNextLoop (pool s) = Inr (l, p)" "l < length (queues s)" "srv_good tbl base E R (s\<lparr>pool := p\<rparr>)"
    "threads p = threads (pool s)"
proof -
  let ?p = "pool s"
  have inv: "srv_pool s" using assms by (simp add: srv_good_def)
  obtain l p where lp: "getNextLoop ?p = Inr (l, p)" "l < length (queues s)" "threads p = threads ?p"
    "srv_pool (s\<lparr>pool := p\<rparr>)"
    using inv by (cases "loops ?p = []") (auto simp: getNextLoop_def srv_pool_def Suc_lessI not_le)
  have "srv_good tbl base E R (s\<lparr>pool := p\<rparr>)"
    using assms lp(4)
    by (subst srv_good_fds [of _ s]) (simp_all add: srv_good_def srv_open_def srv_fds_def queued_fds_def)
  with lp show thesis by (intro that)
qed

lemma onNewConnection_sound:
  assumes law: "env_law tbl env" and s: "srv_sound tbl base s" and fd: "fresh_fd base s fd"
  shows "\<exists>t. onNewConnection env main fd s = Inr t \<and> srv_sound tbl base t"
proof (rule sound_result [OF s])
  have good: "srv_good tbl base {} [] s" and ok: "srv_ok {} s" using s by (simp_all add: srv_sound_def srv_wf_def)
  obtain l p where l: "getNextLoop (pool s) = Inr (l, p)" "l < length (queues s)"
    and p: "srv_good tbl base {} [] (s\<lparr>pool := p\<rparr>)" by (rule next_loop [OF good])
  let ?s = "s\<lparr>pool := p\<rparr>"
  have s': "carries {} s ?s" by (rule carries_view) simp_all
  have okp: "srv_ok {} ?s" using ok by (simp add: srv_ok_def srv_refs_def srv_table_def referenced_def)
  have fds: "srv_fds base [fd] ?s"
    using p fd by (simp add: srv_good_def srv_fds_def fresh_fd_def queued_fds_def)
  show "succeeds tbl base {} {} [] s (onNewConnection env main fd s)"
  proof (cases "l = main")
    case True
    have "srv_good tbl base {} [fd] ?s" using p fds by (simp add: srv_good_def)
    then have "succeeds tbl base {} {} [] ?s (create_conn env l fd ?s)"
      using l by (intro create_conn_succeeds [OF law _ okp]) simp_all
    then show ?thesis using True l s' by (simp add: onNewConnection_def succeeds_from)
  next
    case False
    let ?t = "?s\<lparr>queues := (queues s)[l := queues s ! l @ [NewConn fd]]\<rparr>"
    have m: "mset (queued_fds ?t) = mset (fd # queued_fds ?s)"
      using queued_fds_push [OF l(2), of "[NewConn fd]"] by (simp add: queued_fds_def)
    have "srv_fds base [] ?t"
      using fds mset_eq_setD [OF m] mset_eq_imp_distinct_iff [OF m] by (simp add: srv_fds_def)
    then have "srv_good tbl base {} [] ?t"
      using p by (subst srv_good_fds [of _ ?s]) (simp_all add: srv_good_def srv_open_def srv_pool_def)
    moreover have "carries {} s ?t" unfolding carries_def srv_stream_def by (auto intro: queue_grows)
    ultimately show ?thesis using False l by (simp add: onNewConnection_def)
  qed
  show "keeps s (onNewConnection env main fd s)"
    using law by (intro onNewConnection_keeps) (simp add: env_law_def)
qed

section \<open>The heartbeat\<close>

text \<open>A close operation of a connection that a snapshot holds.\<close>

lemma conn_close_succeeds:
  assumes law: "env_law tbl env" and good: "srv_good tbl base {} R s" and ok: "srv_ok X s" and c: "objs s x = Some c"
    and held: "x \<in> set (held s)" and fd: "\<And>b w. connfd (conn (f b w)) = connfd (conn w)"
    and op: "\<And>b w. plain_op (op b) \<and> conn_ok (op b) w \<and> conn_exec (ctl env) (op b) w = Inr (f b w)"
  shows "op_result tbl (conn_view s x c) (Inr (f (loop_of s x = main) (conn_view s x c)))"
    "succeeds tbl base {} {} R s (conn_close env f main x s)"
proof -
  have "conn_sound tbl (conn_view s x c)" using good c by (simp add: srv_good_def srv_conns_def)
  then show result: "op_result tbl (conn_view s x c) (Inr (f (loop_of s x = main) (conn_view s x c)))"
    using law op exec_result [of "ctl env" tbl "conn_view s x c" "op (loop_of s x = main)"] by (simp add: env_law_def)
  show "succeeds tbl base {} {} R s (conn_close env f main x s)"
    unfolding conn_close_def using held fd result
    by (intro conn_do_succeeds [OF law good ok c] keeps_fd_pure) (simp_all add: anchored_def)
qed

lemma held_alive:
  assumes "srv_ok {} s" "x \<in> set (held s)"
  obtains c where "objs s x = Some c"
  using assms by (auto simp: srv_ok_def srv_refs_def referenced_iff)

lemma close_idle_succeeds:
  assumes law: "env_law tbl env"
  shows "srv_ok {} s \<Longrightarrow> srv_good tbl base {} R s \<Longrightarrow> set os \<subseteq> set (held s) \<Longrightarrow>
    succeeds tbl base {} {} R s (close_idle env main os s)"
proof (induction os arbitrary: s)
  case (Cons x os)
  obtain c where c: "objs s x = Some c" by (rule held_alive [OF Cons.prems(1)]) (use Cons.prems(3) in auto)
  have "succeeds tbl base {} {} R s (conn_close env (forceClose (ctl env)) main x s)"
    using Cons.prems(3)
    by (intro conn_close_succeeds(2) [OF law Cons.prems(2,1) c, where op = ForceClose]) (simp_all add: plain_op_def)
  then obtain t where t: "(if isIdle (heartbeatTimeout s) (now env) c
      then conn_close env (forceClose (ctl env)) main x s else Inr s) = Inr t" "srv_good tbl base {} R t" "carries {} s t"
    using Cons.prems(2) by (cases "isIdle (heartbeatTimeout s) (now env) c") (auto simp: succeeds_def)
  moreover have "keeps s (if isIdle (heartbeatTimeout s) (now env) c
      then conn_close env (forceClose (ctl env)) main x s else Inr s)" by (simp add: conn_close_keeps)
  ultimately have "srv_ok {} t" "srv_frame s t" using Cons.prems(1) by (auto dest: keepsD)
  then have "succeeds tbl base {} {} R t (close_idle env main os t)"
    using Cons.prems(3) t(2) by (intro Cons.IH) (auto simp: srv_frame_def)
  then show ?case using c t by (simp add: succeeds_from)
qed simp

lemma checkHeartbeats_sound:
  assumes law: "env_law tbl env" and s: "srv_sound tbl base s"
  shows "\<exists>t. checkHeartbeats env main s = Inr t \<and> srv_sound tbl base t"
proof -
  let ?all = "getAllConnections s" and ?s = "s\<lparr>held := getAllConnections s\<rparr>"
  have wf: "srv_wf s" and good: "srv_good tbl base {} [] s" using s by (simp_all add: srv_sound_def)
  have "srv_good tbl base {} [] ?s" using good by (rule srv_good_view) (simp_all add: queued_fds_def)
  then obtain t where t: "close_idle env main ?all ?s = Inr t" "srv_good tbl base {} [] t"
    using close_idle_succeeds [OF law hold_snapshot [OF wf], of base "[]" ?all main] by (auto simp: succeeds_def)
  have "srv_good tbl base {} [] (t\<lparr>held := []\<rparr>)" using t(2) by (rule srv_good_view) (simp_all add: queued_fds_def)
  from release_all_succeeds [OF this, of ?all env]
  obtain u where u: "release_all env ?all (t\<lparr>held := []\<rparr>) = Inr u" "srv_good tbl base {} [] u"
    by (auto simp: succeeds_def)
  then have run: "checkHeartbeats env main s = Inr u" using t(1) by (simp add: checkHeartbeats_def Let_def)
  with checkHeartbeats_wf [OF wf run] u(2) show ?thesis by (simp add: srv_sound_def)
qed

section \<open>Every run of the server\<close>

datatype 'k srv_op = OpAccept "'k srv_env" fd | OpRun "'k srv_env" nat | OpEvent "'k srv_env" oid uint32
  | OpScan "'k srv_env" | OpSend "'k srv_env" nat oid "byte list" | OpThreads int | OpHeartbeat int int
  | OpCallbacks bool bool bool | OpStart "nat \<Rightarrow> nat"

fun srv_exec :: "nat \<Rightarrow> 'k srv_op \<Rightarrow> 'k server \<Rightarrow> 'k server res" where
  "srv_exec main (OpAccept env fd) s = onNewConnection env main fd s"
| "srv_exec main (OpRun env l) s = loop_pending env l s"
| "srv_exec main (OpEvent env x ev) s = loop_event env x ev s"
| "srv_exec main (OpScan env) s = checkHeartbeats env main s"
| "srv_exec main (OpSend env l x data) s = conn_send env l x data s"
| "srv_exec main (OpThreads n) s = Inr (srv_setThreadNum n s)"
| "srv_exec main (OpHeartbeat timeout interval) s = Inr (setHeartbeat timeout interval s)"
| "srv_exec main (OpCallbacks a b c) s =
     Inr (s\<lparr>has_messageCallback := a, has_connectionCallback := b, has_closeCallback := c\<rparr>)"
| "srv_exec main (OpStart start_loop) s = Inr (start_server start_loop s)"

fun srv_op_ok :: "('k \<Rightarrow> interest) \<Rightarrow> fd set \<Rightarrow> 'k srv_op \<Rightarrow> 'k server \<Rightarrow> bool" where
  "srv_op_ok tbl base (OpAccept env fd) s = (env_law tbl env \<and> fresh_fd base s fd)"
| "srv_op_ok tbl base (OpRun env l) s = (env_law tbl env \<and> l < length (queues s))"
| "srv_op_ok tbl base (OpEvent env x ev) s = (env_law tbl env \<and> event_ok env x ev s)"
| "srv_op_ok tbl base (OpScan env) s = env_law tbl env"
| "srv_op_ok tbl base (OpSend env l x data) s = (env_law tbl env \<and> referenced x s)"
| "srv_op_ok tbl base (OpStart start_loop) s = (\<forall>i. start_loop i < length (queues s))"
| "srv_op_ok tbl base op s = True"

lemma sound_view:
  assumes "srv_sound tbl base s" "objs t = objs s" "connections t = connections s" "regs t = regs s"
    "loop_of t = loop_of s" "queues t = queues s" "held t = held s" "running t = running s" "srv_pool t"
  shows "srv_sound tbl base t"
proof -
  have wf: "srv_wf s" and good: "srv_good tbl base {} [] s" using assms(1) by (simp_all add: srv_sound_def)
  have "srv_wf t" using wf assms(2,3,7,8,6) by (rule srv_wf_view)
  moreover have len: "length (queues t) = length (queues s)" by (simp only: assms(6))
  have "srv_fds base [] t" "srv_open {} t"
    using good unfolding srv_good_def srv_fds_def srv_open_def queued_fds_def assms(2,3,6) by simp_all
  then have "srv_good tbl base {} [] t"
    using good assms(9) unfolding srv_good_fds [OF assms(2,4,5) len] by (simp add: srv_good_def)
  ultimately show ?thesis by (simp add: srv_sound_def)
qed

lemma start_sound:
  assumes "srv_sound tbl base s" "\<forall>i. start_loop i < length (queues s)"
  shows "srv_sound tbl base (start_server start_loop s)"
proof (rule sound_view [OF assms(1)])
  let ?p = "pool s" and ?q = "pool (start_server start_loop s)"
  obtain new where new: "loops ?q = loops ?p @ new" "\<forall>l\<in>set new. l < length (queues s) \<or> l = baseLoop ?p"
  proof (rule that)
    show "loops ?q = loops ?p @ (map start_loop [0..<nat (threadNum ?p)] @ (if threadNum ?p = 0 then [baseLoop ?p] else []))"
      by (simp add: start_server_def start_pool_def Let_def)
  qed (use assms(2) in auto)
  have same: "next_idx ?q = next_idx ?p" "baseLoop ?q = baseLoop ?p" "queues (start_server start_loop s) = queues s"
    by (simp_all add: start_server_def start_pool_def Let_def)
  have old: "srv_pool s" using assms(1) by (simp add: srv_sound_def srv_good_def)
  have "loops ?p @ new \<noteq> [] \<Longrightarrow> next_idx ?p < length (loops ?p @ new)"
    using old by (cases "loops ?p = []") (simp_all add: srv_pool_def)
  moreover have "\<forall>l\<in>set (loops ?p @ new). l < length (queues s)" using old new(2) by (auto simp: srv_pool_def)
  ultimately show "srv_pool (start_server start_loop s)"
    using old by (simp add: srv_pool_def same new(1))
qed (simp_all add: start_server_def Let_def)

lemma srv_exec_sound:
  assumes s: "srv_sound tbl base s" and ok: "srv_op_ok tbl base op s"
  shows "\<exists>t. srv_exec main op s = Inr t \<and> srv_sound tbl base t"
proof (cases op)
  case (OpStart start_loop)
  then show ?thesis using start_sound [OF s] ok by simp
next
  case (OpThreads n)
  have "srv_sound tbl base (srv_setThreadNum n s)"
    using s by (intro sound_view [OF s])
      (simp_all add: srv_setThreadNum_def setThreadNum_def srv_sound_def srv_good_def srv_pool_def)
  then show ?thesis using OpThreads by simp
next
  case (OpHeartbeat timeout interval)
  have "srv_sound tbl base (setHeartbeat timeout interval s)"
    using s by (intro sound_view [OF s]) (simp_all add: setHeartbeat_def srv_sound_def srv_good_def srv_pool_def)
  then show ?thesis using OpHeartbeat by simp
next
  case (OpCallbacks a b c)
  have "srv_sound tbl base (s\<lparr>has_messageCallback := a, has_connectionCallback := b, has_closeCallback := c\<rparr>)"
    using s by (intro sound_view [OF s]) (simp_all add: srv_sound_def srv_good_def srv_pool_def)
  then show ?thesis using OpCallbacks by simp
qed (use s ok in \<open>simp_all add: onNewConnection_sound loop_pending_sound loop_event_sound checkHeartbeats_sound conn_send_sound\<close>)

interpretation server_machine: op_invariant "srv_exec main" "srv_sound tbl base" "srv_op_ok tbl base" for main tbl base
  by unfold_locales (rule srv_exec_sound)

text \<open>The loops as they are when the server is constructed: only their own channels are registered.\<close>

definition loops_ready :: "('k \<Rightarrow> interest) \<Rightarrow> fd set \<Rightarrow> nat \<Rightarrow> 'k poller list \<Rightarrow> bool" where
  "loops_ready tbl base main lps \<longleftrightarrow> main < length lps \<and> (\<forall>lp\<in>set lps. mirrors tbl lp \<and> dom (channels lp) \<subseteq> base)"

lemma new_server_sound:
  assumes "loops_ready tbl base main lps"
  shows "srv_sound tbl base (new_server main lps)"
proof -
  have "srv_wf (new_server main lps)" using new_server_inv [of main lps] by (simp add: srv_inv_def)
  moreover have "new_fds [] = []" by simp
  then have "queued_fds (new_server main lps) = []"
    by (simp add: queued_fds_def new_server_def)
  ultimately show ?thesis using assms
    by (force simp: srv_sound_def srv_good_def srv_conns_def srv_fds_def srv_regs_def srv_open_def srv_pool_def
        loops_ready_def new_server_def new_pool_def)
qed
section \<open>A round of the loop\<close>

text \<open>
  The batch that \<open>epoll_wait\<close> returned, each entry with its channel, its ready mask and the answers of the
  calls its handler makes, then \<open>doPendingFunctors\<close>.
\<close>

type_synonym 'k ready = "'k srv_env \<times> oid \<times> uint32"

fun dispatch :: "'k ready \<Rightarrow> 'k server \<Rightarrow> 'k server res" where
  "dispatch (env, x, ev) s = loop_event env x ev s"

definition loop_round :: "'k srv_env \<Rightarrow> nat \<Rightarrow> 'k ready list \<Rightarrow> 'k server \<Rightarrow> 'k server res" where
  "loop_round env l ready s = bind_res (run_ops dispatch ready s) (loop_pending env l)"

text \<open>What the outside answers to the handler of one entry: data or an error for a read, never the end of file.\<close>

fun ready_ok :: "('k \<Rightarrow> interest) \<Rightarrow> 'k ready \<Rightarrow> 'k server \<Rightarrow> bool" where
  "ready_ok tbl (env, x, ev) s = (env_law tbl env \<and> (objs s x \<noteq> None \<longrightarrow> event_ok env x ev s))"

lemma dispatch_succeeds:
  assumes s: "srv_sound tbl base s" and live: "objs s x \<noteq> None" and ok: "ready_ok tbl (env, x, ev) s"
  obtains t where "dispatch (env, x, ev) s = Inr t" "srv_sound tbl base t" "carries {x} s t"
proof -
  have law: "env_law tbl env" and ev: "event_ok env x ev s" using ok live by simp_all
  have "srv_good tbl base {} [] s" "srv_ok {} s" using s by (simp_all add: srv_sound_def srv_wf_def)
  from loop_event_succeeds [OF law this ev] obtain t where "loop_event env x ev s = Inr t" "carries {x} s t"
    by (auto simp: succeeds_def)
  with loop_event_sound [OF law s ev] show thesis by (auto intro: that)
qed

lemma batch_succeeds:
  "srv_sound tbl base s \<Longrightarrow> allowed dispatch (ready_ok tbl) ready s \<Longrightarrow> distinct (map (fst \<circ> snd) ready) \<Longrightarrow>
   \<forall>x\<in>set (map (fst \<circ> snd) ready). objs s x \<noteq> None \<Longrightarrow>
   \<exists>t. run_ops dispatch ready s = Inr t \<and> srv_sound tbl base t \<and> length (queues t) = length (queues s)"
proof (induction ready arbitrary: s)
  case (Cons e ready)
  obtain env x ev where e: "e = (env, x, ev)" by (cases e)
  obtain t where t: "dispatch e s = Inr t" "srv_sound tbl base t" "carries {x} s t"
    using dispatch_succeeds [OF Cons.prems(1), of x env ev] Cons.prems(2,4) by (auto simp: e)
  have "objs t y \<noteq> None" if y: "y \<in> set (map (fst \<circ> snd) ready)" for y
  proof (rule carries_alive [OF t(3)])
    show "objs s y \<noteq> None" using Cons.prems(4) y by auto
    show "y \<notin> {x}" using Cons.prems(3) y by (auto simp: e)
  qed
  moreover have "length (queues t) = length (queues s)" using t(3) by (simp add: carries_def)
  ultimately show ?case using Cons.IH [OF t(2)] Cons.prems(2,3) t(1) by auto
qed simp

text \<open>The table of a sound state, and the interest lists of its loops.\<close>

lemma sound_table:
  assumes "srv_sound tbl base s"
  shows "(fd, x) \<in> set (connections s) \<longleftrightarrow> (\<exists>c. objs s x = Some c \<and> connfd c = fd \<and> state c \<noteq> kDisconnected)"
proof -
  have open_in: "srv_open {} s" and table: "srv_table s"
    using assms by (simp_all add: srv_sound_def srv_good_def srv_wf_def srv_ok_def)
  have entry: "\<exists>c. objs s x = Some c \<and> connfd c = f" if "(f, x) \<in> set (connections s)" for f
    using table that by (auto simp: srv_table_def)
  show ?thesis
  proof
    assume in_table: "(fd, x) \<in> set (connections s)"
    then have "x \<in> snd ` set (connections s)" by force
    with entry [OF in_table] open_in show "\<exists>c. objs s x = Some c \<and> connfd c = fd \<and> state c \<noteq> kDisconnected"
      by (auto simp: srv_open_def)
  next
    assume "\<exists>c. objs s x = Some c \<and> connfd c = fd \<and> state c \<noteq> kDisconnected"
    then obtain c where c: "objs s x = Some c" "connfd c = fd" "state c \<noteq> kDisconnected" by blast
    with open_in obtain f where f: "(f, x) \<in> set (connections s)" by (force simp: srv_open_def)
    with entry [OF f] c show "(fd, x) \<in> set (connections s)" by auto
  qed
qed

lemma sound_interest:
  assumes s: "srv_sound tbl base s" and l: "l < length (regs s)"
    and p: "tbl (kern (regs s ! l)) fd = Some (ev, p)" "fd \<notin> base"
  shows "\<exists>c. objs s p = Some c \<and> connfd c = fd \<and> loop_of s p = l \<and> state c \<noteq> kDisconnected"
proof -
  have good: "srv_good tbl base {} [] s" using s by (simp add: srv_sound_def)
  then have "mirrors tbl (regs s ! l)" using l by (simp add: srv_good_def srv_regs_def)
  then have ch: "channels (regs s ! l) fd = Some p" using mirrorsD [of tbl "regs s ! l" fd] p(1) by simp
  then obtain c where c: "objs s p = Some c" "connfd c = fd" "loop_of s p = l"
    using good l p(2) unfolding srv_good_def srv_regs_def by blast
  have "conn_sound tbl (conn_view s p c)" using good c(1) by (simp add: srv_good_def srv_conns_def)
  then have "state c \<noteq> kDisconnected" using ch c by (auto simp: conn_sound_def conn_reg_def)
  with c show ?thesis by blast
qed

section \<open>Properties\<close>

text \<open>C2: The server never faults.  From its construction on, whatever is accepted, dispatched, posted, sent,
  scanned and configured, in whatever order and with whatever answers of the kernel, no operation
  touches a destroyed connection, reads outside a buffer or asks the pool for a loop it does not
  have, as long as no connection is closed from inside its own read callback; and after each of
  them the table holds exactly the open connections, under their descriptors.\<close>

theorem server_never_faults:
  assumes "loops_ready tbl base main lps"
    and "allowed (srv_exec main) (srv_op_ok tbl base) ops (new_server main lps)"
  shows "\<exists>t. run_ops (srv_exec main) ops (new_server main lps) = Inr t \<and>
    (\<forall>fd x. (fd, x) \<in> set (connections t) \<longleftrightarrow> (\<exists>c. objs t x = Some c \<and> connfd c = fd \<and> state c \<noteq> kDisconnected))"
proof -
  obtain t where t: "run_ops (srv_exec main) ops (new_server main lps) = Inr t" "srv_sound tbl base t"
    using server_machine.run_safe [OF new_server_sound [OF assms(1)] assms(2)] by blast
  then show ?thesis using sound_table by blast
qed

text \<open>An environment for the witnesses: every callback greets all connections, and every read brings three bytes.\<close>

definition greeting_env :: "interest srv_env" where
  "greeting_env = least_env\<lparr>app_sends := (\<lambda>ev s. map (\<lambda>(fd, x). (x, [104, 105])) (connections s)),
     rd := (\<lambda>x. Delivered [1, 2, 3])\<rparr>"

lemma greeting_env_law: "env_law id greeting_env"
proof -
  have "fresh_env greeting_env" using least_env_fresh by (simp add: fresh_env_def greeting_env_def)
  then show ?thesis
    by (force simp: env_law_def roomy_def app_law_def greeting_env_def least_env_def demo_env_def write_law_def table_ctl_law)
qed

lemma greeting_event: "objs s x \<noteq> None \<Longrightarrow> event_ok greeting_env x EPOLLIN s"
  by (auto simp: event_ok_def greeting_env_def readv_law_def extra_size_def epoll_masks)

lemma idle_loops_ready: "loops_ready id {} 0 [idle_registry]"
  by (simp add: loops_ready_def mirrors_def idle_registry_def fun_eq_iff)

text \<open>After the first connection has been accepted, descriptor 5 at address 1.\<close>

lemma greeting_accepts:
  obtains t where "onNewConnection greeting_env 0 5 (new_server 0 [idle_registry]) = Inr t" "objs t 1 \<noteq> None"
    "kern (regs t ! 0) = [5 \<mapsto> (EPOLLIN, 1)]" "length (regs t) = 1"
  by (simp add: onNewConnection_def getNextLoop_def new_server_def new_pool_def create_conn_def Let_def greeting_env_def
      least_env_def dom_def demo_env_def new_conn_def channel_op_defs updateChannel_def new_channel_def idle_registry_def)

lemma greeting_fresh: "fresh_fd {} (new_server 0 [idle_registry]) 5"
  by (simp add: fresh_fd_def queued_fds_def) (simp add: new_server_def)

lemma server_never_faults_witness:
  "\<exists>t. run_ops (srv_exec 0) [OpAccept greeting_env 5, OpCallbacks True True True, OpEvent greeting_env 1 EPOLLIN, OpScan greeting_env]
      (new_server 0 [idle_registry]) = Inr t"
proof -
  obtain t where t: "onNewConnection greeting_env 0 5 (new_server 0 [idle_registry]) = Inr t" "objs t 1 \<noteq> None"
    by (rule greeting_accepts)
  have "allowed (srv_exec 0) (srv_op_ok id {}) [OpAccept greeting_env 5, OpCallbacks True True True,
      OpEvent greeting_env 1 EPOLLIN, OpScan greeting_env] (new_server 0 [idle_registry])"
    using t by (simp add: greeting_env_law greeting_event greeting_fresh split: sum.split)
  from server_never_faults [OF idle_loops_ready this] show ?thesis by blast
qed

text \<open>C5: No epoll instance holds a dangling pointer.  In every state that the server reaches, whatever
  \<open>epoll_wait\<close> of a loop can return beside the loop's own channels is the channel of an open
  connection that exists, that belongs to this loop and that the table holds under this descriptor.\<close>

theorem epoll_points_to_live:
  assumes "loops_ready tbl base main lps"
    and "allowed (srv_exec main) (srv_op_ok tbl base) ops (new_server main lps)"
    and "run_ops (srv_exec main) ops (new_server main lps) = Inr t"
    and "l < length (regs t)" "tbl (kern (regs t ! l)) fd = Some (ev, x)" "fd \<notin> base"
  shows "\<exists>c. objs t x = Some c \<and> connfd c = fd \<and> loop_of t x = l \<and> state c \<noteq> kDisconnected \<and>
    (fd, x) \<in> set (connections t)"
proof -
  have "srv_sound tbl base t"
    using server_machine.run_safe [OF new_server_sound [OF assms(1)] assms(2)] assms(3) by auto
  then show ?thesis using sound_interest [of tbl base t, OF _ assms(4-6)] sound_table by blast
qed

lemma epoll_points_to_live_witness:
  "\<exists>t c. onNewConnection greeting_env 0 5 (new_server 0 [idle_registry]) = Inr t \<and>
     kern (regs t ! 0) 5 = Some (EPOLLIN, 1) \<and> objs t 1 = Some c \<and> (5, 1) \<in> set (connections t)"
proof -
  obtain t where t: "onNewConnection greeting_env 0 5 (new_server 0 [idle_registry]) = Inr t"
    "kern (regs t ! 0) = [5 \<mapsto> (EPOLLIN, 1)]" "length (regs t) = 1"
    by (rule greeting_accepts)
  have ok: "allowed (srv_exec 0) (srv_op_ok id {}) [OpAccept greeting_env 5] (new_server 0 [idle_registry])"
    using t by (simp add: greeting_env_law greeting_fresh)
  have "run_ops (srv_exec 0) [OpAccept greeting_env 5] (new_server 0 [idle_registry]) = Inr t" using t by simp
  from epoll_points_to_live [OF idle_loops_ready ok this, of 0 5 EPOLLIN 1] t show ?thesis by auto
qed



end
