(* ===== verification/Server_Liveness.thy ===== *)
theory Server_Liveness
  imports Server_Safety
begin

text \<open>
  What the server brings about in the end (\<open>reactor/Server.cpp\<close>): a connection that a heartbeat found idle
  leaves the table after at most two rounds of its loop, whatever else these rounds do.
\<close>

section \<open>The functor of a forced close\<close>

text \<open>Closed, or on the way: the state has left \<open>kConnected\<close> and the functor that completes the close is queued.\<close>

definition closing :: "oid \<Rightarrow> 'k server \<Rightarrow> bool" where
  "closing x s \<longleftrightarrow> (\<exists>c. objs s x = Some c \<and> (state c = kDisconnected \<or>
     state c = kDisconnecting \<and> ConnTask x ForceCloseTask \<in> set (queues s ! loop_of s x)))"

lemma conn_state_cases: "kDisconnecting \<le> s \<longleftrightarrow> s = kDisconnecting \<or> s = kDisconnected"
  by (cases s) (simp_all add: less_eq_conn_state_def)

lemma carries_queue:
  "carries D s t \<Longrightarrow> l < length (queues s) \<Longrightarrow> a \<in> set (queues s ! l) \<Longrightarrow> a \<in> set (queues t ! l)"
  unfolding carries_def by (metis UnCI set_append)

lemma closing_carries:
  assumes "carries D s t" "x \<notin> D" "closing x s" "loop_of s x < length (queues s)"
  shows "closing x t"
proof -
  obtain c where c: "objs s x = Some c" "state c = kDisconnected \<or>
      state c = kDisconnecting \<and> ConnTask x ForceCloseTask \<in> set (queues s ! loop_of s x)"
    using assms(3) by (auto simp: closing_def)
  obtain d where d: "objs t x = Some d" "loop_of t x = loop_of s x" "state c \<le> state d"
    by (rule carriesD [OF assms(1) c(1) assms(2)])
  then show ?thesis using c(2) carries_queue [OF assms(1,4)] by (auto simp: closing_def conn_state_cases)
qed

text \<open>The functor itself: a connected connection starts to close, one that is closing is closed.\<close>

lemma force_task:
  assumes law: "env_law tbl env" and good: "srv_good tbl base {} R s" and ok: "srv_ok X s" and c: "objs s x = Some c"
    and anchor: "anchored x s" and l: "loop_of s x < length (queues s)"
    and run: "run_srv_task env l (ConnTask x ForceCloseTask) s = Inr t"
  shows "closing x t" "state c \<noteq> kConnected \<Longrightarrow> closed x t"
proof -
  let ?v = "conn_view s x c"
  let ?w = "forceCloseInLoop (ctl env) ?v"
  have on: "on_conn x (run_task (ctl env) (Done 0) ForceCloseTask) s = Inr (trace ?w, conn_store x ?w s)"
    using c by (simp add: on_conn_def)
  have "closing x t \<and> (state c \<noteq> kConnected \<longrightarrow> closed x t)"
  proof (cases "state c = kConnected")
    case True
    then have w: "trace ?w = []" "state (conn ?w) = kDisconnecting" "tasks ?w = [ForceCloseTask]"
      by (simp_all add: forceCloseInLoop_def)
    then have "t = conn_store x ?w s" using run on by (simp add: conn_do_def)
    then show ?thesis using w l True by (simp add: closing_def) (simp add: conn_store_def Let_def)
  next
    case False
    let ?f = "run_task (ctl env) (Done 0) ForceCloseTask"
    have "conn_sound tbl ?v" using good c by (simp add: srv_good_def srv_conns_def)
    then have "op_result tbl ?v (?f ?v)" using law by (intro task_result) (simp_all add: env_law_def)
    moreover have "state (conn ?w) = kDisconnected"
      using False by (cases "state c") (simp_all add: forceCloseInLoop_def handleClose_def Let_def)
    moreover have "conn_do env x ?f s = Inr t" using run by simp
    ultimately have "closed x t"
      by (intro conn_do_closed [OF law good ok c _ keeps_fd_task anchor, where w = ?w]) simp_all
    then show ?thesis by (auto simp: closing_def closed_def)
  qed
  then show "closing x t" "state c \<noteq> kConnected \<Longrightarrow> closed x t" by simp_all
qed

section \<open>Rounds\<close>

text \<open>
  What a functor of the batch brings about for its connection holds when the batch is done: \<open>pre\<close> is what
  the functor needs of the connection, \<open>post\<close> what it achieves, and neither is undone by the others.
\<close>

definition achieves :: "('k \<Rightarrow> interest) \<Rightarrow> fd set \<Rightarrow> 'k srv_env \<Rightarrow> nat \<Rightarrow> oid \<Rightarrow> conn_task \<Rightarrow>
    ('k server \<Rightarrow> bool) \<Rightarrow> ('k server \<Rightarrow> bool) \<Rightarrow> bool" where
  "achieves tbl base env l x k pre post \<longleftrightarrow>
     (\<forall>s c R u. srv_ok {} s \<longrightarrow> srv_good tbl base {} R s \<longrightarrow> objs s x = Some c \<longrightarrow> anchored x s \<longrightarrow> loop_of s x = l \<longrightarrow>
        l < length (queues s) \<longrightarrow> pre s \<longrightarrow> run_srv_task env l (ConnTask x k) s = Inr u \<longrightarrow> post u) \<and>
     (\<forall>s t. pre s \<longrightarrow> carries {} s t \<longrightarrow> objs s x \<noteq> None \<longrightarrow> pre t) \<and>
     (\<forall>u t. post u \<longrightarrow> carries {} u t \<longrightarrow> l < length (queues u) \<longrightarrow> loop_of u x = l \<longrightarrow> post t)"

lemma achievesI:
  assumes "\<And>s c R u. srv_good tbl base {} R s \<Longrightarrow> srv_ok {} s \<Longrightarrow> objs s x = Some c \<Longrightarrow> anchored x s \<Longrightarrow> loop_of s x = l \<Longrightarrow>
      loop_of s x < length (queues s) \<Longrightarrow> run_srv_task env l (ConnTask x k) s = Inr u \<Longrightarrow> pre s \<Longrightarrow> post u"
    and "\<And>s t. pre s \<Longrightarrow> carries {} s t \<Longrightarrow> objs s x \<noteq> None \<Longrightarrow> pre t"
    and "\<And>u t. post u \<Longrightarrow> carries {} u t \<Longrightarrow> l < length (queues u) \<Longrightarrow> loop_of u x = l \<Longrightarrow> post t"
  shows "achieves tbl base env l x k pre post"
  unfolding achieves_def using assms by auto

lemma batch_brings:
  assumes law: "env_law tbl env" and achieves: "achieves tbl base env l x k pre post"
  shows "srv_ok {} s \<Longrightarrow> l < length (queues s) \<Longrightarrow> srv_good tbl base {} (new_fds ts @ R) s \<Longrightarrow>
    set ts \<subseteq> set (running s) \<Longrightarrow> ConnTask x k \<in> set ts \<Longrightarrow> objs s x = Some c \<Longrightarrow> loop_of s x = l \<Longrightarrow> pre s \<Longrightarrow>
    run_srv_tasks env l ts s = Inr t \<Longrightarrow> post t"
proof (induction ts arbitrary: s c)
  case (Cons a ts)
  obtain u where u: "run_srv_task env l a s = Inr u" "srv_good tbl base {} (new_fds ts @ R) u" "carries {} s u"
    "srv_ok {} u" "l < length (queues u)" "set ts \<subseteq> set (running u)"
    by (rule run_srv_task_step [OF law Cons.prems(1-4)])
  have rest: "run_srv_tasks env l ts u = Inr t" using Cons.prems(9) u(1) by simp
  obtain d where d: "objs u x = Some d" "loop_of u x = l" "state c \<le> state d"
    by (rule carriesD [OF u(3) Cons.prems(6)]) (use Cons.prems(7) in auto)
  have ut: "carries {} u t" using run_srv_tasks_succeeds [OF law u(4,5,2,6)] rest by simp
  show ?case
  proof (cases "a = ConnTask x k")
    case True
    have "anchored x s" using Cons.prems(4) True by (force simp: anchored_def)
    then have "post u" using achieves Cons.prems(1-3,6-8) u(1) True unfolding achieves_def by blast
    then show ?thesis using achieves ut u(5) d(2) unfolding achieves_def by blast
  next
    case False
    moreover have "pre u" using achieves Cons.prems(6,8) u(3) unfolding achieves_def by blast
    ultimately show ?thesis using Cons.IH [OF u(4,5,2,6) _ d(1,2) _ rest] Cons.prems(5) by simp
  qed
qed simp

lemma release_all_effect:
  "release_all env os s = Inr t \<Longrightarrow> (objs t x = None \<or> objs t x = objs s x) \<and> queues t = queues s \<and> loop_of t = loop_of s \<and>
    sent t = sent s"
proof (induction os arbitrary: s)
  case (Cons o' os)
  then obtain u where u: "release env o' s = Inr u" "release_all env os u = Inr t" by (auto simp: bind_res_eq_Inr)
  from u(1) have "(objs u x = None \<or> objs u x = objs s x) \<and> queues u = queues s \<and> loop_of u = loop_of s \<and> sent u = sent s"
    by (rule release_cases) auto
  then show ?case using Cons.IH [OF u(2)] by auto
qed simp

text \<open>The two halves of a round: the batch carries everything over, then objects without a reference go.\<close>

lemma round_parts:
  assumes law: "env_law tbl env" and s: "srv_sound tbl base s" and l: "l < length (queues s)"
    and run: "loop_pending env l s = Inr t"
  obtains u where "run_srv_tasks env l (queues s ! l) (batch_taken l s) = Inr u" "carries {} (batch_taken l s) u"
    "\<And>x. objs t x = None \<or> objs t x = objs u x" "queues t = queues u" "loop_of t = loop_of u" "sent t = sent u"
    "release_all env (List.map_filter task_conn (queues s ! l)) (u\<lparr>running := []\<rparr>) = Inr t"
proof -
  note taken = batch_taken_good [OF s l]
  obtain u where u: "run_srv_tasks env l (queues s ! l) (batch_taken l s) = Inr u"
    "release_all env (List.map_filter task_conn (queues s ! l)) (u\<lparr>running := []\<rparr>) = Inr t"
    using run by (auto simp: loop_pending_split bind_res_eq_Inr)
  have at: "l < length (queues (batch_taken l s))" "set (queues s ! l) \<subseteq> set (running (batch_taken l s))"
    using l by (simp_all add: batch_taken_def)
  have "carries {} (batch_taken l s) u"
    using run_srv_tasks_succeeds [OF law taken(1) at(1) taken(2) at(2)] u(1) by simp
  with u release_all_effect [OF u(2)] show thesis by (intro that) auto
qed

lemma round_brings:
  assumes law: "env_law tbl env" and s: "srv_sound tbl base s" and l: "l < length (queues s)"
    and achieves: "achieves tbl base env l x k pre post"
    and k: "ConnTask x k \<in> set (queues s ! l)" and x: "loop_of s x = l" and c: "objs s x = Some c" "pre (batch_taken l s)"
    and run: "loop_pending env l s = Inr t"
  obtains u where "post u" "objs t x = None \<or> objs t x = objs u x" "queues t = queues u" "loop_of t x = l" "loop_of u x = l"
    "sent t = sent u"
proof -
  obtain u where u: "run_srv_tasks env l (queues s ! l) (batch_taken l s) = Inr u" "carries {} (batch_taken l s) u"
    "\<And>x. objs t x = None \<or> objs t x = objs u x" "queues t = queues u" "loop_of t = loop_of u" "sent t = sent u"
    by (rule round_parts [OF law s l run]) blast
  have at: "l < length (queues (batch_taken l s))" "set (queues s ! l) \<subseteq> set (running (batch_taken l s))"
    "objs (batch_taken l s) x = Some c" "loop_of (batch_taken l s) x = l"
    using l c x by (simp_all add: batch_taken_def)
  note taken = batch_taken_good [OF s l]
  have "post u" by (rule batch_brings [OF law achieves taken(1) at(1) taken(2) at(2) k at(3,4) c(2) u(1)])
  moreover obtain d where "loop_of u x = l" by (rule carriesD [OF u(2) at(3)]) (use at(4) in auto)
  ultimately show thesis using u(3-6) by (intro that [of u]) simp_all
qed

definition left_open :: "oid \<Rightarrow> 'k server \<Rightarrow> bool" where
  "left_open x s \<longleftrightarrow> (\<exists>c. objs s x = Some c \<and> state c \<noteq> kConnected)"

lemma force_achieves:
  assumes "env_law tbl env"
  shows "achieves tbl base env l x ForceCloseTask (\<lambda>s. True) (closing x)"
    "achieves tbl base env l x ForceCloseTask (left_open x) (closed x)"
proof -
  have "left_open x t" if left: "left_open x s" and st: "carries {} s t" for s t :: "'a server"
  proof -
    obtain c where c: "objs s x = Some c" "state c \<noteq> kConnected" using left by (auto simp: left_open_def)
    obtain d where "objs t x = Some d" "state c \<le> state d" by (rule carriesD [OF st c(1)]) auto
    then show ?thesis using c(2) by (cases "state c"; cases "state d") (simp_all add: left_open_def less_eq_conn_state_def)
  qed
  then show "achieves tbl base env l x ForceCloseTask (left_open x) (closed x)"
    by (intro achievesI) (erule (3) force_task(2) [OF assms], simp_all add: closed_carries left_open_def)
  show "achieves tbl base env l x ForceCloseTask (\<lambda>s. True) (closing x)"
    by (intro achievesI) (erule (3) force_task(1) [OF assms], simp_all add: closing_carries)
qed

lemma force_round:
  assumes law: "env_law tbl env" and s: "srv_sound tbl base s" and l: "l < length (queues s)"
    and task: "ConnTask x ForceCloseTask \<in> set (queues s ! l)" and x: "loop_of s x = l" and c: "objs s x = Some c"
    and run: "loop_pending env l s = Inr t"
  shows "objs t x = None \<or> closing x t \<and> loop_of t x = l" "state c \<noteq> kConnected \<Longrightarrow> objs t x = None \<or> closed x t"
proof -
  show "objs t x = None \<or> closing x t \<and> loop_of t x = l"
    by (rule round_brings [OF law s l force_achieves(1) [OF law] task x c _ run]) (auto simp: closing_def)
  show "objs t x = None \<or> closed x t" if "state c \<noteq> kConnected"
    by (rule round_brings [OF law s l force_achieves(2) [OF law] task x c _ run])
      (use c that in \<open>auto simp: closed_def left_open_def batch_taken_def\<close>)
qed

section \<open>Properties\<close>


text \<open>A server with one loop beside the main one, and one connection on it, for the witness.\<close>

definition beating_server :: "interest server" where
  "beating_server = start_server (\<lambda>i. 1) (srv_setThreadNum 1 (setHeartbeat 3000 2000 (new_server 0 [idle_registry, idle_registry])))"

definition late_env :: "interest srv_env" where
  "late_env = greeting_env\<lparr>now := 9000\<rparr>"

lemma late_env_law: "env_law id late_env"
proof -
  have "fresh_env late_env" "app_law late_env"
    using greeting_env_law by (simp_all add: env_law_def late_env_def fresh_env_def app_law_def)
  then show ?thesis using greeting_env_law by (simp add: env_law_def late_env_def)
qed

lemma beating_connection:
  obtains s c where "run_ops (srv_exec 0) [OpAccept greeting_env 5, OpRun greeting_env 1] beating_server = Inr s"
    "connections s = [(5, 1)]" "objs s 1 = Some c" "last_active c = 5000" "loop_of s 1 = 1" "heartbeatTimeout s = 3000"
  by (simp add: beating_server_def start_server_def srv_setThreadNum_def setHeartbeat_def new_server_def new_pool_def
      start_pool_def setThreadNum_def onNewConnection_def getNextLoop_def create_conn_def loop_pending_def Let_def
      greeting_env_def least_env_def demo_env_def dom_def new_conn_def List.map_filter_def)

lemma beating_server_sound: "srv_sound id {} beating_server"
proof -
  have "loops_ready id {} 0 [idle_registry, idle_registry]" using idle_loops_ready by (simp add: loops_ready_def)
  from srv_exec_sound [OF new_server_sound [OF this], of "OpHeartbeat 3000 2000" 0]
  have "srv_sound id {} (setHeartbeat 3000 2000 (new_server 0 [idle_registry, idle_registry]))" by simp
  from srv_exec_sound [OF this, of "OpThreads 1" 0]
  have "srv_sound id {} (srv_setThreadNum 1 (setHeartbeat 3000 2000 (new_server 0 [idle_registry, idle_registry])))" by simp
  then show ?thesis unfolding beating_server_def
    by (rule start_sound) (simp add: srv_setThreadNum_def setHeartbeat_def new_server_def)
qed

lemma beating_run:
  obtains s c where "run_ops (srv_exec 0) [OpAccept greeting_env 5, OpRun greeting_env 1] beating_server = Inr s"
    "connections s = [(5, 1)]" "loop_of s 1 = 1" "srv_sound id {} s" "objs s 1 = Some c" "last_active c = 5000"
    "heartbeatTimeout s = 3000"
proof -
  obtain s c where s: "run_ops (srv_exec 0) [OpAccept greeting_env 5, OpRun greeting_env 1] beating_server = Inr s"
    "connections s = [(5, 1)]" "objs s 1 = Some c" "last_active c = 5000" "loop_of s 1 = 1" "heartbeatTimeout s = 3000"
    by (rule beating_connection)
  have queues: "queues beating_server = [[], []]" "objs beating_server = Map.empty"
    by (simp_all add: beating_server_def start_server_def srv_setThreadNum_def setHeartbeat_def new_server_def Let_def)
  have "srv_op_ok id {} (OpAccept greeting_env 5) beating_server"
    by (simp add: greeting_env_law fresh_fd_def queued_fds_def queues)
  moreover have "length (queues t) = 2" if "onNewConnection greeting_env 0 5 beating_server = Inr t" for t
    using onNewConnection_keeps [of greeting_env beating_server 0 5] greeting_env_law that queues(1)
    by (auto simp: env_law_def keeps_def srv_frame_def srv_size_def)
  ultimately have "allowed (srv_exec 0) (srv_op_ok id {}) [OpAccept greeting_env 5, OpRun greeting_env 1] beating_server"
    by (simp add: greeting_env_law split: sum.split)
  then have "srv_sound id {} s" using server_machine.run_safe [OF beating_server_sound, where main = 0] s(1) by fastforce
  with s show thesis by (intro that) auto
qed


end
