(* ===== verification/Server_Places.thy ===== *)
theory Server_Places
  imports Server_Safety
begin

text \<open>
  Where the connections of the server live (\<open>reactor/Server.cpp\<close>, \<open>reactor/EventLoopThreadPool.cpp\<close>): on the main loop or on
  a loop of the pool, as do the creations of connections that are queued.  The calculus \<open>shrinks\<close> says of
  every other operation that it brings no object and no creation about.
\<close>

section \<open>Nothing new\<close>

text \<open>No operation but the creation of a connection brings an object or such a creation about.\<close>

definition shrinks :: "'k server \<Rightarrow> 'k server res \<Rightarrow> bool" where
  "shrinks s r \<longleftrightarrow> (\<forall>t. r = Inr t \<longrightarrow> (\<forall>x. objs s x = None \<longrightarrow> objs t x = None) \<and>
     map new_fds (queues t) = map new_fds (queues s) \<and> loop_of t = loop_of s \<and> pool t = pool s)"

lemma shrinks_basic [simp]: "shrinks s (Inr s)" "shrinks s (Inl e)"
  by (simp_all add: shrinks_def)

lemma shrinks_view:
  "objs t = objs s \<Longrightarrow> queues t = queues s \<Longrightarrow> loop_of t = loop_of s \<Longrightarrow> pool t = pool s \<Longrightarrow> shrinks t r \<longleftrightarrow> shrinks s r"
  by (simp add: shrinks_def)

lemma shrinks_same:
  "objs t = objs s \<Longrightarrow> queues t = queues s \<Longrightarrow> loop_of t = loop_of s \<Longrightarrow> pool t = pool s \<Longrightarrow> shrinks s (Inr t)"
  by (simp add: shrinks_def)

lemma shrinks_queued: "shrinks s (Inr t) \<Longrightarrow> queued_fds t = queued_fds s"
  by (simp add: shrinks_def queued_fds_def)

lemma shrinks_trans: "shrinks s (Inr t) \<Longrightarrow> shrinks t r \<Longrightarrow> shrinks s r"
  unfolding shrinks_def by auto

lemma shrinks_bind: "shrinks s m \<Longrightarrow> (\<And>t. m = Inr t \<Longrightarrow> shrinks t (f t)) \<Longrightarrow> shrinks s (bind_res m f)"
  by (cases m) (auto intro: shrinks_trans)

lemma release_shrinks: "shrinks s (release env x s)"
  unfolding shrinks_def by (auto elim!: release_cases)

lemma release_all_shrinks: "shrinks s (release_all env os s)"
  by (induction os arbitrary: s) (auto intro: shrinks_bind release_shrinks)

lemma new_fds_append_at: "new_fds ts = [] \<Longrightarrow> map new_fds (Q[l := Q ! l @ ts]) = map new_fds Q"
proof (cases "l < length Q")
  case True
  assume "new_fds ts = []"
  then have "map new_fds (Q[l := Q ! l @ ts]) = (map new_fds Q)[l := map new_fds Q ! l]"
    using True by (simp add: map_update)
  then show ?thesis by (simp only: list_update_id)
qed (simp add: list_update_beyond)

lemma on_conn_shrinks:
  assumes "on_conn x f s = Inr (ns, t)"
  shows "shrinks s (Inr t)"
proof -
  obtain c w where "objs s x = Some c" "t = conn_store x w s"
    using assms by (auto simp: on_conn_def bind_res_eq_Inr split: option.splits)
  then show ?thesis by (auto simp: shrinks_def conn_store_def Let_def new_fds_append_at)
qed

lemma conn_send_shrinks: "shrinks s (conn_send env l x data s)"
  unfolding conn_send_def
  by (cases "on_conn x (send (ctl env) (loop_of s x = l) (wr env x data) data) s") (auto intro: on_conn_shrinks)

lemma app_call_shrinks: "shrinks s (app_call env l ev s)"
proof -
  have "shrinks s r \<Longrightarrow> shrinks s (fold (\<lambda>(o', data) r. bind_res r (conn_send env l o' data)) xs r)" for xs r
    by (induction xs arbitrary: r) (auto intro!: shrinks_bind conn_send_shrinks)
  moreover have "shrinks s (Inr (s\<lparr>app_events := app_events s @ [ev]\<rparr>))" by (rule shrinks_same) simp_all
  ultimately show ?thesis by (simp add: app_call_def Let_def)
qed

lemma onCloseConnection_shrinks: "shrinks s (onCloseConnection env x s)"
proof (cases "objs s x")
  case (Some c)
  have "shrinks t (release_all env os (t\<lparr>connections := m\<rparr>))" for t :: "'a server" and os m
    using release_all_shrinks [of "t\<lparr>connections := m\<rparr>" env os] shrinks_view [of "t\<lparr>connections := m\<rparr>" t] by simp
  then show ?thesis using Some
    by (auto simp: onCloseConnection_def Let_def intro!: shrinks_bind app_call_shrinks)
qed (simp add: onCloseConnection_def)

lemma dispatch_note_shrinks: "shrinks s (dispatch_note env x n s)"
  by (cases n) (simp_all add: onMessage_def app_call_shrinks onCloseConnection_shrinks)

lemma dispatch_notes_shrinks: "shrinks s (dispatch_notes env x ns s)"
  by (induction ns arbitrary: s) (auto intro!: shrinks_bind dispatch_note_shrinks)

lemma conn_do_shrinks: "shrinks s (conn_do env x f s)"
  unfolding conn_do_def
  by (cases "on_conn x f s") (auto intro: shrinks_trans [OF on_conn_shrinks dispatch_notes_shrinks])

lemma run_srv_tasks_shrinks: "new_fds ts = [] \<Longrightarrow> shrinks s (run_srv_tasks env l ts s)"
proof (induction ts arbitrary: s)
  case (Cons t ts)
  then obtain x k where "t = ConnTask x k" by (cases t) simp_all
  then have "shrinks s (run_srv_task env l t s)" by (simp add: conn_do_shrinks split: conn_task.split)
  with Cons show ?case by (auto intro: shrinks_bind)
qed simp

lemma close_each_shrinks: "shrinks s (close_each env main os s)"
  by (induction os arbitrary: s) (auto simp: conn_close_def intro!: shrinks_bind conn_do_shrinks)

lemma close_idle_shrinks: "shrinks s (close_idle env main os s)"
  by (induction os arbitrary: s) (auto simp: conn_close_def split: option.split intro!: shrinks_bind conn_do_shrinks)

lemma checkHeartbeats_shrinks: "shrinks s (checkHeartbeats env main s)"
proof -
  let ?all = "getAllConnections s"
  have "shrinks s (close_idle env main ?all (s\<lparr>held := ?all\<rparr>))"
    using close_idle_shrinks [of "s\<lparr>held := ?all\<rparr>" env main ?all] shrinks_view [of "s\<lparr>held := ?all\<rparr>" s] by simp
  moreover have "shrinks t (release_all env ?all (t\<lparr>held := []\<rparr>))" for t
    using release_all_shrinks [of "t\<lparr>held := []\<rparr>" env ?all] shrinks_view [of "t\<lparr>held := []\<rparr>" t] by simp
  ultimately show ?thesis by (simp add: checkHeartbeats_def Let_def shrinks_bind)
qed

lemma conn_callback_shrinks: "shrinks s (conn_callback env x cb s)"
  by (cases cb) (auto split: option.split intro!: conn_do_shrinks)

lemma loop_event_shrinks: "shrinks s (loop_event env x ev s)"
proof (cases "objs s x")
  case (Some c)
  let ?run = "conn_callback env x" and ?s = "s\<lparr>objs := (objs s)(x \<mapsto> c\<lparr>channel := setRevents ev (channel c)\<rparr>)\<rparr>"
  have call: "shrinks t (Poller.call ?run cb t)" for cb t
    by (simp add: call_def conn_callback_shrinks del: conn_callback.simps split: option.split)
  have part: "shrinks t (bind_res (deref get t) (\<lambda>ch. handle_error_part ?run ch t))"
    "shrinks t (bind_res (deref get t) (\<lambda>ch. handle_read_part ?run ch t))"
    "shrinks t (bind_res (deref get t) (\<lambda>ch. handle_write_part ?run ch t))"
    "shrinks t (bind_res (deref get t) (\<lambda>ch. handle_hup_part ?run ch t))" for t get
    using call by (cases "get t", simp_all add: deref_def handle_error_part_def handle_read_part_def
      handle_write_part_def handle_hup_part_def)+
  have "shrinks ?s (handleEvent ?run (conn_channel x) ?s)"
    unfolding handleEvent_def by (intro shrinks_bind part)
  moreover have "shrinks s (Inr ?s)" using Some by (simp add: shrinks_def)
  ultimately show ?thesis using Some shrinks_trans [of s ?s] by (simp add: loop_event_def)
qed (simp add: loop_event_def)

section \<open>Places\<close>

definition placed :: "nat \<Rightarrow> 'k server \<Rightarrow> nat \<Rightarrow> bool" where
  "placed main s l \<longleftrightarrow> l = main \<or> l \<in> set (threads (pool s))"

definition srv_placed :: "nat \<Rightarrow> 'k server \<Rightarrow> bool" where
  "srv_placed main s \<longleftrightarrow> baseLoop (pool s) = main \<and> (\<forall>l\<in>set (loops (pool s)). placed main s l) \<and>
     (\<forall>l\<in>set (threads (pool s)). l < length (queues s)) \<and>
     (\<forall>x. objs s x \<noteq> None \<longrightarrow> placed main s (loop_of s x)) \<and>
     (\<forall>l<length (queues s). new_fds (queues s ! l) \<noteq> [] \<longrightarrow> placed main s l)"

lemma shrinks_placed:
  assumes "shrinks s (Inr t)" "srv_placed main s"
  shows "srv_placed main t"
proof -
  have same: "\<And>x. objs t x \<noteq> None \<Longrightarrow> objs s x \<noteq> None" "map new_fds (queues t) = map new_fds (queues s)"
    "loop_of t = loop_of s" "pool t = pool s" using assms(1) by (auto simp: shrinks_def)
  have len: "length (queues t) = length (queues s)" using same(2) by (rule map_eq_imp_length_eq)
  have "new_fds (queues t ! l) = new_fds (queues s ! l)" if "l < length (queues s)" for l
    using same(2) len that by (metis nth_map)
  then show ?thesis using assms(2) same(1) unfolding srv_placed_def placed_def same(3,4) len by simp
qed

lemma placed_view:
  "srv_placed main s \<Longrightarrow> objs t = objs s \<Longrightarrow> queues t = queues s \<Longrightarrow> loop_of t = loop_of s \<Longrightarrow>
   baseLoop (pool t) = baseLoop (pool s) \<Longrightarrow> loops (pool t) = loops (pool s) \<Longrightarrow> threads (pool t) = threads (pool s) \<Longrightarrow>
   srv_placed main t"
  by (simp add: srv_placed_def placed_def)

lemma create_conn_placed:
  assumes "create_conn env l fd s = Inr t" "srv_placed main s" "placed main s l"
  shows "srv_placed main t" "pool t = pool s"
proof -
  let ?c = "created env l fd s"
  have "srv_placed main ?c"
    using assms(2,3) by (auto simp: srv_placed_def placed_def) (auto simp: created_def Let_def split: if_splits)
  moreover have "shrinks ?c (create_conn env l fd s)"
    unfolding create_conn_created by (intro shrinks_bind release_all_shrinks) (simp add: app_call_shrinks)
  ultimately show "srv_placed main t" "pool t = pool s"
    using assms(1) shrinks_placed [of ?c t] by (auto simp: shrinks_def)
qed

lemma run_srv_tasks_placed:
  "run_srv_tasks env l ts s = Inr t \<Longrightarrow> srv_placed main s \<Longrightarrow> (new_fds ts \<noteq> [] \<Longrightarrow> placed main s l) \<Longrightarrow> srv_placed main t"
proof (induction ts arbitrary: s)
  case (Cons a ts)
  obtain u where u: "run_srv_task env l a s = Inr u" "run_srv_tasks env l ts u = Inr t"
    using Cons.prems(1) by (auto simp: bind_res_eq_Inr)
  have "srv_placed main u \<and> pool u = pool s"
  proof (cases a)
    case (NewConn fd)
    then show ?thesis using create_conn_placed [of env l fd s u main] u(1) Cons.prems(2,3) by simp
  next
    case (ConnTask x k)
    then have "shrinks s (run_srv_task env l a s)" by (simp add: conn_do_shrinks split: conn_task.split)
    then have "shrinks s (Inr u)" using u(1) by simp
    with shrinks_placed [OF this Cons.prems(2)] show ?thesis by (simp add: shrinks_def)
  qed
  then show ?case using Cons.IH [OF u(2)] Cons.prems(3) by (auto simp: placed_def)
qed simp

lemma loop_pending_placed:
  assumes run: "loop_pending env l s = Inr t" and s: "srv_placed main s" and l: "l < length (queues s)"
  shows "srv_placed main t"
proof -
  obtain u where u: "run_srv_tasks env l (queues s ! l) (batch_taken l s) = Inr u"
    "release_all env (List.map_filter task_conn (queues s ! l)) (u\<lparr>running := []\<rparr>) = Inr t"
    using run by (auto simp: loop_pending_split bind_res_eq_Inr)
  have "srv_placed main (batch_taken l s)"
    using s l by (auto simp: srv_placed_def placed_def batch_taken_def nth_list_update split: if_splits)
  moreover have "new_fds (queues s ! l) \<noteq> [] \<Longrightarrow> placed main (batch_taken l s) l"
    using s l by (auto simp: srv_placed_def placed_def batch_taken_def)
  ultimately have "srv_placed main u" using run_srv_tasks_placed [OF u(1)] by blast
  then have "srv_placed main (u\<lparr>running := []\<rparr>)" by (rule placed_view) simp_all
  then show ?thesis
    using shrinks_placed release_all_shrinks [of "u\<lparr>running := []\<rparr>" env "List.map_filter task_conn (queues s ! l)"] u(2) by auto
qed

lemma onNewConnection_placed:
  assumes run: "onNewConnection env main fd s = Inr t" and s: "srv_placed main s"
  shows "srv_placed main t"
proof -
  obtain l p where l: "getNextLoop (pool s) = Inr (l, p)" using run by (auto simp: onNewConnection_def bind_res_eq_Inr)
  then have p: "baseLoop p = baseLoop (pool s)" "loops p = loops (pool s)" "threads p = threads (pool s)"
      "l = baseLoop (pool s) \<or> l \<in> set (loops (pool s))"
    by (auto simp: getNextLoop_def split: if_splits)
  let ?s = "s\<lparr>pool := p\<rparr>"
  have s': "srv_placed main ?s" using s by (rule placed_view) (simp_all add: p)
  have here: "placed main ?s l" using p(4) s' p(1-3) s by (auto simp: srv_placed_def placed_def)
  show ?thesis
  proof (cases "l = main")
    case True
    then have "create_conn env l fd ?s = Inr t" using run l by (simp add: onNewConnection_def)
    from create_conn_placed(1) [OF this s' here] show ?thesis .
  next
    case False
    then have "t = ?s\<lparr>queues := (queues s)[l := queues s ! l @ [NewConn fd]]\<rparr>" using run l by (simp add: onNewConnection_def)
    then show ?thesis using s' here by (auto simp: srv_placed_def placed_def nth_list_update split: if_splits)
  qed
qed

lemma start_placed:
  assumes "srv_placed main s" "\<forall>i. start_loop i < length (queues s)"
  shows "srv_placed main (start_server start_loop s)"
proof -
  let ?p = "start_pool start_loop (pool s)"
  have "baseLoop ?p = baseLoop (pool s)" "set (threads (pool s)) \<subseteq> set (threads ?p)"
    "\<forall>l\<in>set (loops ?p). l \<in> set (loops (pool s)) \<or> l \<in> set (threads ?p) \<or> l = baseLoop (pool s)"
    "\<forall>l\<in>set (threads ?p). l \<in> set (threads (pool s)) \<or> l < length (queues s)"
    using assms(2) by (auto simp: start_pool_def Let_def)
  moreover have "pool (start_server start_loop s) = ?p" "objs (start_server start_loop s) = objs s"
    "queues (start_server start_loop s) = queues s" "loop_of (start_server start_loop s) = loop_of s"
    by (simp_all add: start_server_def Let_def)
  ultimately show ?thesis using assms(1) unfolding srv_placed_def placed_def by (auto 4 4)
qed

lemma srv_exec_placed:
  assumes run: "srv_exec main op s = Inr t" and s: "srv_placed main s" and ok: "srv_op_ok tbl base op s"
  shows "srv_placed main t"
proof (cases op)
  case (OpThreads n)
  with run show ?thesis by (intro placed_view [OF s]) (auto simp: srv_setThreadNum_def setThreadNum_def)
next
  case (OpHeartbeat timeout interval)
  with run show ?thesis by (intro placed_view [OF s]) (auto simp: setHeartbeat_def)
next
  case (OpCallbacks a b c)
  with run show ?thesis by (intro placed_view [OF s]) auto
next
  case (OpStart start_loop)
  with run ok start_placed [OF s, of start_loop] show ?thesis by simp
next
  case (OpAccept env fd)
  with run show ?thesis by (auto intro: onNewConnection_placed s)
next
  case (OpRun env l)
  with run ok show ?thesis by (auto intro: loop_pending_placed s)
next
  case (OpEvent env x ev)
  with run loop_event_shrinks [of s env x ev] show ?thesis by (auto intro: shrinks_placed [OF _ s])
next
  case (OpScan env)
  with run checkHeartbeats_shrinks [of s env main] show ?thesis by (auto intro: shrinks_placed [OF _ s])
next
  case (OpSend env l x data)
  with run conn_send_shrinks [of s env l x data] show ?thesis by (auto intro: shrinks_placed [OF _ s])
qed

lemma new_server_placed: "srv_placed main (new_server main lps)"
  by (simp add: srv_placed_def placed_def new_server_def new_pool_def)

interpretation placed_machine:
  op_invariant "srv_exec main" "\<lambda>s. srv_sound tbl base s \<and> srv_placed main s" "srv_op_ok tbl base" for main tbl base
proof
  show "\<exists>t. srv_exec main op s = Inr t \<and> srv_sound tbl base t \<and> srv_placed main t"
    if "srv_sound tbl base s \<and> srv_placed main s" "srv_op_ok tbl base op s" for s op
    using that srv_exec_sound [of tbl base s op main] srv_exec_placed [of main op s _ tbl base] by blast
qed

end
