(* ===== verification/Server_Shutdown.thy ===== *)
theory Server_Shutdown
  imports Server_Liveness Server_Places
begin

text \<open>
  The destructor of the server (\<open>reactor/Server.cpp\<close>): with no creation of a connection on its way it closes every
  connection on that connection's own loop before the loops go, whatever else is queued.
\<close>

section \<open>Rounds of a loop that has connections to close\<close>

text \<open>\<open>down\<close>: closed, or destroyed.  \<open>falling\<close>: down, or its loop has the functor of \<open>closeNow\<close> queued.\<close>

definition down :: "oid \<Rightarrow> 'k server \<Rightarrow> bool" where
  "down x s \<longleftrightarrow> (\<forall>c. objs s x = Some c \<longrightarrow> state c = kDisconnected)"

definition falling :: "oid \<Rightarrow> 'k server \<Rightarrow> bool" where
  "falling x s \<longleftrightarrow> (\<forall>c. objs s x = Some c \<longrightarrow>
     state c = kDisconnected \<or> ConnTask x CloseNowTask \<in> set (queues s ! loop_of s x))"

lemma closeNow_closes: "state (conn (if state (conn w) \<noteq> kDisconnected then handleClose ec w else w)) = kDisconnected"
  by (simp add: handleClose_def Let_def)

lemma close_achieves:
  assumes law: "env_law tbl env"
  shows "achieves tbl base env l x CloseNowTask (\<lambda>s. True) (closed x)"
proof (rule achievesI)
  show "closed x u" if good: "srv_good tbl base {} R s" "srv_ok {} s" and c: "objs s x = Some c" and "anchored x s"
      and run: "run_srv_task env l (ConnTask x CloseNowTask) s = Inr u" for s c R u
  proof -
    let ?f = "run_task (ctl env) (Done 0) CloseNowTask" and ?v = "conn_view s x c"
    have "conn_sound tbl ?v" using good(1) c by (simp add: srv_good_def srv_conns_def)
    then have "op_result tbl ?v (?f ?v)" using law by (intro task_result) (simp_all add: env_law_def)
    moreover have "conn_do env x ?f s = Inr u" using run by simp
    ultimately show ?thesis
      by (intro conn_do_closed [OF law good c _ keeps_fd_task that(4) _ closeNow_closes [of ?v "ctl env"]]) simp_all
  qed
qed (simp_all add: closed_carries)

lemma round_quiet:
  assumes law: "env_law tbl env" and s: "srv_sound tbl base s" and l: "l < length (queues s)"
    and quiet: "queued_fds s = []" and run: "loop_pending env l s = Inr t"
  shows "objs s x = None \<Longrightarrow> objs t x = None" "queued_fds t = []"
proof -
  obtain u where u: "run_srv_tasks env l (queues s ! l) (batch_taken l s) = Inr u"
    "release_all env (List.map_filter task_conn (queues s ! l)) (u\<lparr>running := []\<rparr>) = Inr t"
    by (rule round_parts [OF law s l run])
  have "mset (new_fds (queues s ! l) @ queued_fds (batch_taken l s)) = mset (queued_fds s)"
    using queued_fds_clear [OF l] by (simp add: queued_fds_def batch_taken_def)
  then have batch: "new_fds (queues s ! l) = []" "queued_fds (batch_taken l s) = []" using quiet by simp_all
  have "shrinks (batch_taken l s) (Inr u)" using run_srv_tasks_shrinks [OF batch(1), of "batch_taken l s" env l] u(1) by simp
  moreover have "shrinks u (Inr t)"
    using release_all_shrinks [of "u\<lparr>running := []\<rparr>" env "List.map_filter task_conn (queues s ! l)"] u(2)
      shrinks_view [of "u\<lparr>running := []\<rparr>" u] by simp
  ultimately show "objs s x = None \<Longrightarrow> objs t x = None" "queued_fds t = []"
    using batch(2) by (simp_all add: shrinks_def queued_fds_def) (simp add: batch_taken_def)
qed

lemma round_lowers:
  assumes law: "env_law tbl env" and s: "srv_sound tbl base s" and l: "l < length (queues s)"
    and quiet: "queued_fds s = []" and run: "loop_pending env l s = Inr t"
  shows "objs t x \<noteq> None \<Longrightarrow> loop_of t x = loop_of s x" "down x s \<Longrightarrow> down x t"
    "falling x s \<Longrightarrow> loop_of s x = l \<Longrightarrow> down x t" "falling x s \<Longrightarrow> falling x t"
proof -
  obtain u where u: "carries {} (batch_taken l s) u" "objs t x = None \<or> objs t x = objs u x" "queues t = queues u"
    "loop_of t = loop_of u"
    by (rule round_parts [OF law s l run]) blast
  have same: "objs (batch_taken l s) = objs s" "loop_of (batch_taken l s) = loop_of s"
    "length (queues (batch_taken l s)) = length (queues s)" by (simp_all add: batch_taken_def)
  have origin: "\<exists>c. objs s x = Some c \<and> loop_of t x = loop_of s x \<and> state c \<le> state d \<and> loop_of s x < length (queues s)"
    if d: "objs t x = Some d" for d
  proof -
    obtain c where c: "objs s x = Some c" using round_quiet(1) [OF law s l quiet run, of x] d by (cases "objs s x") auto
    obtain d' where "objs u x = Some d'" "loop_of u x = loop_of s x" "state c \<le> state d'"
      by (rule carriesD [OF u(1), of x c]) (use c same in auto)
    moreover have "loop_of s x < length (queues s)"
      using s c by (auto simp: srv_sound_def srv_good_def srv_conns_def srv_regs_def)
    ultimately show ?thesis using c d u(2,4) by simp
  qed
  then show "objs t x \<noteq> None \<Longrightarrow> loop_of t x = loop_of s x" by auto
  show down: "down x s \<Longrightarrow> down x t" using origin by (fastforce simp: down_def conn_state_cases)
  show falls: "falling x s \<Longrightarrow> loop_of s x = l \<Longrightarrow> down x t"
  proof (cases "\<exists>c. objs s x = Some c \<and> state c \<noteq> kDisconnected")
    case True
    moreover assume "falling x s" "loop_of s x = l"
    ultimately obtain c where c: "objs s x = Some c" "ConnTask x CloseNowTask \<in> set (queues s ! l)" "loop_of s x = l"
      by (auto simp: falling_def)
    show ?thesis
      by (rule round_brings [OF law s l close_achieves [OF law] c(2,3,1) _ run]) (auto simp: closed_def down_def)
  qed (use down in \<open>auto simp: down_def\<close>)
  show "falling x s \<Longrightarrow> falling x t"
  proof (cases "loop_of s x = l")
    case False
    assume f: "falling x s"
    show ?thesis
      unfolding falling_def
    proof (intro allI impI)
      fix d assume "objs t x = Some d"
      from origin [OF this] obtain c where c: "objs s x = Some c" "loop_of t x = loop_of s x" "state c \<le> state d"
        "loop_of s x < length (queues s)" by blast
      have "ConnTask x CloseNowTask \<in> set (queues t ! loop_of s x)" if "state c \<noteq> kDisconnected"
      proof -
        have "ConnTask x CloseNowTask \<in> set (queues (batch_taken l s) ! loop_of s x)"
          using f c(1) that False by (simp add: falling_def batch_taken_def)
        then show ?thesis using carries_queue [OF u(1)] c(4) same(3) u(3) by simp
      qed
      then show "state d = kDisconnected \<or> ConnTask x CloseNowTask \<in> set (queues t ! loop_of t x)"
        using c(2,3) by (cases "state c = kDisconnected") (auto simp: conn_state_cases)
    qed
  qed (use falls in \<open>auto simp: down_def falling_def\<close>)
qed

text \<open>The joined loops: each runs its queue out, and everything on the loops of the pool is closed.\<close>

lemma stop_loops_lowers:
  assumes law: "env_law tbl env"
  shows "srv_sound tbl base s \<Longrightarrow> queued_fds s = [] \<Longrightarrow> \<forall>l\<in>set ls. l < length (queues s) \<Longrightarrow>
    \<forall>x. falling x s \<and> (down x s \<or> loop_of s x \<in> set ls) \<Longrightarrow>
    \<exists>t. stop_loops env ls s = Inr t \<and> srv_sound tbl base t \<and> (\<forall>x. down x t)"
proof (induction ls arbitrary: s)
  case (Cons l ls)
  have len: "length (queues t) = length (queues r)" if "srv_sound tbl base r" "l < length (queues r)" "loop_pending env l r = Inr t" for r t
    using loop_pending_wf(2) [of env r l t] law that by (simp add: env_law_def srv_sound_def srv_size_def)
  have l: "l < length (queues s)" using Cons.prems(3) by simp
  obtain u where u: "loop_pending env l s = Inr u" "srv_sound tbl base u"
    using loop_pending_sound [OF law Cons.prems(1) l] by blast
  note first = round_lowers [OF law Cons.prems(1) l Cons.prems(2) u(1)]
  have lu: "l < length (queues u)" and qu: "queued_fds u = []"
    using len [OF Cons.prems(1) l u(1)] l round_quiet(2) [OF law Cons.prems(1) l Cons.prems(2) u(1)] by simp_all
  obtain v where v: "loop_pending env l u = Inr v" "srv_sound tbl base v"
    using loop_pending_sound [OF law u(2) lu] by blast
  note second = round_lowers [OF law u(2) lu qu v(1)]
  let ?v = "v\<lparr>loop_live := (loop_live v)[l := False]\<rparr>"
  have "srv_sound tbl base ?v" using v(2) by (rule sound_view) (use v(2) in \<open>simp_all add: srv_sound_def srv_good_def srv_pool_def\<close>)
  moreover have "queued_fds ?v = []" using round_quiet(2) [OF law u(2) lu qu v(1)] by (simp add: queued_fds_def)
  moreover have "\<forall>k\<in>set ls. k < length (queues ?v)"
    using Cons.prems(3) len [OF Cons.prems(1) l u(1)] len [OF u(2) lu v(1)] by simp
  moreover have "falling x ?v \<and> (down x ?v \<or> loop_of ?v x \<in> set ls)" for x
  proof -
    have x: "falling x s" "down x s \<or> loop_of s x = l \<or> loop_of s x \<in> set ls" using Cons.prems(4) by auto
    have f: "falling x u" by (rule first(4) [OF x(1)])
    have "down x v \<or> loop_of v x \<in> set ls"
    proof (cases "objs v x = None \<or> down x u")
      case True
      then show ?thesis using second(2) by (auto simp: down_def)
    next
      case False
      then have "objs u x \<noteq> None" using round_quiet(1) [OF law u(2) lu qu v(1), of x] by blast
      then have "loop_of v x = loop_of s x" using first(1) second(1) False by simp
      moreover have "\<not> down x s" "loop_of s x \<noteq> l" using first(2) first(3) [OF x(1)] False by auto
      ultimately show ?thesis using x(2) by simp
    qed
    with second(4) [OF f] have "falling x v \<and> (down x v \<or> loop_of v x \<in> set ls)" by blast
    then show ?thesis by (simp add: falling_def down_def)
  qed
  ultimately have "\<exists>t. stop_loops env ls ?v = Inr t \<and> srv_sound tbl base t \<and> (\<forall>x. down x t)" by (intro Cons.IH) blast+
  then show ?case using u(1) v(1) by simp
qed (auto simp: falling_def)

section \<open>Closing the snapshot\<close>

text \<open>Closed, or the functor that closes it is queued on its own loop, which is not that of the caller.\<close>

definition sinking :: "nat \<Rightarrow> oid \<Rightarrow> 'k server \<Rightarrow> bool" where
  "sinking main x s \<longleftrightarrow> (\<exists>c. objs s x = Some c \<and> (state c = kDisconnected \<or>
     loop_of s x \<noteq> main \<and> ConnTask x CloseNowTask \<in> set (queues s ! loop_of s x)))"

lemma sinking_carries:
  assumes "carries {} s t" "sinking main x s" "loop_of s x < length (queues s)"
  shows "sinking main x t"
proof -
  obtain c where c: "objs s x = Some c" "state c = kDisconnected \<or>
      loop_of s x \<noteq> main \<and> ConnTask x CloseNowTask \<in> set (queues s ! loop_of s x)"
    using assms(2) by (auto simp: sinking_def)
  obtain d where d: "objs t x = Some d" "loop_of t x = loop_of s x" "state c \<le> state d"
    by (rule carriesD [OF assms(1) c(1)]) auto
  then show ?thesis using c(2) carries_queue [OF assms(1,3)] by (auto simp: sinking_def conn_state_cases)
qed

lemma closeNow_sinks:
  assumes law: "env_law tbl env" and good: "srv_good tbl base {} R s" and ok: "srv_ok {} s" and c: "objs s x = Some c"
    and held: "x \<in> set (held s)" and l: "loop_of s x < length (queues s)"
  obtains t where "conn_close env (closeNow (ctl env)) main x s = Inr t" "srv_good tbl base {} R t" "carries {} s t"
    "sinking main x t"
proof -
  let ?f = "\<lambda>w. Inr (closeNow (ctl env) (loop_of s x = main) w)" and ?v = "conn_view s x c"
  have "op_result tbl ?v (?f ?v) \<and> succeeds tbl base {} {} R s (conn_close env (closeNow (ctl env)) main x s)"
    using conn_close_succeeds [OF law good ok c held, where op = CloseNow and f = "closeNow (ctl env)"]
    by (simp add: plain_op_def)
  then obtain t where op: "op_result tbl ?v (?f ?v)"
    and t: "conn_close env (closeNow (ctl env)) main x s = Inr t" "srv_good tbl base {} R t" "carries {} s t"
    by (auto simp: succeeds_def)
  have run: "conn_do env x ?f s = Inr t" using t(1) by (simp add: conn_close_def)
  have "sinking main x t"
  proof (cases "loop_of s x = main")
    case True
    have "closed x t"
      by (rule conn_do_closed [OF law good ok c op keeps_fd_pure _ _ closeNow_closes [of ?v "ctl env"] run])
        (use held True in \<open>simp_all add: anchored_def closeNow_def\<close>)
    then show ?thesis by (auto simp: closed_def sinking_def)
  next
    case False
    then have "t = conn_store x (queue_task CloseNowTask ?v) s"
      using run c by (simp add: conn_do_def on_conn_def closeNow_def queue_task_def conn_view_def)
    then show ?thesis using l False by (simp add: sinking_def queue_task_def) (simp add: conn_store_def Let_def conn_view_def)
  qed
  with t show thesis by (rule that)
qed

lemma close_each_sinks:
  assumes law: "env_law tbl env"
  shows "srv_ok {} s \<Longrightarrow> srv_good tbl base {} R s \<Longrightarrow> set os \<subseteq> set (held s) \<Longrightarrow>
    \<exists>t. close_each env main os s = Inr t \<and> srv_good tbl base {} R t \<and> carries {} s t \<and> (\<forall>x\<in>set os. sinking main x t)"
proof (induction os arbitrary: s)
  case (Cons x os)
  have place: "loop_of r x < length (queues r)" if "srv_good tbl base {} R r" "objs r x = Some c" for r c
    using that by (auto simp: srv_good_def srv_conns_def srv_regs_def)
  obtain c where c: "objs s x = Some c" by (rule held_alive [OF Cons.prems(1)]) (use Cons.prems(3) in auto)
  obtain t where t: "conn_close env (closeNow (ctl env)) main x s = Inr t" "srv_good tbl base {} R t" "carries {} s t"
    "sinking main x t"
    by (rule closeNow_sinks [OF law Cons.prems(2,1) c _ place [OF Cons.prems(2) c]]) (use Cons.prems(3) in auto)
  have "keeps s (Inr t)" using conn_close_keeps [of "closeNow (ctl env)" s env main x] t(1) by simp
  then have "srv_ok {} t" "srv_frame s t" using Cons.prems(1) by (auto dest: keepsD)
  then obtain u where u: "close_each env main os t = Inr u" "srv_good tbl base {} R u" "carries {} t u"
      "\<forall>y\<in>set os. sinking main y u"
    using Cons.IH [OF _ t(2)] Cons.prems(3) by (auto simp: srv_frame_def)
  have "sinking main x u"
    using t(4) place [OF t(2)] by (intro sinking_carries [OF u(3)]) (auto simp: sinking_def)
  then show ?case using t(1) u carries_trans [OF t(3) u(3)] by simp
qed simp

text \<open>The first half of the destructor: everything is falling, each connection on its own loop.\<close>

lemma snapshot_falls:
  assumes law: "env_law tbl env" and s: "srv_sound tbl base s" and quiet: "queued_fds s = []"
    and placed: "\<forall>x\<in>set (getAllConnections s). loop_of s x = main \<or> loop_of s x \<in> L"
  obtains u v where "close_each env main (getAllConnections s) (s\<lparr>held := getAllConnections s\<rparr>) = Inr u"
    "release_all env (getAllConnections s) (u\<lparr>held := []\<rparr>) = Inr v" "srv_sound tbl base v" "queued_fds v = []"
    "srv_size v = srv_size s" "\<And>x. falling x v \<and> (down x v \<or> loop_of v x \<in> L)"
proof -
  let ?all = "getAllConnections s" and ?s = "s\<lparr>held := getAllConnections s\<rparr>"
  have wf: "srv_wf s" and good: "srv_good tbl base {} [] s" using s by (simp_all add: srv_sound_def)
  have "srv_good tbl base {} [] ?s" using good by (rule srv_good_view) (simp_all add: queued_fds_def)
  then obtain u where u: "close_each env main ?all ?s = Inr u" "srv_good tbl base {} [] u" "carries {} ?s u"
      "\<forall>x\<in>set ?all. sinking main x u"
    using close_each_sinks [OF law hold_snapshot [OF wf], of base "[]" ?all main] by auto
  have "srv_good tbl base {} [] (u\<lparr>held := []\<rparr>)" using u(2) by (rule srv_good_view) (simp_all add: queued_fds_def)
  from release_all_succeeds [OF this, of ?all env]
  obtain v where v: "release_all env ?all (u\<lparr>held := []\<rparr>) = Inr v" "srv_good tbl base {} [] v"
    by (auto simp: succeeds_def)
  have "srv_wf v" "srv_size v = srv_size s"
    using snapshot_wf [of s "close_each env main ?all" env v, OF wf close_each_keeps] u(1) v(1) by simp_all
  moreover have small: "shrinks s (Inr u)" "shrinks u (Inr v)"
    using close_each_shrinks [of ?s env main ?all] shrinks_view [of ?s s] u(1)
      release_all_shrinks [of "u\<lparr>held := []\<rparr>" env ?all] shrinks_view [of "u\<lparr>held := []\<rparr>" u] v(1) by simp_all
  moreover have "falling x v \<and> (down x v \<or> loop_of v x \<in> L)" for x
  proof (cases "objs v x")
    case (Some d)
    then have d: "objs u x = Some d" "queues v = queues u" "loop_of v = loop_of u"
      using release_all_effect [OF v(1), of x] by auto
    then obtain c where c: "objs s x = Some c" using small(1) by (cases "objs s x") (auto simp: shrinks_def)
    then have c': "loop_of u x = loop_of s x" "state c \<le> state d"
      using carriesD [OF u(3), of x c] d(1) by auto
    show ?thesis
    proof (cases "x \<in> set ?all")
      case True
      with placed u(4) c'(1) d have "sinking main x u" "loop_of s x = main \<or> loop_of s x \<in> L" by auto
      with c'(1) d Some show ?thesis by (auto simp: sinking_def falling_def down_def)
    next
      case False
      then have "state c = kDisconnected" using good c by (auto simp: srv_good_def srv_open_def getAllConnections_def)
      then show ?thesis using c'(2) Some by (simp add: falling_def down_def conn_state_cases)
    qed
  qed (simp add: falling_def down_def)
  moreover have "queued_fds v = []" using small [THEN shrinks_queued] quiet by simp
  ultimately show thesis using u(1) v by (intro that [of u v]) (simp_all add: srv_sound_def)
qed

section \<open>Properties\<close>



end
