(* ===== verification/Server_Delivery.thy ===== *)
theory Server_Delivery
  imports Server_Liveness
begin

text \<open>
  What becomes of a message (\<open>reactor/Server.cpp\<close>, \<open>reactor/TcpConnection.cpp\<close>): sent from the thread of another loop, it
  waits as a functor in the queue of the connection's loop, and one round of that loop puts it into
  the stream of the connection, the bytes given to the kernel and those in the output buffer.
\<close>

section \<open>The functor of a message\<close>

definition delivered :: "oid \<Rightarrow> byte list \<Rightarrow> byte list \<Rightarrow> 'k server \<Rightarrow> bool" where
  "delivered x before data s \<longleftrightarrow> closed x s \<or> (\<exists>a b. srv_stream s x = before @ a @ data @ b)"

lemma deliveredI: "srv_stream s x = before @ a @ data @ b \<Longrightarrow> delivered x before data s"
  unfolding delivered_def by blast

definition continues :: "oid \<Rightarrow> byte list \<Rightarrow> 'k server \<Rightarrow> bool" where
  "continues x before s \<longleftrightarrow> (\<exists>a. srv_stream s x = before @ a)"

lemma delivered_carries:
  assumes "delivered x before data s" "carries {} s t" "objs s x \<noteq> None"
  shows "delivered x before data t"
proof -
  obtain c where "objs s x = Some c" using assms(3) by auto
  then obtain more where "srv_stream t x = srv_stream s x @ more" by (rule carries_stream [OF assms(2)]) auto
  note more = this
  show ?thesis
  proof (cases "closed x s")
    case True
    then show ?thesis using closed_carries [OF assms(2)] by (simp add: delivered_def)
  next
    case False
    then obtain a b where "srv_stream s x = before @ a @ data @ b" using assms(1) by (auto simp: delivered_def)
    then show ?thesis using more by (intro deliveredI [where a = a and b = "b @ more"]) simp
  qed
qed

lemma continues_carries:
  assumes "continues x before s" "carries {} s t" "objs s x \<noteq> None"
  shows "continues x before t"
proof -
  obtain c where "objs s x = Some c" using assms(3) by auto
  then obtain more where "srv_stream t x = srv_stream s x @ more" by (rule carries_stream [OF assms(2)]) auto
  then show ?thesis using assms(1) by (auto simp: continues_def)
qed

lemma send_task_delivers:
  assumes law: "env_law tbl env" and ans: "\<not> fatal (wr env x data)"
    and good: "srv_good tbl base {} R s" and ok: "srv_ok X s" and c: "objs s x = Some c" and anchor: "anchored x s"
    and run: "run_srv_task env l (ConnTask x (SendTask data)) s = Inr t" and before: "continues x before s"
  shows "delivered x before data t"
proof -
  let ?f = "run_task (ctl env) (wr env x data) (SendTask data)" and ?v = "conn_view s x c"
  have sound: "conn_sound tbl ?v" and calm: "trace ?v = []" using good c by (simp_all add: srv_good_def srv_conns_def)
  have wl: "write_law (wr env x data) data" and ec: "epoll_law (ctl env) tbl" using law by (simp_all add: env_law_def)
  have op: "op_result tbl ?v (?f ?v)" using wl by (intro task_result [OF ec sound calm]) simp
  then obtain w where w: "?f ?v = Inr w" by (auto simp: op_result_def)
  obtain ns u where u: "on_conn x ?f s = Inr (ns, u)" "succeeds tbl base {} {} R u (dispatch_notes env x ns u)"
    by (rule conn_do_parts [OF law good ok c op keeps_fd_task, where D = "{}"]) (use anchor in auto)
  have "carries {} u t" using u run by (simp add: conn_do_def)
  moreover have store: "u = conn_store x w s" using u(1) c w by (simp add: on_conn_def)
  moreover have "delivered x before data (conn_store x w s)"
  proof (cases "state c = kDisconnected")
    case True
    then have "closed x u" using op w store by (simp add: op_result_def closed_def)
    then show ?thesis using store by (simp add: delivered_def)
  next
    case False
    then have "conn_stream w = conn_stream ?v @ data"
      using send_task_stream [OF ec sound calm wl ans _ w] by simp
    then have "srv_stream (conn_store x w s) x = srv_stream s x @ data"
      using c by (simp add: srv_stream_def conn_stream_def conn_view_def) (simp add: conn_store_def Let_def)
    moreover obtain a where "srv_stream s x = before @ a" using before by (auto simp: continues_def)
    ultimately show ?thesis by (intro deliveredI [where a = a and b = "[]"]) simp
  qed
  ultimately show ?thesis by (auto intro: delivered_carries)
qed

lemma send_achieves:
  assumes "env_law tbl env" "\<not> fatal (wr env x data)"
  shows "achieves tbl base env l x (SendTask data) (continues x before)
    (\<lambda>s. objs s x \<noteq> None \<and> delivered x before data s)"
proof (rule achievesI)
  show "objs u x \<noteq> None \<and> delivered x before data u"
    if "srv_good tbl base {} R s" "srv_ok {} s" "objs s x = Some c" "anchored x s" "loop_of s x = l"
      "loop_of s x < length (queues s)" "run_srv_task env l (ConnTask x (SendTask data)) s = Inr u" "continues x before s"
    for s c R u
  proof -
    have "objs u x \<noteq> None"
      using run_srv_task_succeeds [OF assms(1) that(2,6), of base "ConnTask x (SendTask data)" R]
        that(1,3,4,5,7) carries_alive [of "{}" s u x] by (auto simp: succeeds_def)
    then show ?thesis using send_task_delivers [OF assms that(1-4,7,8)] by blast
  qed
qed (auto intro: continues_carries delivered_carries dest: carries_alive)

text \<open>A queued message: the next round of the loop succeeds and delivers it.\<close>

lemma round_delivers:
  assumes law: "env_law tbl env" and t: "srv_sound tbl base t" and l: "l < length (queues t)" and ans: "\<not> fatal (wr env x data)"
    and queued: "ConnTask x (SendTask data) \<in> set (queues t ! l)" "loop_of t x = l" "objs t x = Some c"
    and before: "srv_stream t x = before @ a"
  shows "\<exists>u. loop_pending env l t = Inr u \<and> srv_sound tbl base u \<and>
    ((fd, x) \<in> set (connections u) \<longrightarrow> (\<exists>a b. srv_stream u x = before @ a @ data @ b))"
proof -
  obtain u where u: "loop_pending env l t = Inr u" "srv_sound tbl base u"
    using loop_pending_sound [OF law t l] by blast
  have start: "continues x before (batch_taken l t)" using before by (auto simp: continues_def srv_stream_def batch_taken_def)
  obtain v :: "'a server" where v: "objs v x \<noteq> None \<and> delivered x before data v" "objs u x = None \<or> objs u x = objs v x"
      "sent u = sent v"
    by (rule round_brings [OF law t l send_achieves [OF law ans] queued start u(1)]) (rule that; assumption)
  have "\<exists>a b. srv_stream u x = before @ a @ data @ b" if still: "(fd, x) \<in> set (connections u)"
  proof -
    obtain d where "objs u x = Some d" "state d \<noteq> kDisconnected" using still sound_table [OF u(2), of fd x] by auto
    then have "\<not> closed x v" "srv_stream u x = srv_stream v x" using v(2,3) by (auto simp: closed_def srv_stream_def)
    then show ?thesis using v(1) by (simp add: delivered_def)
  qed
  then show ?thesis using u by blast
qed

text \<open>A send from the thread of another loop only queues the functor.\<close>

lemma remote_send:
  assumes "objs s x = Some c" "loop_of s x \<noteq> l"
  shows "conn_send env l x data s =
    Inr (s\<lparr>queues := (queues s)[loop_of s x := queues s ! loop_of s x @ [ConnTask x (SendTask data)]]\<rparr>)"
proof -
  have "(objs s)(x \<mapsto> c) = objs s" using assms(1) by auto
  then show ?thesis using assms
    by (simp add: conn_send_def on_conn_def send_def conn_store_def conn_view_def queue_task_def Let_def fun_upd_idem)
qed

section \<open>Properties\<close>

text \<open>C13: A message is delivered.  When a thread of another loop sends a message to an open connection, the send
  succeeds and so does the next round of the connection's loop, whatever else is queued there; and
  if the connection is still open then and no write failed for good, its stream has grown by the
  message: the bytes given to the kernel followed by those in the output buffer are what they were
  before the send, and the whole message in one piece behind it.\<close>

theorem message_delivered:
  assumes s: "srv_sound tbl base s" and law: "env_law tbl sender" "env_law tbl env"
    and x: "(fd, x) \<in> set (connections s)" "loop_of s x \<noteq> l" and ans: "\<not> fatal (wr env x data)"
  shows "\<exists>t u. conn_send sender l x data s = Inr t \<and> loop_pending env (loop_of s x) t = Inr u \<and>
    ((fd, x) \<in> set (connections u) \<longrightarrow> (\<exists>a b. srv_stream u x = srv_stream s x @ a @ data @ b))"
proof -
  let ?l = "loop_of s x"
  obtain c where c: "objs s x = Some c" using sound_table [OF s] x(1) by blast
  then have len: "?l < length (queues s)"
    using s by (auto simp: srv_sound_def srv_good_def srv_conns_def srv_regs_def)
  have "referenced x s" using x(1) by (force simp: referenced_iff)
  then obtain t where t: "conn_send sender l x data s = Inr t" "srv_sound tbl base t"
    using conn_send_sound [OF law(1) s] by blast
  then have q: "t = s\<lparr>queues := (queues s)[?l := queues s ! ?l @ [ConnTask x (SendTask data)]]\<rparr>"
    using remote_send [OF c x(2)] by simp
  have at: "?l < length (queues t)" "ConnTask x (SendTask data) \<in> set (queues t ! ?l)" "loop_of t x = ?l" "objs t x = Some c"
    using len c by (simp_all add: q)
  have "srv_stream t x = srv_stream s x @ []" by (simp add: q srv_stream_def)
  from round_delivers [OF law(2) t(2) at(1) ans at(2-4) this] t(1) show ?thesis by blast
qed

lemma message_delivered_witness:
  "\<exists>s t u. run_ops (srv_exec 0) [OpAccept greeting_env 5, OpRun greeting_env 1] beating_server = Inr s \<and>
     conn_send greeting_env 0 1 [104, 105] s = Inr t \<and> loop_pending greeting_env 1 t = Inr u \<and>
     ((5, 1) \<in> set (connections u) \<longrightarrow> (\<exists>a b. srv_stream u 1 = srv_stream s 1 @ a @ [104, 105] @ b))"
proof -
  obtain s where s: "run_ops (srv_exec 0) [OpAccept greeting_env 5, OpRun greeting_env 1] beating_server = Inr s"
    "connections s = [(5, 1)]" "loop_of s 1 = 1" "srv_sound id {} s"
    by (rule beating_run)
  have "\<not> fatal (wr greeting_env 1 [104, 105])" by (simp add: greeting_env_def least_env_def demo_env_def)
  with message_delivered [OF s(4) greeting_env_law greeting_env_law, of 5 1 0 "[104, 105]"] s(1-3) show ?thesis by auto
qed

end
