(* ===== verification/Chat_Server.thy ===== *)
theory Chat_Server
  imports Server
begin

text \<open>
  The chat room that runs on the library (\<open>reactor/server.cpp\<close>): the three callbacks it gives to
  the server and the broadcast they share, as operations on the server's state.  \<open>l\<close> is the loop
  whose thread runs the callback.  The lines for the log are values of their own; the log is
  in \<open>Logger\<close> and \<open>Async_Logging\<close>.
\<close>

section \<open>Texts\<close>

definition name_of :: "tcp \<Rightarrow> byte list" where
  "name_of c = bytes_of (''conn-'' @ decimal (name c))"

text \<open>The message without its line ends, as the log shows it.\<close>

function strip_log :: "byte list \<Rightarrow> byte list" where
  "strip_log log = (if log \<noteq> [] \<and> (last log = 10 \<or> last log = 13) then strip_log (butlast log) else log)"
  by pat_completeness auto

termination strip_log
  by (relation "measure length") simp_all

declare strip_log.simps [simp del]

definition chat_log_line :: "tcp \<Rightarrow> byte list \<Rightarrow> byte list" where
  "chat_log_line c msg = bytes_of ''[message] from '' @ name_of c @ bytes_of '': '' @ strip_log msg"

section \<open>Operations\<close>

text \<open>
  \<open>broadcast\<close> holds a snapshot of the table while it sends; \<open>from\<close> is the pointer it leaves out.
\<close>

fun send_each :: "'k srv_env \<Rightarrow> nat \<Rightarrow> oid option \<Rightarrow> byte list \<Rightarrow> oid list \<Rightarrow> 'k server \<Rightarrow> 'k server res" where
  "send_each env l from_conn msg [] s = Inr s"
| "send_each env l from_conn msg (o' # os) s =
     (if from_conn = Some o' then send_each env l from_conn msg os s
      else bind_res (conn_send env l o' msg s) (send_each env l from_conn msg os))"

definition broadcast :: "'k srv_env \<Rightarrow> nat \<Rightarrow> oid option \<Rightarrow> byte list \<Rightarrow> 'k server \<Rightarrow> 'k server res" where
  "broadcast env l from_conn msg s = (let snapshot = getAllConnections s in
     bind_res (send_each env l from_conn msg snapshot (s\<lparr>held := snapshot @ held s\<rparr>)) (\<lambda>s.
     release_all env snapshot (s\<lparr>held := drop (length snapshot) (held s)\<rparr>)))"

definition crlf :: "byte list" where
  "crlf = [13, 10]"

definition chat_connected :: "'k srv_env \<Rightarrow> nat \<Rightarrow> oid \<Rightarrow> 'k server \<Rightarrow> 'k server res" where
  "chat_connected env l o' s = (case objs s o' of None \<Rightarrow> Inl UseAfterFree
     | Some c \<Rightarrow>
         bind_res (broadcast env l (Some o') (bytes_of ''[chat] '' @ name_of c @ bytes_of '' joined'' @ crlf) s)
           (conn_send env l o' (bytes_of ''[chat] welcome, you are '' @ name_of c @ crlf)))"

definition chat_message :: "'k srv_env \<Rightarrow> nat \<Rightarrow> oid \<Rightarrow> 'k server \<Rightarrow> 'k server res" where
  "chat_message env l o' s = (case objs s o' of None \<Rightarrow> Inl UseAfterFree
     | Some c \<Rightarrow>
         bind_res (retrieveAllAsString (input_buffer c)) (\<lambda>(msg, b).
         broadcast env l None (bytes_of ''[chat] '' @ name_of c @ bytes_of '' '' @ msg)
           (s\<lparr>objs := (objs s)(o' \<mapsto> c\<lparr>input_buffer := b\<rparr>)\<rparr>)))"

definition chat_closed :: "'k srv_env \<Rightarrow> nat \<Rightarrow> oid \<Rightarrow> 'k server \<Rightarrow> 'k server res" where
  "chat_closed env l o' s = (case objs s o' of None \<Rightarrow> Inl UseAfterFree
     | Some c \<Rightarrow> broadcast env l (Some o') (bytes_of ''[chat] '' @ name_of c @ bytes_of '' left'' @ crlf) s)"

section \<open>What a send does to the server\<close>

text \<open>What a connection will write in order, and the functors that wait for it in its loop's queue.\<close>

definition direct :: "'k server \<Rightarrow> oid \<Rightarrow> byte list" where
  "direct s o' = sent s o' @ (case objs s o' of None \<Rightarrow> [] | Some c \<Rightarrow> contents (output_buffer c))"

definition posted :: "'k server \<Rightarrow> oid \<Rightarrow> srv_task list" where
  "posted s o' = filter (\<lambda>t. task_conn t = Some o') (queues s ! loop_of s o')"

definition open_conn :: "'k server \<Rightarrow> oid \<Rightarrow> bool" where
  "open_conn s o' \<longleftrightarrow> loop_of s o' < length (queues s) \<and>
     (case objs s o' of None \<Rightarrow> False
      | Some c \<Rightarrow> state c \<noteq> kDisconnected \<and> buf_inv (output_buffer c) \<and> buf_inv (input_buffer c))"

definition writes_succeed :: "'k srv_env \<Rightarrow> bool" where
  "writes_succeed env \<longleftrightarrow> (\<forall>o' data. write_law (wr env o' data) data \<and> \<not> fatal (wr env o' data))"

text \<open>What no send changes.\<close>

definition same_frame :: "'k server \<Rightarrow> 'k server \<Rightarrow> bool" where
  "same_frame s t \<longleftrightarrow> connections t = connections s \<and> held t = held s \<and> running t = running s \<and>
     loop_of t = loop_of s \<and> length (queues t) = length (queues s) \<and>
     (\<forall>x. map_option input_buffer (objs t x) = map_option input_buffer (objs s x)) \<and>
     (\<forall>x. open_conn s x \<longrightarrow> open_conn t x)"

lemma same_frame_refl: "same_frame s s"
  by (simp add: same_frame_def)

lemma same_frame_trans: "same_frame s t \<Longrightarrow> same_frame t u \<Longrightarrow> same_frame s u"
  by (simp add: same_frame_def)

lemma sendInLoop_stream:
  assumes "state (conn w) \<noteq> kDisconnected" "buf_inv (output_buffer (conn w))" "write_law ans data" "\<not> fatal ans"
  obtains w' where "sendInLoop ec ans data w = Inr w'" "tasks w' = tasks w"
    "wire w' @ contents (output_buffer (conn w')) = wire w @ contents (output_buffer (conn w)) @ data"
    "buf_inv (output_buffer (conn w'))" "state (conn w') = state (conn w)"
    "input_buffer (conn w') = input_buffer (conn w)"
proof -
  let ?b = "output_buffer (conn w)"
  define n where "n = (if contents ?b = [] then written ans else 0)"
  define w1 where "w1 = w\<lparr>wire := wire w @ take n data\<rparr>"
  have att: "try_write ans data w = Some (n, w1)"
    using assms by (cases ans) (auto simp: try_write_def buffer_simps n_def w1_def)
  have le: "n \<le> length data" using assms(3) by (cases ans) (simp_all add: n_def write_law_def)
  have wire: "contents ?b = [] \<or> take n data = []" by (simp add: n_def)
  obtain b where b: "append_buf (drop n data) ?b = Inr b" "buf_inv b" "contents b = contents ?b @ drop n data"
    using append_fifo [OF assms(2)] by metis
  show thesis
  proof (cases "n = length data")
    case True
    then have "sendInLoop ec ans data w = Inr (write_complete w1)"
      using att assms(1) by (simp add: sendInLoop_def)
    then show thesis using that [of "write_complete w1"] True wire assms(2) by (auto simp: w1_def)
  next
    case False
    let ?w = "on_channel (enableWriting ec) (w1\<lparr>conn := (conn w1)\<lparr>output_buffer := b\<rparr>\<rparr>)"
    have "sendInLoop ec ans data w = Inr ?w"
      using att le False b assms(1) by (simp add: sendInLoop_def load_def w1_def)
    then show thesis using that [of ?w] b wire by (auto simp: w1_def)
  qed
qed

lemma conn_send_ok:
  assumes live: "open_conn s o'" and wr: "writes_succeed env"
  shows "\<exists>s'. conn_send env l o' data s = Inr s' \<and> same_frame s s' \<and>
    direct s' = (direct s)(o' := direct s o' @ (if loop_of s o' = l then data else [])) \<and>
    posted s' = (posted s)(o' := posted s o' @
      (if loop_of s o' = l then [] else [ConnTask o' (SendTask data)]))"
proof -
  obtain c where c: "objs s o' = Some c" "state c \<noteq> kDisconnected" "buf_inv (output_buffer c)"
    "buf_inv (input_buffer c)" "loop_of s o' < length (queues s)"
    using live by (auto simp: open_conn_def split: option.splits)
  let ?v = "conn_view s o' c"
  have ans: "write_law (wr env o' data) data" "\<not> fatal (wr env o' data)"
    using wr by (simp_all add: writes_succeed_def)
  show ?thesis
  proof (cases "loop_of s o' = l")
    case True
    obtain w where w: "sendInLoop (ctl env) (wr env o' data) data ?v = Inr w" "tasks w = []"
      "wire w @ contents (output_buffer (conn w)) = contents (output_buffer c) @ data"
      "buf_inv (output_buffer (conn w))" "state (conn w) = state c" "input_buffer (conn w) = input_buffer c"
      using sendInLoop_stream [OF _ _ ans, of ?v "ctl env"] c by (auto simp: conn_view_sel(1) [where c = c])
    let ?s = "conn_store o' w s"
    have "conn_send env l o' data s = Inr ?s"
      using w(1) c(1) True by (simp add: conn_send_def on_conn_def send_def)
    moreover have "same_frame s ?s"
      using w c by (auto simp: same_frame_def open_conn_def conn_store_queues)
    moreover have "direct ?s = (direct s)(o' := direct s o' @ data)"
      using w(3) c(1) by (auto simp: fun_eq_iff direct_def conn_store_def Let_def)
    moreover have "posted ?s = posted s" using w(2) by (auto simp: fun_eq_iff posted_def conn_store_queues)
    ultimately show ?thesis using True by auto
  next
    case False
    let ?w = "queue_task (SendTask data) ?v"
    let ?s = "conn_store o' ?w s"
    have "conn_send env l o' data s = Inr ?s"
      using c(1) False by (simp add: conn_send_def on_conn_def send_def)
    moreover have "same_frame s ?s"
      using c by (auto simp: same_frame_def open_conn_def conn_store_def Let_def)
    moreover have "direct ?s = direct s"
      using c(1) by (auto simp: fun_eq_iff direct_def conn_store_def Let_def)
    moreover have "posted ?s = (posted s)(o' := posted s o' @ [ConnTask o' (SendTask data)])"
      using c(5) by (auto simp: fun_eq_iff posted_def conn_store_def Let_def nth_list_update)
    ultimately show ?thesis using False by auto
  qed
qed

text \<open>The connections that a broadcast from \<open>from_conn\<close> over \<open>os\<close> reaches.\<close>

definition addressed :: "oid option \<Rightarrow> oid list \<Rightarrow> oid \<Rightarrow> bool" where
  "addressed from_conn os o' \<longleftrightarrow> o' \<in> set os \<and> from_conn \<noteq> Some o'"

lemma send_each_ok:
  assumes wr: "writes_succeed env"
  shows "distinct os \<Longrightarrow> \<forall>o'\<in>set os. open_conn s o' \<Longrightarrow>
    \<exists>s'. send_each env l from_conn msg os s = Inr s' \<and> same_frame s s' \<and>
      direct s' = (\<lambda>o'. direct s o' @ (if addressed from_conn os o' \<and> loop_of s o' = l then msg else [])) \<and>
      posted s' = (\<lambda>o'. posted s o' @
        (if addressed from_conn os o' \<and> loop_of s o' \<noteq> l then [ConnTask o' (SendTask msg)] else []))"
proof (induction os arbitrary: s)
  case Nil
  then show ?case by (simp add: same_frame_refl addressed_def)
next
  case (Cons o' os)
  show ?case
  proof (cases "from_conn = Some o'")
    case True
    then have "addressed from_conn (o' # os) = addressed from_conn os" by (auto simp: addressed_def fun_eq_iff)
    then show ?thesis using True Cons.IH [of s] Cons.prems by simp
  next
    case False
    obtain t where t: "conn_send env l o' msg s = Inr t" "same_frame s t"
      "direct t = (direct s)(o' := direct s o' @ (if loop_of s o' = l then msg else []))"
      "posted t = (posted s)(o' := posted s o' @ (if loop_of s o' = l then [] else [ConnTask o' (SendTask msg)]))"
      using conn_send_ok [OF _ wr, of s o' l msg] Cons.prems(2) by auto
    have "\<forall>x\<in>set os. open_conn t x" using Cons.prems(2) t(2) by (simp add: same_frame_def)
    then obtain u where u: "send_each env l from_conn msg os t = Inr u" "same_frame t u"
      "direct u = (\<lambda>x. direct t x @ (if addressed from_conn os x \<and> loop_of t x = l then msg else []))"
      "posted u = (\<lambda>x. posted t x @
        (if addressed from_conn os x \<and> loop_of t x \<noteq> l then [ConnTask x (SendTask msg)] else []))"
      using Cons.IH [of t] Cons.prems(1) by auto
    have loops: "loop_of t = loop_of s" using t(2) by (simp add: same_frame_def)
    have add: "addressed from_conn (o' # os) x \<longleftrightarrow> x = o' \<or> addressed from_conn os x"
      "\<not> addressed from_conn os o'" for x
      using False Cons.prems(1) by (auto simp: addressed_def)
    have "send_each env l from_conn msg (o' # os) s = Inr u" using False t(1) u(1) by simp
    moreover have "direct u = (\<lambda>x. direct s x @
        (if addressed from_conn (o' # os) x \<and> loop_of s x = l then msg else []))"
      using add by (auto simp: u(3) t(3) loops fun_eq_iff)
    moreover have "posted u = (\<lambda>x. posted s x @
        (if addressed from_conn (o' # os) x \<and> loop_of s x \<noteq> l then [ConnTask x (SendTask msg)] else []))"
      using add by (auto simp: u(4) t(4) loops fun_eq_iff)
    ultimately show ?thesis using same_frame_trans [OF t(2) u(2)] by blast
  qed
qed

lemma held_view [simp]:
  "direct (s\<lparr>held := h\<rparr>) = direct s" "posted (s\<lparr>held := h\<rparr>) = posted s" "open_conn (s\<lparr>held := h\<rparr>) = open_conn s"
  "getAllConnections (s\<lparr>held := h\<rparr>) = getAllConnections s"
  by (simp_all add: fun_eq_iff direct_def posted_def open_conn_def getAllConnections_def)

lemma broadcast_ok:
  assumes wr: "writes_succeed env" and "distinct (getAllConnections s)"
    and live: "\<forall>o'\<in>set (getAllConnections s). open_conn s o'"
  shows "\<exists>s'. broadcast env l from_conn msg s = Inr s' \<and> same_frame s s' \<and>
    direct s' = (\<lambda>o'. direct s o' @
      (if addressed from_conn (getAllConnections s) o' \<and> loop_of s o' = l then msg else [])) \<and>
    posted s' = (\<lambda>o'. posted s o' @
      (if addressed from_conn (getAllConnections s) o' \<and> loop_of s o' \<noteq> l then [ConnTask o' (SendTask msg)] else []))"
proof -
  let ?all = "getAllConnections s" and ?s = "s\<lparr>held := getAllConnections s @ held s\<rparr>"
  obtain t where t: "send_each env l from_conn msg ?all ?s = Inr t" "same_frame ?s t"
    "direct t = (\<lambda>o'. direct s o' @ (if addressed from_conn ?all o' \<and> loop_of s o' = l then msg else []))"
    "posted t = (\<lambda>o'. posted s o' @
      (if addressed from_conn ?all o' \<and> loop_of s o' \<noteq> l then [ConnTask o' (SendTask msg)] else []))"
    using send_each_ok [OF wr assms(2), of ?s l from_conn msg] live by auto
  let ?t = "t\<lparr>held := drop (length ?all) (held t)\<rparr>"
  have frame: "same_frame s ?t" using t(2) by (simp add: same_frame_def)
  then have "release_all env ?all ?t = Inr ?t"
    by (intro release_all_referenced) (auto simp: referenced_def getAllConnections_def same_frame_def)
  then have "broadcast env l from_conn msg s = Inr ?t" using t(1) by (simp add: broadcast_def Let_def)
  then show ?thesis using frame t(3,4) by auto
qed

section \<open>A message of the room\<close>

lemma chat_message_ok:
  assumes wr: "writes_succeed env" and "distinct (getAllConnections s)"
    and live: "\<forall>x\<in>set (getAllConnections s). open_conn s x"
    and sender: "objs s o' = Some c" "buf_inv (input_buffer c)"
    and line: "line = bytes_of ''[chat] '' @ name_of c @ bytes_of '' '' @ contents (input_buffer c)"
  shows "\<exists>s'. chat_message env l o' s = Inr s' \<and>
    direct s' = (\<lambda>x. direct s x @
      (if x \<in> set (getAllConnections s) \<and> loop_of s x = l then line else [])) \<and>
    posted s' = (\<lambda>x. posted s x @
      (if x \<in> set (getAllConnections s) \<and> loop_of s x \<noteq> l then [ConnTask x (SendTask line)] else [])) \<and>
    map_option (contents \<circ> input_buffer) (objs s' o') = Some [] \<and>
    loop_of s' = loop_of s \<and> length (queues s') = length (queues s) \<and> (\<forall>x\<in>set (getAllConnections s). open_conn s' x)"
proof -
  define b where "b = retrieve (length (contents (input_buffer c))) (input_buffer c)"
  define t where "t = s\<lparr>objs := (objs s)(o' \<mapsto> c\<lparr>input_buffer := b\<rparr>)\<rparr>"
  have b: "retrieveAllAsString (input_buffer c) = Inr (contents (input_buffer c), b)" "buf_inv b" "contents b = []"
    using retrieveAllAsString_fifo [OF sender(2)] retrieve_fifo [OF sender(2)] by (simp_all add: b_def)
  have all: "getAllConnections t = getAllConnections s" by (simp add: t_def getAllConnections_def)
  have same: "direct t = direct s" "posted t = posted s" "loop_of t = loop_of s"
    using sender(1) by (auto simp: fun_eq_iff direct_def posted_def t_def)
  have live': "\<forall>x\<in>set (getAllConnections t). open_conn t x"
    using live sender(1) b(2) unfolding all by (auto simp: open_conn_def t_def)
  obtain s' where s': "broadcast env l None line t = Inr s'" "same_frame t s'"
    "direct s' = (\<lambda>x. direct s x @
      (if x \<in> set (getAllConnections s) \<and> loop_of s x = l then line else []))"
    "posted s' = (\<lambda>x. posted s x @
      (if x \<in> set (getAllConnections s) \<and> loop_of s x \<noteq> l then [ConnTask x (SendTask line)] else []))"
    using broadcast_ok [OF wr, of t l None line] assms(2) live' by (auto simp: all same addressed_def)
  moreover have "chat_message env l o' s = Inr s'"
    using sender(1) b(1) s'(1) by (simp add: chat_message_def line t_def)
  moreover have "map_option input_buffer (objs s' o') = Some b"
    using s'(2) by (simp add: same_frame_def t_def)
  then have "map_option (contents \<circ> input_buffer) (objs s' o') = Some []" using b(3) by auto
  moreover have "loop_of s' = loop_of s" "length (queues s') = length (queues s)"
    "\<forall>x\<in>set (getAllConnections s). open_conn s' x"
    using s'(2) live' same(3) all by (simp_all add: same_frame_def) (simp add: t_def)
  ultimately show ?thesis by blast
qed

section \<open>Properties\<close>


lemma decimal_examples: "decimal 1 = ''1''" "decimal 2 = ''2''"
  by code_simp+

text \<open>Two connections, 9 on loop 1 with two bytes to read, and 12 on loop 2.\<close>

definition demo_input :: buffer where
  "demo_input = \<lparr>buf = [104, 105], read_index = 0, write_index = 2\<rparr>"

lemma demo_input_facts: "buf_inv demo_input" "contents demo_input = [104, 105]"
  by (simp_all add: demo_input_def buf_inv_def contents_def segment_def)

definition demo_chat :: "interest server" where
  "demo_chat = demo_server\<lparr>objs := [9 \<mapsto> demo_tcp\<lparr>input_buffer := demo_input\<rparr>,
       12 \<mapsto> demo_tcp\<lparr>self := 12, connfd := 6, name := 2\<rparr>],
     loop_of := (\<lambda>o'. if o' = 12 then 2 else 1), queues := [[], [], []],
     connections := [(5, 9), (6, 12)]\<rparr>"

lemma demo_chat_facts:
  "writes_succeed demo_env" "getAllConnections demo_chat = [9, 12]"
  "\<forall>x\<in>set (getAllConnections demo_chat). open_conn demo_chat x"
  by (simp_all add: writes_succeed_def demo_env_def write_law_def getAllConnections_def demo_chat_def
      open_conn_def demo_input_facts)

definition demo_line :: "byte list" where
  "demo_line = bytes_of ''[chat] conn-1 hi''"


text \<open>A newcomer is announced to the others and welcomed alone.  The connection callback, on the loop of
  the new connection, sends the notice to every other connection of the table, directly or
  through its loop, and the new connection gets the welcome and nothing else.\<close>

theorem chat_newcomer_announced:
  assumes wr: "writes_succeed env" and "distinct (getAllConnections s)"
    and live: "\<forall>x\<in>set (getAllConnections s). open_conn s x"
    and new: "objs s o' = Some c" "o' \<in> set (getAllConnections s)" "loop_of s o' = l"
    and notice: "notice = bytes_of ''[chat] '' @ name_of c @ bytes_of '' joined'' @ crlf"
    and greeting: "greeting = bytes_of ''[chat] welcome, you are '' @ name_of c @ crlf"
  shows "\<exists>s'. chat_connected env l o' s = Inr s' \<and>
    direct s' = (\<lambda>x. direct s x @ (if x = o' then greeting
      else if x \<in> set (getAllConnections s) \<and> loop_of s x = l then notice else [])) \<and>
    posted s' = (\<lambda>x. posted s x @
      (if x \<in> set (getAllConnections s) \<and> loop_of s x \<noteq> l then [ConnTask x (SendTask notice)] else []))"
proof -
  obtain t where t: "broadcast env l (Some o') notice s = Inr t" "same_frame s t"
    "direct t = (\<lambda>x. direct s x @
      (if addressed (Some o') (getAllConnections s) x \<and> loop_of s x = l then notice else []))"
    "posted t = (\<lambda>x. posted s x @
      (if addressed (Some o') (getAllConnections s) x \<and> loop_of s x \<noteq> l then [ConnTask x (SendTask notice)] else []))"
    using broadcast_ok [OF wr assms(2,3)] by blast
  have "open_conn t o'" "loop_of t o' = l" using t(2) live new by (auto simp: same_frame_def)
  then obtain u where u: "conn_send env l o' greeting t = Inr u"
    "direct u = (direct t)(o' := direct t o' @ greeting)" "posted u = posted t"
    using conn_send_ok [OF _ wr, of t o' l greeting] by auto
  have "chat_connected env l o' s = Inr u"
    using new(1) t(1) u(1) by (simp add: chat_connected_def notice greeting)
  then show ?thesis using new(3) u(2,3) t(3,4) by (auto simp: fun_eq_iff addressed_def)
qed

lemma chat_newcomer_announced_witness:
  "\<exists>s'. chat_connected demo_env 2 12 demo_chat = Inr s' \<and>
     direct s' 12 = direct demo_chat 12 @ bytes_of ''[chat] welcome, you are conn-2'' @ crlf \<and>
     posted s' 9 = [ConnTask 9 (SendTask (bytes_of ''[chat] conn-2 joined'' @ crlf))]"
proof -
  let ?c = "demo_tcp\<lparr>self := 12, connfd := 6, name := 2\<rparr>"
  have c: "objs demo_chat 12 = Some ?c" "12 \<in> set (getAllConnections demo_chat)" "loop_of demo_chat 12 = 2"
    by (simp_all add: demo_chat_def getAllConnections_def)
  have n: "name_of ?c = bytes_of ''conn-2''" by (simp add: name_of_def decimal_examples)
  have "posted demo_chat 9 = []" "loop_of demo_chat 9 = 1" by (simp_all add: demo_chat_def posted_def)
  then show ?thesis
    using chat_newcomer_announced [OF demo_chat_facts(1) _ demo_chat_facts(3) c refl refl] n
    by (auto simp: demo_chat_facts(2) bytes_of_def)
qed

end
