(* ===== verification/Acceptor.thy ===== *)
theory Acceptor
  imports Poller
begin

text \<open>
  The acceptor (\<open>reactor/Acceptor.h\<close>, \<open>reactor/Acceptor.cpp\<close>).  The answers of \<open>accept4\<close> are a list,
  one per call; a list that ends without a failure leaves the loop running, and the value is
  \<open>None\<close>.  The callback and the closing of a descriptor act on a world \<open>'w\<close>.
\<close>

section \<open>State and operations\<close>

datatype acceptor_cb = AcceptRead

datatype accept_answer = Accepted fd | AcceptFail errno

record acceptor =
  acc_self :: chan
  accept_fd :: fd
  accept_channel :: "acceptor_cb channel"
  listening :: bool

text \<open>The constructor: \<open>sock\<close> and \<open>bound\<close> are the answers of \<open>socket\<close> and \<open>bind\<close>.\<close>

definition new_acceptor :: "chan \<Rightarrow> fd option \<Rightarrow> bool \<Rightarrow> acceptor res" where
  "new_acceptor p sock bound = (case sock of None \<Rightarrow> Inl Aborted
     | Some fd \<Rightarrow>
         if \<not> bound then Inl Aborted
         else Inr \<lparr>acc_self = p, accept_fd = fd,
           accept_channel = (new_channel fd)\<lparr>readCallback := Some AcceptRead\<rparr>, listening = False\<rparr>)"

definition destroy_acceptor :: "'k epoll_ctl \<Rightarrow> (fd \<Rightarrow> 'k \<Rightarrow> 'k) \<Rightarrow> acceptor \<Rightarrow> 'k poller \<Rightarrow> 'k poller" where
  "destroy_acceptor ctl close_fd a lp =
     (let (ch, lp) = disableAll ctl (acc_self a) (accept_channel a) lp;
          lp = lp\<lparr>kern := close_fd (accept_fd a) (kern lp)\<rparr>
      in destroy_channel ctl (acc_self a) ch lp)"

definition listen :: "'k epoll_ctl \<Rightarrow> bool \<Rightarrow> acceptor \<Rightarrow> 'k poller \<Rightarrow> acceptor \<times> 'k poller" where
  "listen ctl ok a lp = (if \<not> ok then (a, lp)
     else let (ch, lp) = enableReading ctl (acc_self a) (accept_channel a) lp
       in (a\<lparr>listening := True, accept_channel := ch\<rparr>, lp))"

definition deliver :: "(fd \<Rightarrow> 'w \<Rightarrow> 'w) option \<Rightarrow> (fd \<Rightarrow> 'w \<Rightarrow> 'w) \<Rightarrow> fd \<Rightarrow> 'w \<Rightarrow> 'w" where
  "deliver newConnectionCallback close_fd fd = (case newConnectionCallback of
     Some cb \<Rightarrow> cb fd | None \<Rightarrow> close_fd fd)"

fun handleRead :: "(fd \<Rightarrow> 'w \<Rightarrow> 'w) option \<Rightarrow> (fd \<Rightarrow> 'w \<Rightarrow> 'w) \<Rightarrow> accept_answer list \<Rightarrow> 'w \<Rightarrow>
    (accept_answer list \<times> 'w) option" where
  "handleRead cb close_fd [] w = None"
| "handleRead cb close_fd (Accepted fd # answers) w = handleRead cb close_fd answers (deliver cb close_fd fd w)"
| "handleRead cb close_fd (AcceptFail e # answers) w = Some (answers, w)"

section \<open>Properties\<close>

lemma handleRead_accepts:
  "handleRead cb close_fd (map Accepted fds @ answers) w =
   handleRead cb close_fd answers (fold (deliver cb close_fd) fds w)"
  by (induction fds arbitrary: w) simp_all

lemma answers_split:
  obtains fds where "answers = map Accepted fds"
  | fds e rest where "answers = map Accepted fds @ AcceptFail e # rest"
proof (induction answers arbitrary: thesis)
  case (Cons a answers)
  show thesis
  proof (cases a)
    case (Accepted fd)
    show thesis
    proof (rule Cons.IH)
      show thesis if "answers = map Accepted fds" for fds
        using that Accepted by (intro Cons.prems(1) [of "fd # fds"]) simp
      show thesis if "answers = map Accepted fds @ AcceptFail e # rest" for fds e rest
        using that Accepted by (intro Cons.prems(2) [of "fd # fds" e rest]) simp
    qed
  next
    case (AcceptFail e)
    then show thesis by (intro Cons.prems(2) [of "[]" e answers]) simp
  qed
qed simp

text \<open>C28: No accepted connection is dropped.  \<open>handleRead\<close> returns exactly when some \<open>accept4\<close> fails,
  having stopped at the first failure, and every descriptor accepted before it was, in order,
  handed to the callback, or closed when there is none; nothing else happened to the world.\<close>

theorem acceptor_hands_over_all:
  "handleRead cb close_fd answers w = Some (rest, w') \<longleftrightarrow>
     (\<exists>fds e. answers = map Accepted fds @ AcceptFail e # rest \<and>
        w' = fold (case cb of Some f \<Rightarrow> f | None \<Rightarrow> close_fd) fds w)"
proof -
  have d: "deliver cb close_fd = (case cb of Some f \<Rightarrow> f | None \<Rightarrow> close_fd)"
    by (cases cb) (auto simp: deliver_def fun_eq_iff)
  have some: "handleRead cb close_fd (map Accepted fds @ AcceptFail e # rs) w =
      Some (rs, fold (deliver cb close_fd) fds w)" for fds e rs
    by (simp add: handleRead_accepts)
  have none: "handleRead cb close_fd (map Accepted fds) w = None" for fds
    using handleRead_accepts [of cb close_fd fds "[]" w] by simp
  show ?thesis
  proof
    assume run: "handleRead cb close_fd answers w = Some (rest, w')"
    with none obtain fds e rs where "answers = map Accepted fds @ AcceptFail e # rs"
      by (cases rule: answers_split [of answers]) auto
    with run some show "\<exists>fds e. answers = map Accepted fds @ AcceptFail e # rest \<and>
        w' = fold (case cb of Some f \<Rightarrow> f | None \<Rightarrow> close_fd) fds w"
      unfolding d by auto
  qed (use some d in auto)
qed

lemma listen_registers:
  assumes "channels lp (accept_fd a) = None" "ch_fd (accept_channel a) = accept_fd a"
    and "fst (ctl (CtlAdd (accept_fd a) (events (accept_channel a) OR EPOLLIN) (acc_self a)) (kern lp))"
  shows "channels (snd (listen ctl True a lp)) (accept_fd a) = Some (acc_self a)"
  using assms by (simp add: listen_def channel_op_defs updateChannel_add Let_def)

text \<open>An acceptor that is destroyed before it listened leaves its channel in the loop's map, because
  \<open>disableAll\<close> registers it: the channel of a later descriptor with the same number is then taken for
  a registered one and modified, which the kernel refuses, so that no event of it is ever reported.\<close>

theorem dangling_acceptor_hides_fd:
  assumes law: "epoll_law ctl tbl" and a: "new_acceptor p (Some fd) True = Inr a"
    and "mirrors tbl lp" "channels lp fd = None" and ok: "fst (ctl (CtlAdd fd 0 p) (kern lp))"
    and close: "\<forall>k. tbl (close_fd fd k) = (tbl k)(fd := None)"
    and lp': "lp' = destroy_acceptor ctl close_fd a lp" and ch: "ch_fd ch = fd"
    and new: "(ch', lp'') = enableReading ctl p' ch lp'"
  shows "channels lp' fd = Some p \<and> events ch' AND EPOLLIN \<noteq> 0 \<and> tbl (kern lp'') fd = None"
proof -
  let ?c = "(new_channel fd)\<lparr>readCallback := Some AcceptRead, events := 0\<rparr>"
  have a': "a = \<lparr>acc_self = p, accept_fd = fd,
      accept_channel = (new_channel fd)\<lparr>readCallback := Some AcceptRead\<rparr>, listening = False\<rparr>"
    using a by (simp add: new_acceptor_def)
  have fd: "ch_fd ?c = fd" by (simp add: new_channel_def)
  have "lp' = (updateChannel ctl p ?c lp)\<lparr>kern := close_fd fd (kern (updateChannel ctl p ?c lp))\<rparr>"
    by (simp add: lp' a' destroy_acceptor_def channel_op_defs destroy_channel_def isNoneEvent_def Let_def)
  then have reg: "channels lp' fd = Some p" and gone: "tbl (kern lp') fd = None"
    using assms(4) ok close fd by (simp_all add: updateChannel_add Let_def)
  have bits: "(x OR EPOLLIN) AND EPOLLIN \<noteq> 0" "x OR EPOLLIN \<noteq> 0" for x
    by (simp_all add: epoll_masks bit.conj_disj_distrib2 or_eq_0_iff)
  have "\<not> fst (ctl (CtlMod fd (events ch OR EPOLLIN) p') (kern lp'))"
    using epoll_mod(2) [OF law] gone by blast
  then have "tbl (kern lp'') fd = None"
    using new reg gone ch bits by (simp add: channel_op_defs updateChannel_mod epoll_mod [OF law])
  then show ?thesis using reg new bits by (simp add: channel_op_defs)
qed

lemma dangling_acceptor_hides_fd_witness:
  "\<exists>a lp' lp'' ch'. new_acceptor 3 (Some 7) True = Inr a \<and>
     lp' = destroy_acceptor table_ctl (\<lambda>fd t. t(fd := None)) a \<lparr>channels = Map.empty, kern = Map.empty\<rparr> \<and>
     (ch', lp'') = enableReading table_ctl 4 (new_channel 7 :: nat channel) lp' \<and>
     channels lp' 7 = Some 3 \<and> kern lp'' 7 = None"
proof -
  obtain a where a: "new_acceptor 3 (Some 7) True = Inr a" by (simp add: new_acceptor_def)
  define lp :: "interest poller" where "lp = \<lparr>channels = Map.empty, kern = Map.empty\<rparr>"
  define lp' where "lp' = destroy_acceptor table_ctl (\<lambda>fd t. t(fd := None)) a lp"
  obtain ch' lp'' where new: "(ch', lp'') = enableReading table_ctl 4 (new_channel 7 :: nat channel) lp'"
    by (metis surj_pair)
  have "channels lp' 7 = Some 3 \<and> events ch' AND EPOLLIN \<noteq> 0 \<and> id (kern lp'') 7 = None"
    by (rule dangling_acceptor_hides_fd [OF table_ctl_law a _ _ _ _ lp'_def _ new])
      (simp_all add: lp_def mirrors_def new_channel_def)
  then show ?thesis using a new unfolding lp'_def lp_def by auto
qed

end
