(* ===== verification/Number_Text.thy ===== *)
theory Number_Text
  imports Prelude
begin

text \<open>
  Numbers and texts: the digits of a number, and \<open>std::stoi\<close> and \<open>std::atoi\<close>, with which the
  programs read their command lines.
\<close>

section \<open>Reading digits\<close>

definition digit_value :: "char \<Rightarrow> nat" where
  "digit_value c = of_char c - 48"

definition parse_nat :: "nat \<Rightarrow> string \<Rightarrow> nat" where
  "parse_nat n s = foldl (\<lambda>n c. 10 * n + digit_value c) n s"

definition is_digit :: "char \<Rightarrow> bool" where
  "is_digit c \<longleftrightarrow> 48 \<le> (of_char c :: nat) \<and> (of_char c :: nat) \<le> 57"

lemma of_char_digit: "d < 10 \<Longrightarrow> (of_char (char_of (48 + d :: nat)) :: nat) = 48 + d"
  by simp

lemma digit_chars [simp]:
  "char_of (48::nat) = CHR ''0''" "char_of (49::nat) = CHR ''1''" "char_of (50::nat) = CHR ''2''"
  "char_of (51::nat) = CHR ''3''" "char_of (52::nat) = CHR ''4''" "char_of (53::nat) = CHR ''5''"
  "char_of (54::nat) = CHR ''6''" "char_of (55::nat) = CHR ''7''" "char_of (56::nat) = CHR ''8''"
  "char_of (57::nat) = CHR ''9''"
  by (simp_all add: char_of_def bit_0)

lemma parse_nat_append: "parse_nat k (s @ t) = parse_nat (parse_nat k s) t"
  by (simp add: parse_nat_def)

lemma parse_nat_digit: "d < 10 \<Longrightarrow> parse_nat k [char_of (48 + d)] = 10 * k + d"
  unfolding parse_nat_def by (simp add: digit_value_def del: digit_chars)

lemma decimal_digits: "list_all is_digit (decimal n)"
proof (induction n rule: decimal.induct)
  case (1 n)
  have digit: "is_digit (char_of (48 + d))" if "d < 10" for d :: nat
    using of_char_digit [OF that] that by (simp add: is_digit_def)
  then show ?case using 1 by (simp add: decimal.simps [of n])
qed

lemma decimal_not_empty: "decimal n \<noteq> []"
  by (simp add: decimal.simps [of n])

lemma parse_decimal: "parse_nat 0 (decimal n) = n"
proof (induction n rule: decimal.induct)
  case (1 n)
  show ?case
  proof (cases "n < 10")
    case True
    then show ?thesis by (simp add: decimal.simps [of n] parse_nat_digit)
  next
    case False
    then have "parse_nat 0 (decimal n) = parse_nat (parse_nat 0 (decimal (n div 10))) [char_of (48 + n mod 10)]"
      by (simp add: decimal.simps [of n] parse_nat_append)
    then show ?thesis using 1 [OF False] by (simp add: parse_nat_digit)
  qed
qed

section \<open>Numbers on a command line\<close>

text \<open>
  Both functions skip white space, take a sign and then as many digits as there are; text behind
  the digits is ignored.  \<open>stoi\<close> throws when there is no digit and when the value is not an
  \<open>int\<close> (\<open>None\<close>); \<open>atoi\<close> returns 0 without a digit, and the low bits of a value clamped to \<open>long\<close>.
\<close>

definition is_space :: "char \<Rightarrow> bool" where
  "is_space c \<longleftrightarrow> c = CHR '' '' \<or> (9 \<le> (of_char c :: nat) \<and> (of_char c :: nat) \<le> 13)"

definition leading_int :: "string \<Rightarrow> int option" where
  "leading_int s = (let s = dropWhile is_space s;
       negative = (s \<noteq> [] \<and> hd s = CHR ''-'');
       s = (if s \<noteq> [] \<and> (hd s = CHR ''-'' \<or> hd s = CHR ''+'') then tl s else s);
       digits = takeWhile is_digit s
     in if digits = [] then None
        else Some (if negative then - int (parse_nat 0 digits) else int (parse_nat 0 digits)))"

definition int_range :: "int \<Rightarrow> bool" where
  "int_range v \<longleftrightarrow> - (2 ^ 31) \<le> v \<and> v < 2 ^ 31"

definition stoi :: "string \<Rightarrow> int option" where
  "stoi s = (case leading_int s of Some v \<Rightarrow> if int_range v then Some v else None | None \<Rightarrow> None)"

definition atoi :: "string \<Rightarrow> int" where
  "atoi s = (case leading_int s of None \<Rightarrow> 0
     | Some v \<Rightarrow> sint (word_of_int (max (- (2 ^ 63)) (min (2 ^ 63 - 1) v)) :: 32 word))"

definition int_text :: "int \<Rightarrow> string" where
  "int_text v = (if v < 0 then CHR ''-'' # decimal (nat (- v)) else decimal (nat v))"

lemma digit_no_space: "is_digit c \<Longrightarrow> \<not> is_space c \<and> c \<noteq> CHR ''-'' \<and> c \<noteq> CHR ''+''"
  by (auto simp: is_digit_def is_space_def)

text \<open>A number that was written as text reads back.\<close>

lemma leading_int_text: "leading_int (int_text v) = Some v"
proof -
  have "leading_int (decimal n) = Some (int n) \<and> leading_int (CHR ''-'' # decimal n) = Some (- int n)" for n
  proof -
    obtain c cs where d: "decimal n = c # cs" "is_digit c"
      using decimal_not_empty [of n] decimal_digits [of n] by (cases "decimal n") auto
    have "\<forall>x\<in>set cs. is_digit x" using decimal_digits [of n] d by (simp add: list_all_iff)
    moreover have "dropWhile is_space (decimal n) = decimal n" "\<not> is_space (CHR ''-'')"
      using d digit_no_space by (auto simp: is_space_def)
    ultimately show ?thesis
      using d digit_no_space [OF d(2)] parse_decimal [of n] decimal_not_empty [of n]
      by (simp add: leading_int_def Let_def takeWhile_eq_all_conv [THEN iffD2])
  qed
  then show ?thesis by (simp add: int_text_def)
qed

lemma stoi_text: "int_range v \<Longrightarrow> stoi (int_text v) = Some v"
  by (simp add: stoi_def leading_int_text)

lemma atoi_text: "int_range v \<Longrightarrow> atoi (int_text v) = v"
  by (auto simp: atoi_def leading_int_text int_range_def signed_of_int signed_take_bit_int_eq_self
      min_def max_def)

end
