(* ===== verification/Log_Stream.thy ===== *)
theory Log_Stream
  imports Number_Text
begin

text \<open>
  The front end of the log (\<open>reactor/LogStream.h\<close>, \<open>reactor/LogStream.cpp\<close>): the fixed buffer,
  the stream that formats into it, and the conversion of integers to decimal text.  A buffer is
  the text written so far and its capacity \<open>SIZE\<close>; characters are those of HOL.
\<close>

section \<open>FixedBuffer\<close>

record fixed_buffer =
  capacity :: nat
  written_text :: string

definition new_fixed :: "nat \<Rightarrow> fixed_buffer" where
  "new_fixed cap = \<lparr>capacity = cap, written_text = []\<rparr>"

text \<open>\<open>avail()\<close> is an \<open>int\<close>, and so is the length after its cast from \<open>size_t\<close>.\<close>

definition avail :: "fixed_buffer \<Rightarrow> int" where
  "avail b = int (capacity b) - int (length (written_text b))"

definition to_int :: "nat \<Rightarrow> int" where
  "to_int n = sint (of_nat n :: 32 word)"

text \<open>\<open>memcpy\<close> past the end of the array is a fault.\<close>

definition fixed_append :: "string \<Rightarrow> fixed_buffer \<Rightarrow> fixed_buffer res" where
  "fixed_append s b = (if avail b > to_int (length s)
     then if length (written_text b) + length s \<le> capacity b
          then Inr (b\<lparr>written_text := written_text b @ s\<rparr>) else Inl OutOfBounds
     else Inr b)"

definition fixed_add :: "char \<Rightarrow> fixed_buffer \<Rightarrow> fixed_buffer" where
  "fixed_add c b = (if avail b > 1 then b\<lparr>written_text := written_text b @ [c]\<rparr> else b)"

definition fixed_length :: "fixed_buffer \<Rightarrow> int" where
  "fixed_length b = int (length (written_text b))"

definition fixed_reset :: "fixed_buffer \<Rightarrow> fixed_buffer" where
  "fixed_reset b = b\<lparr>written_text := []\<rparr>"

definition fixed_inv :: "fixed_buffer \<Rightarrow> bool" where
  "fixed_inv b \<longleftrightarrow> length (written_text b) \<le> capacity b \<and> capacity b < 2 ^ 31"

section \<open>Decimal text of an integer\<close>

text \<open>The \<open>do\<close> loop fills the array from its end: \<open>acc\<close> is what stands at \<open>p\<close>.\<close>

function push_digits :: "nat \<Rightarrow> string \<Rightarrow> string" where
  "push_digits u acc = (let acc = char_of (48 + u mod 10) # acc
     in if u div 10 = 0 then acc else push_digits (u div 10) acc)"
  by pat_completeness auto
termination by (relation "measure fst") auto

declare push_digits.simps [simp del]

text \<open>
  \<open>formatInteger\<close> of a signed or unsigned type of \<open>'a\<close> bits: the value is read as unsigned, and
  negated in that type when the signed value is negative.
\<close>

definition format_signed :: "'a::len word \<Rightarrow> string" where
  "format_signed v = (if sint v < 0 then CHR ''-'' # push_digits (unat (0 - v)) []
     else push_digits (unat v) [])"

definition format_unsigned :: "'a::len word \<Rightarrow> string" where
  "format_unsigned v = push_digits (unat v) []"

section \<open>LogStream\<close>

definition kSmallBuffer :: nat where
  "kSmallBuffer = 4000"

record log_stream =
  sbuf :: fixed_buffer
  discard :: bool

definition new_stream :: log_stream where
  "new_stream = \<lparr>sbuf = new_fixed kSmallBuffer, discard = False\<rparr>"

definition stream_append :: "string \<Rightarrow> log_stream \<Rightarrow> log_stream res" where
  "stream_append s st = bind_res (fixed_append s (sbuf st)) (\<lambda>b. Inr (st\<lparr>sbuf := b\<rparr>))"

definition unless_discarded :: "(log_stream \<Rightarrow> log_stream res) \<Rightarrow> log_stream \<Rightarrow> log_stream res" where
  "unless_discarded f st = (if discard st then Inr st else f st)"

definition put_bool :: "bool \<Rightarrow> log_stream \<Rightarrow> log_stream res" where
  "put_bool v = unless_discarded (stream_append (if v then ''1'' else ''0''))"

definition put_char :: "char \<Rightarrow> log_stream \<Rightarrow> log_stream res" where
  "put_char c = unless_discarded (\<lambda>st. Inr (st\<lparr>sbuf := fixed_add c (sbuf st)\<rparr>))"

definition put_cstring :: "string option \<Rightarrow> log_stream \<Rightarrow> log_stream res" where
  "put_cstring s = unless_discarded (case s of None \<Rightarrow> stream_append ''(null)'' | Some t \<Rightarrow> stream_append t)"

definition put_string :: "string \<Rightarrow> log_stream \<Rightarrow> log_stream res" where
  "put_string s = unless_discarded (stream_append s)"

definition put_signed :: "'a::len word \<Rightarrow> log_stream \<Rightarrow> log_stream res" where
  "put_signed v = unless_discarded (stream_append (format_signed v))"

definition put_unsigned :: "'a::len word \<Rightarrow> log_stream \<Rightarrow> log_stream res" where
  "put_unsigned v = unless_discarded (stream_append (format_unsigned v))"

text \<open>
  Floating-point values and pointers go through \<open>snprintf\<close> into an array of 32 characters:
  \<open>text\<close> is the full conversion, of which at most 31 characters and a NUL are stored, while the
  return value is its whole length, and that many characters are appended from the array.
\<close>

definition put_printed :: "string \<Rightarrow> log_stream \<Rightarrow> log_stream res" where
  "put_printed text = unless_discarded (\<lambda>st.
     let stored = take 31 text @ [CHR 0x00] in
     if avail (sbuf st) > to_int (length text)
     then if length text \<le> 32
          then stream_append (take (length text) stored) st
          else Inl OutOfBounds
     else Inr st)"

section \<open>Lemmas on buffers\<close>

lemma to_int_small [simp]: "n < 2 ^ 31 \<Longrightarrow> to_int n = int n"
proof -
  assume n: "n < 2 ^ 31"
  then have "uint (of_nat n :: 32 word) = int n" by (simp add: unsigned_of_nat take_bit_nat_eq_self)
  with n show ?thesis by (simp add: to_int_def sint_uint signed_take_bit_int_eq_self)
qed

lemma fixed_append_fits:
  assumes "fixed_inv b" "length s < 2 ^ 31"
  shows "fixed_append s b = Inr (if length (written_text b) + length s < capacity b
    then b\<lparr>written_text := written_text b @ s\<rparr> else b)"
  using assms by (auto simp: fixed_append_def avail_def fixed_inv_def)

lemma fixed_append_inv:
  assumes "fixed_inv b" "length s < 2 ^ 31" "fixed_append s b = Inr b'"
  shows "fixed_inv b'"
  using assms fixed_append_fits [OF assms(1,2)] by (auto simp: fixed_inv_def)

lemma fixed_add_inv: "fixed_inv b \<Longrightarrow> fixed_inv (fixed_add c b)"
  by (simp add: fixed_add_def fixed_inv_def avail_def)

section \<open>Lemmas on decimal text\<close>

definition parse_int :: "string \<Rightarrow> int" where
  "parse_int s = (case s of [] \<Rightarrow> 0
     | c # t \<Rightarrow> if c = CHR ''-'' then - int (parse_nat 0 t) else int (parse_nat 0 s))"

lemma push_digits_value: "parse_nat 0 (push_digits u acc) = parse_nat u acc"
proof (induction u acc rule: push_digits.induct)
  case (1 u acc)
  have d: "digit_value (char_of (48 + u mod 10)) = u mod 10"
    unfolding digit_value_def by (subst of_char_digit) simp_all
  show ?case
  proof (cases "u div 10 = 0")
    case True
    then have "u mod 10 = u" by (simp add: div_eq_0_iff)
    with True d show ?thesis by (subst push_digits.simps) (simp add: parse_nat_def Let_def)
  next
    case False
    have "10 * (u div 10) + u mod 10 = u" by simp
    with 1 [OF refl False] False d show ?thesis
      by (subst push_digits.simps) (simp add: parse_nat_def Let_def)
  qed
qed

lemma parse_nat_nil [simp]: "parse_nat n [] = n"
  by (simp add: parse_nat_def)

lemma push_digits_length: "u < 10 ^ Suc k \<Longrightarrow> length (push_digits u acc) \<le> length acc + Suc k"
proof (induction k arbitrary: u acc)
  case 0
  then show ?case by (subst push_digits.simps) (simp add: Let_def div_eq_0_iff)
next
  case (Suc k)
  show ?case
  proof (cases "u div 10 = 0")
    case True
    then show ?thesis by (subst push_digits.simps) (simp add: Let_def)
  next
    case False
    have "u div 10 < 10 ^ Suc k" using Suc.prems by (simp add: less_mult_imp_div_less mult.commute)
    with Suc.IH [of "u div 10" "char_of (48 + u mod 10) # acc"] False show ?thesis
      by (subst push_digits.simps) (simp add: Let_def)
  qed
qed

lemma push_digits_digits: "\<forall>c\<in>set acc. is_digit c \<Longrightarrow> \<forall>c\<in>set (push_digits u acc). is_digit c"
proof (induction u acc rule: push_digits.induct)
  case (1 u acc)
  have d: "is_digit (char_of (48 + u mod 10))"
    unfolding is_digit_def by (subst of_char_digit, simp)+ simp
  show ?case
  proof (cases "u div 10 = 0")
    case True
    with 1(2) d show ?thesis by (subst push_digits.simps) (simp add: Let_def)
  next
    case False
    from 1(1) [OF refl False] 1(2) d have "\<forall>c\<in>set (push_digits (u div 10) (char_of (48 + u mod 10) # acc)). is_digit c"
      by simp
    with False show ?thesis by (subst push_digits.simps) (simp add: Let_def)
  qed
qed

lemma push_digits_nonempty: "push_digits u acc \<noteq> []"
proof (induction u acc rule: push_digits.induct)
  case (1 u acc)
  then show ?case by (subst push_digits.simps) (simp add: Let_def)
qed

lemma parse_int_digits: "parse_int (push_digits u []) = int u"
proof (cases "push_digits u []")
  case Nil
  then show ?thesis using push_digits_nonempty [of u "[]"] by simp
next
  case (Cons c t)
  then have "is_digit c" using push_digits_digits [of "[]" u] by simp
  then have "c \<noteq> CHR ''-''" by (auto simp: is_digit_def)
  then show ?thesis using Cons push_digits_value [of u "[]"] by (simp add: parse_int_def parse_nat_def)
qed

lemma sint_cases:
  fixes v :: "'a::len word"
  shows "sint v = (if sint v < 0 then uint v - 2 ^ LENGTH('a) else uint v)"
proof -
  have "Suc (LENGTH('a) - Suc 0) = LENGTH('a)" by simp
  moreover have "take_bit LENGTH('a) (uint v) = uint v"
    by (rule take_bit_int_eq_self) (simp_all add: uint_lt2p)
  ultimately have "sint v = uint v - 2 ^ LENGTH('a) * of_bool (bit (uint v) (LENGTH('a) - Suc 0))"
    by (simp add: sint_uint signed_take_bit_eq_take_bit_minus)
  then show ?thesis using uint_ge_0 [of v] uint_lt2p [of v]
    by (cases "bit (uint v) (LENGTH('a) - Suc 0)") auto
qed

lemma negated_value:
  fixes v :: "'a::len word"
  assumes "sint v < 0"
  shows "int (unat (0 - v)) = - sint v"
proof -
  have "uint v \<noteq> 0" using assms by (metis less_irrefl sint_0 uint_0_iff)
  moreover have "uint v < 2 ^ LENGTH('a)" by (rule uint_lt2p)
  ultimately have "(- uint v) mod 2 ^ LENGTH('a) = 2 ^ LENGTH('a) - uint v"
    by (simp add: zmod_zminus1_eq_if)
  then show ?thesis using sint_cases [of v] assms by (simp add: uint_word_ariths)
qed

section \<open>Properties\<close>

text \<open>The decimal text of an integer is right: read back, it gives the value of every signed and
  unsigned integer, the most negative one included, and for types of at most 64 bits it has at
  most 20 characters, so that the array of 32 characters never underflows.\<close>

theorem integer_text_reads_back:
  fixes v :: "'a::len word"
  shows "parse_int (format_signed v) = sint v \<and> parse_int (format_unsigned v) = uint v \<and>
    (LENGTH('a) \<le> 64 \<longrightarrow> length (format_signed v) \<le> 20 \<and> length (format_unsigned v) \<le> 20)"
proof -
  have neg: "parse_int (CHR ''-'' # s) = - int (parse_nat 0 s)" for s by (simp add: parse_int_def)
  have nonneg: "sint v = uint v" if "\<not> sint v < 0"
    using sint_cases [of v] that by simp
  have u64: "unat v < 10 ^ 20" if "LENGTH('a) \<le> 64"
  proof -
    have "unat v < 2 ^ LENGTH('a)" by simp
    also have "\<dots> \<le> 2 ^ 64" using that by (intro power_increasing) simp_all
    finally show ?thesis by simp
  qed
  have s64: "unat (0 - v) < 10 ^ 19" if "LENGTH('a) \<le> 64" "sint v < 0"
  proof -
    have "- sint v \<le> 2 ^ (LENGTH('a) - 1)" using sint_ge [of v] by simp
    also have "(2::int) ^ (LENGTH('a) - 1) \<le> 2 ^ 63" using that(1) by (intro power_increasing) simp_all
    finally have "int (unat (0 - v)) \<le> 2 ^ 63" using negated_value [OF that(2)] by simp
    then have "unat (0 - v) \<le> 2 ^ 63" by (metis of_nat_le_iff of_nat_numeral of_nat_power)
    then show ?thesis by (rule le_less_trans) simp
  qed
  have "length (format_signed v) \<le> 20 \<and> length (format_unsigned v) \<le> 20" if "LENGTH('a) \<le> 64"
    using push_digits_length [of "unat v" 19 "[]"] push_digits_length [of "unat (0 - v)" 18 "[]"]
      u64 [OF that] s64 [OF that]
    by (auto simp: format_signed_def format_unsigned_def)
  moreover have "parse_int (format_signed v) = sint v"
    using negated_value [of v] nonneg
    by (auto simp: format_signed_def neg push_digits_value parse_int_digits)
  moreover have "parse_int (format_unsigned v) = uint v"
    by (simp add: format_unsigned_def parse_int_digits)
  ultimately show ?thesis by blast
qed

lemma integer_text_reads_back_witness:
  "parse_int (format_signed (- 5 :: 64 word)) = - 5 \<and> length (format_signed (- 5 :: 64 word)) \<le> 20"
  using integer_text_reads_back [of "- 5 :: 64 word"] by simp

text \<open>A piece of text enters the log line whole or not at all: a stream that is not discarding takes a
  piece that leaves at least one character free, and drops any other piece completely, without
  touching what was written before.\<close>

theorem log_piece_whole_or_dropped:
  assumes "fixed_inv (sbuf st)" "length s < 2 ^ 31"
  shows "put_string s st = Inr (if \<not> discard st \<and> length (written_text (sbuf st)) + length s < capacity (sbuf st)
    then st\<lparr>sbuf := (sbuf st)\<lparr>written_text := written_text (sbuf st) @ s\<rparr>\<rparr> else st)"
  using assms by (simp add: put_string_def unless_discarded_def stream_append_def fixed_append_fits)

lemma log_piece_whole_or_dropped_witness:
  "put_string ''abc'' (new_stream\<lparr>sbuf := (new_fixed 6)\<lparr>written_text := ''xyz''\<rparr>\<rparr>) =
     Inr (new_stream\<lparr>sbuf := (new_fixed 6)\<lparr>written_text := ''xyz''\<rparr>\<rparr>)"
  using log_piece_whole_or_dropped [of "new_stream\<lparr>sbuf := (new_fixed 6)\<lparr>written_text := ''xyz''\<rparr>\<rparr>" "''abc''"]
  by (simp add: fixed_inv_def new_fixed_def new_stream_def)

text \<open>The line feed is dropped as well when the line is full.\<close>

lemma full_line_loses_newline:
  "fixed_inv b \<Longrightarrow> capacity b \<le> Suc (length (written_text b)) \<Longrightarrow> fixed_add c b = b"
  by (simp add: fixed_add_def avail_def fixed_inv_def)

text \<open>A piece of 2 GB passes the test because its length turns negative.\<close>

lemma huge_append_overruns:
  assumes "fixed_inv b" "2 ^ 31 \<le> length s" "length s < 2 ^ 32"
  shows "fixed_append s b = Inl OutOfBounds"
proof -
  have "uint (of_nat (length s) :: 32 word) = int (length s)"
    using assms(3) by (simp add: unsigned_of_nat take_bit_nat_eq_self)
  then have "to_int (length s) < 0 \<or> to_int (length s) = int (length s)"
    using sint_cases [of "of_nat (length s) :: 32 word"] unfolding to_int_def by presburger
  moreover have "to_int (length s) < 2 ^ 31" using sint_less [of "of_nat (length s) :: 32 word"]
    by (simp add: to_int_def)
  moreover have "2 ^ 31 \<le> int (length s)"
    using assms(2) by (metis of_nat_le_iff of_nat_numeral of_nat_power)
  ultimately have "to_int (length s) < 0" by linarith
  then show ?thesis using assms by (simp add: fixed_append_def fixed_inv_def avail_def)
qed

text \<open>A floating-point value whose decimal text is longer than 32 characters is read from beyond the
  array that \<open>snprintf\<close> filled: the code appends as many characters as the text would have had.\<close>

theorem long_double_overreads:
  assumes "\<not> discard st" "fixed_inv (sbuf st)" "32 < length text"
    and "length (written_text (sbuf st)) + length text < capacity (sbuf st)"
  shows "put_printed text st = Inl OutOfBounds"
proof -
  have "length text < 2 ^ 31" using assms(2,4) by (simp add: fixed_inv_def)
  then show ?thesis using assms by (simp add: put_printed_def unless_discarded_def avail_def Let_def)
qed

lemma long_double_overreads_witness:
  "put_printed (''1'' @ replicate 30 CHR ''0'' @ ''.000000'') new_stream = Inl OutOfBounds"
  using long_double_overreads [of new_stream "''1'' @ replicate 30 CHR ''0'' @ ''.000000''"]
  by (simp add: new_stream_def new_fixed_def fixed_inv_def kSmallBuffer_def)
text \<open>The loop that fills the array writes the text of the reference conversion.\<close>

lemma push_digits_decimal: "push_digits u acc = decimal u @ acc"
proof (induction u acc rule: push_digits.induct)
  case (1 u acc)
  show ?case
  proof (cases "u div 10 = 0")
    case True
    then have "u < 10" by simp
    then show ?thesis using True by (simp add: push_digits.simps [of u] decimal.simps [of u] Let_def)
  next
    case False
    then have "\<not> u < 10" by simp
    then show ?thesis using 1 [OF refl False] False
      by (simp add: push_digits.simps [of u] decimal.simps [of u] Let_def)
  qed
qed

text \<open>C29: The stream prints every integer as \<open>std::to_string\<close> does: whatever the width and the value, the digits
  pushed backwards into the array are the sign and the decimal text of the value, and streaming the
  value is streaming that text.\<close>

theorem integers_print_as_reference:
  fixes v :: "'a::len word"
  shows "put_signed v st = put_string (int_text (sint v)) st \<and>
    put_unsigned v st = put_string (int_text (uint v)) st"
proof -
  have "nat (sint v) = unat v" if "\<not> sint v < 0"
    using sint_cases [of v] that by simp
  moreover have "nat (- sint v) = unat (0 - v)" if "sint v < 0"
    using negated_value [OF that] by (metis nat_int)
  ultimately show ?thesis
    by (simp add: put_signed_def put_unsigned_def put_string_def format_signed_def format_unsigned_def
        push_digits_decimal int_text_def)
qed

end
