(* ===== verification/Logger.thy ===== *)
theory Logger
  imports Log_Stream
begin

text \<open>
  The log statement (\<open>reactor/Logger.h\<close>, \<open>reactor/Logger.cpp\<close>): the temporary \<open>Logger\<close> object whose
  constructor writes the head of the line and whose destructor hands the line to the output
  function.  \<open>g_output\<close> and \<open>g_flush\<close> are parameters, functions on the state \<open>'o\<close> of the
  destination; the clock, the thread number and \<open>errno\<close> are arguments.
\<close>

section \<open>Levels\<close>

datatype log_level = TRACE | DEBUG | INFO | WARN | ERROR | FATAL

fun level_rank :: "log_level \<Rightarrow> nat" where
  "level_rank TRACE = 0"
| "level_rank DEBUG = 1"
| "level_rank INFO = 2"
| "level_rank WARN = 3"
| "level_rank ERROR = 4"
| "level_rank FATAL = 5"

instantiation log_level :: linorder
begin

definition less_eq_log_level :: "log_level \<Rightarrow> log_level \<Rightarrow> bool" where
  "less_eq_log_level s t \<longleftrightarrow> level_rank s \<le> level_rank t"

definition less_log_level :: "log_level \<Rightarrow> log_level \<Rightarrow> bool" where
  "less_log_level s t \<longleftrightarrow> level_rank s < level_rank t"

instance
proof
  fix s t :: log_level
  show "s \<le> t \<Longrightarrow> t \<le> s \<Longrightarrow> s = t"
    by (cases s; cases t) (simp_all add: less_eq_log_level_def)
qed (auto simp: less_eq_log_level_def less_log_level_def)

end

fun levelString :: "log_level \<Rightarrow> string" where
  "levelString TRACE = ''TRACE''"
| "levelString DEBUG = ''DEBUG''"
| "levelString INFO = ''INFO ''"
| "levelString WARN = ''WARN ''"
| "levelString ERROR = ''ERROR''"
| "levelString FATAL = ''FATAL''"

section \<open>The head of a line\<close>

definition stripPath :: "string \<Rightarrow> string" where
  "stripPath file = rev (takeWhile (\<lambda>c. c \<noteq> CHR ''/'') (rev file))"

text \<open>The fields of \<open>struct tm\<close> that are printed, and \<open>%0<w>d\<close> for a number that is not negative.\<close>

record calendar =
  tm_year :: nat
  tm_mon :: nat
  tm_mday :: nat
  tm_hour :: nat
  tm_min :: nat
  tm_sec :: nat

definition zero_pad :: "nat \<Rightarrow> nat \<Rightarrow> string" where
  "zero_pad w n = (let s = push_digits n [] in replicate (w - length s) CHR ''0'' @ s)"

definition time_text :: "calendar \<Rightarrow> nat \<Rightarrow> string" where
  "time_text tm nsec = zero_pad 4 (tm_year tm + 1900) @ ''-'' @ zero_pad 2 (tm_mon tm + 1) @ ''-'' @
     zero_pad 2 (tm_mday tm) @ '' '' @ zero_pad 2 (tm_hour tm) @ '':'' @ zero_pad 2 (tm_min tm) @ '':'' @
     zero_pad 2 (tm_sec tm) @ ''.'' @ zero_pad 6 (nsec div 1000) @ '' ''"

definition formatTime :: "calendar \<Rightarrow> nat \<Rightarrow> log_stream \<Rightarrow> log_stream res" where
  "formatTime tm nsec = put_cstring (Some (take 63 (time_text tm nsec)))"

text \<open>
  The number of the thread as text, kept in a thread-local pair of the number and its text; the
  pair is looked at with the number that \<open>gettid\<close> returns now.
\<close>

definition new_tid_cache :: "nat \<times> string" where
  "new_tid_cache = (0, [])"

definition tidString :: "nat \<Rightarrow> nat \<times> string \<Rightarrow> string \<times> (nat \<times> string)" where
  "tidString tid cache = (let cache = (if tid \<noteq> fst cache then (tid, decimal tid) else cache) in (snd cache, cache))"

text \<open>What the constructor finds: the clock, the text of the thread number and \<open>errno\<close>.\<close>

record log_env =
  env_tm :: calendar
  env_nsec :: nat
  env_tid :: string
  env_errno :: "32 word"

fun in_turn :: "('a \<Rightarrow> 'a res) list \<Rightarrow> 'a \<Rightarrow> 'a res" where
  "in_turn [] x = Inr x"
| "in_turn (f # fs) x = bind_res (f x) (in_turn fs)"

definition logger_impl :: "log_level \<Rightarrow> log_env \<Rightarrow> string \<Rightarrow> 32 word \<Rightarrow> log_level \<Rightarrow> log_stream res" where
  "logger_impl g_logLevel env file line level =
     bind_res (in_turn ([formatTime (env_tm env) (env_nsec env), put_string (env_tid env), put_char CHR '' '',
        put_cstring (Some (levelString level)), put_char CHR '' '', put_cstring (Some (stripPath file)),
        put_char CHR '':'', put_signed line, put_cstring (Some '' - '')] @
        (if env_errno env \<noteq> 0 \<and> level \<ge> ERROR
         then [put_cstring (Some ''(errno=''), put_signed (env_errno env), put_cstring (Some '') '')] else []))
       new_stream)
     (\<lambda>st. Inr (if g_logLevel > level then st\<lparr>discard := True\<rparr> else st))"

text \<open>The destructor.\<close>

definition logger_end :: "(string \<Rightarrow> 'o \<Rightarrow> 'o res) \<Rightarrow> ('o \<Rightarrow> 'o res) \<Rightarrow> log_level \<Rightarrow> log_stream \<Rightarrow> 'o \<Rightarrow> 'o res" where
  "logger_end g_output g_flush level st out =
     bind_res (if \<not> discard st
        then bind_res (put_char CHR 0x0A st) (\<lambda>st.
             bind_res (g_output (written_text (sbuf st)) out) (\<lambda>out.
             if level \<ge> ERROR then g_flush out else Inr out))
        else Inr out)
     (\<lambda>out. if level = FATAL then Inl Aborted else Inr out)"

text \<open>A whole statement \<open>LOG_<level> << msg\<close>.\<close>

definition log_statement :: "(string \<Rightarrow> 'o \<Rightarrow> 'o res) \<Rightarrow> ('o \<Rightarrow> 'o res) \<Rightarrow> log_level \<Rightarrow> log_env \<Rightarrow>
    string \<Rightarrow> 32 word \<Rightarrow> log_level \<Rightarrow> string \<Rightarrow> 'o \<Rightarrow> 'o res" where
  "log_statement g_output g_flush g_logLevel env file line level msg out =
     bind_res (logger_impl g_logLevel env file line level) (\<lambda>st.
     bind_res (put_string msg st) (\<lambda>st. logger_end g_output g_flush level st out))"

section \<open>Lemmas\<close>

text \<open>The cache is transparent: whatever thread asks, and after a \<open>fork\<close> too, the text is that of its number.\<close>

lemma tidString_decimal:
  assumes "cache = new_tid_cache \<or> snd cache = decimal (fst cache)" "0 < tid"
  shows "fst (tidString tid cache) = decimal tid"
    and "snd (snd (tidString tid cache)) = decimal (fst (snd (tidString tid cache)))"
  using assms by (auto simp: tidString_def new_tid_cache_def)

definition stream_with :: "string \<Rightarrow> log_stream" where
  "stream_with t = \<lparr>sbuf = \<lparr>capacity = 4000, written_text = t\<rparr>, discard = False\<rparr>"

lemma stream_with_sel [simp]:
  "discard (stream_with t) = False" "written_text (sbuf (stream_with t)) = t"
  by (simp_all add: stream_with_def)

lemma stream_with_put:
  "length t + length s < 4000 \<Longrightarrow> stream_append s (stream_with t) = Inr (stream_with (t @ s))"
  by (simp add: stream_append_def stream_with_def fixed_append_fits fixed_inv_def)

lemma stream_with_ops:
  "length t + length s < 4000 \<Longrightarrow> put_string s (stream_with t) = Inr (stream_with (t @ s))"
  "length t + length s < 4000 \<Longrightarrow> put_cstring (Some s) (stream_with t) = Inr (stream_with (t @ s))"
  "length t + length (format_signed v) < 4000 \<Longrightarrow> put_signed v (stream_with t) = Inr (stream_with (t @ format_signed v))"
  by (simp_all add: put_string_def put_cstring_def put_signed_def unless_discarded_def stream_with_put)

lemma stream_with_char: "length t < 3999 \<Longrightarrow> put_char c (stream_with t) = Inr (stream_with (t @ [c]))"
  by (simp add: put_char_def unless_discarded_def) (simp add: stream_with_def fixed_add_def avail_def)

definition log_head :: "log_env \<Rightarrow> string \<Rightarrow> 32 word \<Rightarrow> log_level \<Rightarrow> string" where
  "log_head env file line level = take 63 (time_text (env_tm env) (env_nsec env)) @ env_tid env @ '' '' @
     levelString level @ '' '' @ stripPath file @ '':'' @ format_signed line @ '' - '' @
     (if env_errno env \<noteq> 0 \<and> level \<ge> ERROR then ''(errno='' @ format_signed (env_errno env) @ '') '' else '''')"

lemma length_levelString [simp]: "length (levelString level) = 5"
  by (cases level) simp_all

lemma logger_impl_text:
  assumes "length (log_head env file line level) < 3990"
  shows "logger_impl g env file line level =
    Inr ((stream_with (log_head env file line level))\<lparr>discard := g > level\<rparr>)"
proof -
  have new: "new_stream = stream_with []"
    by (simp add: new_stream_def stream_with_def new_fixed_def kSmallBuffer_def)
  have same: "(stream_with t)\<lparr>discard := False\<rparr> = stream_with t" for t by (simp add: stream_with_def)
  show ?thesis using assms unfolding logger_impl_def new
    by (cases "env_errno env \<noteq> 0 \<and> level \<ge> ERROR"; cases "g > level")
      (auto simp: log_head_def formatTime_def stream_with_ops stream_with_char same)
qed

text \<open>The whole statement, by cases on the threshold.\<close>

lemma log_statement_cases:
  assumes "length (log_head env file line level) + length msg < 3990"
  shows "log_statement g_output g_flush g_logLevel env file line level msg out =
    bind_res (if level < g_logLevel then Inr out
       else bind_res (g_output (log_head env file line level @ msg @ [CHR 0x0A]) out)
         (\<lambda>out. if level \<ge> ERROR then g_flush out else Inr out))
     (\<lambda>out. if level = FATAL then Inl Aborted else Inr out)"
proof (cases "level < g_logLevel")
  case True
  let ?st = "(stream_with (log_head env file line level))\<lparr>discard := True\<rparr>"
  have "put_string msg ?st = Inr ?st" by (simp add: put_string_def unless_discarded_def)
  then show ?thesis using True assms
    by (simp add: log_statement_def logger_impl_text logger_end_def)
next
  case False
  have same: "(stream_with t)\<lparr>discard := False\<rparr> = stream_with t" for t by (simp add: stream_with_def)
  show ?thesis using False assms
    by (simp add: same log_statement_def logger_impl_text logger_end_def stream_with_ops stream_with_char)
qed

section \<open>Properties\<close>

text \<open>C30: What a log statement does: below the threshold it writes nothing; otherwise the output function is
  called once, with the head (time, thread, level, file without its path, line, and \<open>errno\<close> for
  errors), the message and a line feed, and after it the flush function for errors; a fatal
  statement then aborts the process.\<close>

theorem log_statement_effect:
  assumes "length (log_head env file line level) + length msg < 3990"
  shows "log_statement g_output g_flush g_logLevel env file line level msg out =
    bind_res (if level < g_logLevel then Inr out
       else bind_res (g_output (log_head env file line level @ msg @ [CHR 0x0A]) out)
         (\<lambda>out. if level \<ge> ERROR then g_flush out else Inr out))
     (\<lambda>out. if level = FATAL then Inl Aborted else Inr out)"
  using assms by (rule log_statement_cases)

definition noon :: log_env where
  "noon = \<lparr>env_tm = \<lparr>tm_year = 126, tm_mon = 7, tm_mday = 11, tm_hour = 12, tm_min = 0, tm_sec = 5\<rparr>,
     env_nsec = 123456789, env_tid = ''77'', env_errno = 0\<rparr>"

lemma noon_head: "log_head noon ''src/Server.cpp'' 42 INFO =
    ''2026-08-11 12:00:05.123456 77 INFO  Server.cpp:42 - ''"
  by (simp add: log_head_def noon_def time_text_def zero_pad_def push_digits.simps stripPath_def
      format_signed_def)

lemma log_statement_effect_witness:
  "log_statement (\<lambda>s out. Inr (out @ s)) Inr INFO noon ''src/Server.cpp'' 42 INFO ''up'' [] =
     Inr (''2026-08-11 12:00:05.123456 77 INFO  Server.cpp:42 - up'' @ [CHR 0x0A])"
  using log_statement_effect [of noon "''src/Server.cpp''" 42 INFO "''up''"
      "\<lambda>s out. Inr (out @ s)" Inr INFO "[]"]
  by (simp add: noon_head less_log_level_def less_eq_log_level_def)

end
