(* ===== verification/Async_Logging.thy ===== *)
theory Async_Logging
  imports Logger
begin

text \<open>
  The asynchronous back end of the log (\<open>reactor/AsyncLogging.h\<close>, \<open>reactor/AsyncLogging.cpp\<close>): the
  buffers that the front end fills under the mutex, and the thread that takes them, writes them
  and hands two of them back.  A \<open>BufferPtr\<close> is an option, \<open>None\<close> the null pointer.

  The file system is a parameter: \<open>fw text\<close> is the count that \<open>fwrite\<close> returns and \<open>fo n\<close> says
  whether the \<open>n\<close>-th \<open>fopen\<close> succeeds.  \<open>disk\<close> is what all log files hold together, in the
  order of writing.
\<close>

section \<open>State\<close>

type_synonym buffer_ptr = "fixed_buffer option"

datatype backend_pc = NoThread | LoopTop | Writing | Ended

text \<open>\<open>taken\<close> is the local vector \<open>buffersToWrite\<close>, \<open>spare1\<close> and \<open>spare2\<close> are \<open>newBuffer1/2\<close>.\<close>

record async =
  running :: bool
  current :: buffer_ptr
  next_buf :: buffer_ptr
  full :: "buffer_ptr list"
  taken :: "buffer_ptr list"
  spare1 :: buffer_ptr
  spare2 :: buffer_ptr
  backend :: backend_pc
  file_open :: bool
  opens :: nat
  disk :: string
  writtenBytes :: int
  rollSize :: int

definition kLargeBuffer :: nat where
  "kLargeBuffer = 4 * 1024 * 1024"

definition kMaxBuffers :: nat where
  "kMaxBuffers = 25"

definition large_buffer :: buffer_ptr where
  "large_buffer = Some (new_fixed kLargeBuffer)"

definition new_async :: "int \<Rightarrow> async" where
  "new_async roll = \<lparr>running = False, current = large_buffer, next_buf = large_buffer, full = [],
     taken = [], spare1 = None, spare2 = None, backend = NoThread, file_open = False, opens = 0,
     disk = [], writtenBytes = 0, rollSize = roll\<rparr>"

section \<open>Operations\<close>

definition ptr_append :: "string \<Rightarrow> buffer_ptr \<Rightarrow> buffer_ptr res" where
  "ptr_append msg p = (case p of None \<Rightarrow> Inl NullDeref
     | Some b \<Rightarrow> bind_res (fixed_append msg b) (\<lambda>b. Inr (Some b)))"

definition async_append :: "string \<Rightarrow> async \<Rightarrow> async res" where
  "async_append msg s = (case current s of None \<Rightarrow> Inl NullDeref
     | Some b \<Rightarrow>
         if avail b > int (length msg)
         then bind_res (ptr_append msg (current s)) (\<lambda>p. Inr (s\<lparr>current := p\<rparr>))
         else (let s = s\<lparr>full := full s @ [current s], current := None\<rparr>;
                   s = (case next_buf s of
                       Some n \<Rightarrow> s\<lparr>current := Some n, next_buf := None\<rparr>
                     | None \<Rightarrow> s\<lparr>current := large_buffer\<rparr>)
               in bind_res (ptr_append msg (current s)) (\<lambda>p. Inr (s\<lparr>current := p\<rparr>))))"

definition openFile :: "(nat \<Rightarrow> bool) \<Rightarrow> async \<Rightarrow> async" where
  "openFile fo s = s\<lparr>file_open := fo (opens s), opens := Suc (opens s), writtenBytes := 0\<rparr>"

definition writeToFile :: "(string \<Rightarrow> nat) \<Rightarrow> (nat \<Rightarrow> bool) \<Rightarrow> string \<Rightarrow> async \<Rightarrow> async" where
  "writeToFile fw fo data s =
     (if \<not> file_open s then s
      else let written = fw data;
               s = s\<lparr>disk := disk s @ take written data, writtenBytes := writtenBytes s + int written\<rparr>
           in if writtenBytes s > rollSize s then openFile fo (s\<lparr>file_open := False\<rparr>) else s)"

definition start_log :: "(nat \<Rightarrow> bool) \<Rightarrow> async \<Rightarrow> async res" where
  "start_log fo s = (let s = openFile fo (s\<lparr>running := True\<rparr>)
     in if backend s \<noteq> NoThread then Inl StdTerminate
        else Inr (s\<lparr>backend := LoopTop, spare1 := large_buffer, spare2 := large_buffer, taken := []\<rparr>))"

text \<open>\<open>stop()\<close> clears the flag and notifies; it returns when the thread has ended and was joined.\<close>

definition stop_request :: "async \<Rightarrow> async" where
  "stop_request s = s\<lparr>running := False\<rparr>"

definition stop_join :: "async \<Rightarrow> async" where
  "stop_join s = s\<lparr>backend := NoThread\<rparr>"

text \<open>\<open>flush()\<close> only notifies the back end.\<close>

definition flush_log :: "async \<Rightarrow> async" where
  "flush_log s = s"

text \<open>One round of the thread: the exchange of buffers under the mutex, then the rest without it.\<close>

definition take_batch :: "async \<Rightarrow> async" where
  "take_batch s = (let s = s\<lparr>full := full s @ [current s], current := spare1 s, spare1 := None\<rparr>;
       s = s\<lparr>full := taken s, taken := full s\<rparr>
     in if next_buf s = None then s\<lparr>next_buf := spare2 s, spare2 := None\<rparr> else s)"

definition drop_old :: "async \<Rightarrow> async" where
  "drop_old s = (if length (taken s) > kMaxBuffers
     then s\<lparr>taken := drop (length (taken s) - 2) (taken s)\<rparr> else s)"

fun write_all :: "(string \<Rightarrow> nat) \<Rightarrow> (nat \<Rightarrow> bool) \<Rightarrow> buffer_ptr list \<Rightarrow> async \<Rightarrow> async res" where
  "write_all fw fo [] s = Inr s"
| "write_all fw fo (None # ps) s = Inl NullDeref"
| "write_all fw fo (Some b # ps) s = write_all fw fo ps (writeToFile fw fo (written_text b) s)"

definition reset_ptr :: "buffer_ptr \<Rightarrow> buffer_ptr res" where
  "reset_ptr p = (case p of None \<Rightarrow> Inl NullDeref | Some b \<Rightarrow> Inr (Some (fixed_reset b)))"

definition return_buffers :: "async \<Rightarrow> async res" where
  "return_buffers s =
     (if taken s = [] then Inl OutOfBounds
      else bind_res (reset_ptr (last (taken s))) (\<lambda>p.
        let s = s\<lparr>spare1 := p, taken := butlast (taken s)\<rparr> in
        if taken s \<noteq> []
        then bind_res (reset_ptr (last (taken s))) (\<lambda>q.
          Inr (s\<lparr>spare2 := q, taken := butlast (taken s)\<rparr>))
        else Inr (s\<lparr>spare2 := large_buffer\<rparr>)))"

definition write_batch :: "(string \<Rightarrow> nat) \<Rightarrow> (nat \<Rightarrow> bool) \<Rightarrow> async \<Rightarrow> async res" where
  "write_batch fw fo s = (let s = drop_old s in
     bind_res (write_all fw fo (taken s) s) return_buffers)"

text \<open>The end of the thread: the rest is written and the file closed.\<close>

definition final_drain :: "(string \<Rightarrow> nat) \<Rightarrow> (nat \<Rightarrow> bool) \<Rightarrow> async \<Rightarrow> async res" where
  "final_drain fw fo s = (let s = s\<lparr>full := full s @ [current s], current := None\<rparr>;
       s = s\<lparr>full := taken s, taken := full s\<rparr>
     in bind_res (write_all fw fo (taken s) s) (\<lambda>s. Inr (s\<lparr>file_open := False\<rparr>)))"

section \<open>Runs\<close>

text \<open>
  \<open>Append\<close> and \<open>StopRequest\<close> come from any thread, the other steps are those of the back end, in
  the order of its program counter.
\<close>

datatype async_op = AppendMsg string | StopRequest | TakeBatch | WriteBatch | FinalDrain

fun async_exec :: "(string \<Rightarrow> nat) \<Rightarrow> (nat \<Rightarrow> bool) \<Rightarrow> async_op \<Rightarrow> async \<Rightarrow> async res" where
  "async_exec fw fo (AppendMsg msg) s = async_append msg s"
| "async_exec fw fo StopRequest s = Inr (stop_request s)"
| "async_exec fw fo TakeBatch s = Inr ((take_batch s)\<lparr>backend := Writing\<rparr>)"
| "async_exec fw fo WriteBatch s = bind_res (write_batch fw fo s) (\<lambda>s. Inr (s\<lparr>backend := LoopTop\<rparr>))"
| "async_exec fw fo FinalDrain s =
     bind_res (final_drain fw fo s) (\<lambda>s. Inr (s\<lparr>backend := Ended, taken := []\<rparr>))"

text \<open>
  When a step is possible.  The condition on \<open>TakeBatch\<close> is more than the code asks for: at most
  one full buffer waits, so that a batch has at most two.
\<close>

fun async_ok :: "async_op \<Rightarrow> async \<Rightarrow> bool" where
  "async_ok (AppendMsg msg) s = (length msg < 2 ^ 31 \<and> backend s \<noteq> Ended)"
| "async_ok StopRequest s = True"
| "async_ok TakeBatch s = (backend s = LoopTop \<and> running s \<and> length (full s) \<le> 1)"
| "async_ok WriteBatch s = (backend s = Writing)"
| "async_ok FinalDrain s = (backend s = LoopTop \<and> \<not> running s)"

section \<open>Invariant and abstraction\<close>

definition disk_law :: "(string \<Rightarrow> nat) \<Rightarrow> (nat \<Rightarrow> bool) \<Rightarrow> bool" where
  "disk_law fw fo \<longleftrightarrow> (\<forall>s. fw s = length s) \<and> (\<forall>n. fo n)"

definition good_ptr :: "buffer_ptr \<Rightarrow> bool" where
  "good_ptr p \<longleftrightarrow> (\<exists>t. p = Some \<lparr>capacity = kLargeBuffer, written_text = t\<rparr> \<and> length t \<le> kLargeBuffer)"

definition text_of :: "buffer_ptr \<Rightarrow> string" where
  "text_of p = (case p of None \<Rightarrow> [] | Some b \<Rightarrow> written_text b)"

definition texts :: "buffer_ptr list \<Rightarrow> string" where
  "texts ps = concat (map text_of ps)"

definition async_inv :: "async \<Rightarrow> bool" where
  "async_inv s \<longleftrightarrow> list_all good_ptr (full s) \<and>
     (next_buf s = None \<or> next_buf s = large_buffer) \<and>
     (case backend s of
        LoopTop \<Rightarrow> good_ptr (current s) \<and> taken s = [] \<and> spare1 s = large_buffer \<and>
          spare2 s = large_buffer \<and> file_open s
      | Writing \<Rightarrow> good_ptr (current s) \<and> list_all good_ptr (taken s) \<and> taken s \<noteq> [] \<and>
          length (taken s) \<le> 2 \<and> file_open s
      | Ended \<Rightarrow> current s = None \<and> full s = [] \<and> taken s = []
      | NoThread \<Rightarrow> False)"

text \<open>All the text the log holds: on disk, in the batch, in the queue, in the current buffer.\<close>

definition log_text :: "async \<Rightarrow> string" where
  "log_text s = disk s @ texts (taken s) @ texts (full s) @ text_of (current s)"

fun log_spec :: "async_op \<Rightarrow> string \<Rightarrow> string" where
  "log_spec (AppendMsg msg) t = t @ (if length msg < kLargeBuffer then msg else [])"
| "log_spec op t = t"

lemma texts_simps [simp]:
  "texts [] = []" "texts (p # ps) = text_of p @ texts ps" "texts (ps @ qs) = texts ps @ texts qs"
  by (simp_all add: texts_def)

lemma large_buffer_good [simp]: "good_ptr large_buffer" "text_of large_buffer = []"
  "large_buffer \<noteq> None"
  by (simp_all add: good_ptr_def large_buffer_def new_fixed_def text_of_def)

lemma text_of_simps [simp]: "text_of None = []" "text_of (Some b) = written_text b"
  by (simp_all add: text_of_def)

lemma kLarge_small: "kLargeBuffer < 2 ^ 31"
  by (simp add: kLargeBuffer_def)

lemma ptr_append_good:
  assumes "good_ptr p" "length msg < 2 ^ 31"
  obtains p' where "ptr_append msg p = Inr p'" "good_ptr p'"
    "text_of p' = text_of p @ (if length (text_of p) + length msg < kLargeBuffer then msg else [])"
proof -
  obtain t where t: "p = Some \<lparr>capacity = kLargeBuffer, written_text = t\<rparr>" "length t \<le> kLargeBuffer"
    using assms(1) by (auto simp: good_ptr_def)
  have "fixed_inv \<lparr>capacity = kLargeBuffer, written_text = t\<rparr>"
    using t(2) kLarge_small by (simp add: fixed_inv_def)
  from fixed_append_fits [OF this assms(2)] t show thesis
    by (intro that [of "Some \<lparr>capacity = kLargeBuffer,
        written_text = t @ (if length t + length msg < kLargeBuffer then msg else [])\<rparr>"])
      (simp_all add: ptr_append_def good_ptr_def)
qed

lemma writeToFile_good:
  "disk_law fw fo \<Longrightarrow> file_open s \<Longrightarrow> \<exists>n wb.
     writeToFile fw fo data s = s\<lparr>disk := disk s @ data, writtenBytes := wb, opens := n\<rparr>"
proof -
  assume law: "disk_law fw fo" and op: "file_open s"
  show ?thesis
  proof (cases "writtenBytes s + int (length data) > rollSize s")
    case True
    then have "writeToFile fw fo data s = s\<lparr>disk := disk s @ data, writtenBytes := 0, opens := Suc (opens s)\<rparr>"
      using law op by (cases s) (simp add: writeToFile_def openFile_def disk_law_def Let_def)
    then show ?thesis by blast
  next
    case False
    then have "writeToFile fw fo data s =
        s\<lparr>disk := disk s @ data, writtenBytes := writtenBytes s + int (length data), opens := opens s\<rparr>"
      using law op by (cases s) (simp add: writeToFile_def disk_law_def Let_def)
    then show ?thesis by blast
  qed
qed

lemma write_all_good:
  assumes law: "disk_law fw fo"
  shows "list_all good_ptr ps \<Longrightarrow> file_open s \<Longrightarrow> \<exists>n wb.
    write_all fw fo ps s = Inr (s\<lparr>disk := disk s @ texts ps, writtenBytes := wb, opens := n\<rparr>)"
proof (induction ps arbitrary: s)
  case Nil
  have "s\<lparr>disk := disk s, writtenBytes := writtenBytes s, opens := opens s\<rparr> = s" by simp
  then show ?case by (metis append_Nil2 texts_simps(1) write_all.simps(1))
next
  case (Cons p ps)
  then obtain b where b: "p = Some b" by (auto simp: good_ptr_def)
  obtain n wb where w: "writeToFile fw fo (written_text b) s =
      s\<lparr>disk := disk s @ written_text b, writtenBytes := wb, opens := n\<rparr>"
    using writeToFile_good [OF law Cons.prems(2)] by blast
  let ?s = "s\<lparr>disk := disk s @ written_text b, writtenBytes := wb, opens := n\<rparr>"
  obtain n' wb' where "write_all fw fo ps ?s =
      Inr (?s\<lparr>disk := disk ?s @ texts ps, writtenBytes := wb', opens := n'\<rparr>)"
    using Cons.IH [of ?s] Cons.prems by auto
  then have "write_all fw fo (p # ps) s =
      Inr (s\<lparr>disk := disk s @ texts (p # ps), writtenBytes := wb', opens := n'\<rparr>)"
    using b w by simp
  then show ?case by blast
qed

lemma reset_good: "good_ptr p \<Longrightarrow> reset_ptr p = Inr large_buffer"
  by (auto simp: good_ptr_def reset_ptr_def fixed_reset_def large_buffer_def new_fixed_def)

lemma async_append_good:
  assumes inv: "async_inv s" and ok: "async_ok (AppendMsg msg) s"
  shows "\<exists>s'. async_append msg s = Inr s' \<and> async_inv s' \<and> log_text s' = log_spec (AppendMsg msg) (log_text s)"
proof -
  have good: "good_ptr (current s)" using inv ok
    by (cases "backend s") (simp_all add: async_inv_def)
  then obtain t where t: "current s = Some \<lparr>capacity = kLargeBuffer, written_text = t\<rparr>" "length t \<le> kLargeBuffer"
    by (auto simp: good_ptr_def)
  have len: "length msg < 2 ^ 31" using ok by simp
  show ?thesis
  proof (cases "length t + length msg < kLargeBuffer")
    case True
    obtain p where p: "ptr_append msg (current s) = Inr p" "good_ptr p" "text_of p = t @ msg"
      using ptr_append_good [OF good len] t True by (metis fixed_buffer.select_convs(2) text_of_simps(2))
    then have "async_append msg s = Inr (s\<lparr>current := p\<rparr>)"
      using t True by (simp add: async_append_def avail_def)
    with p t True inv ok show ?thesis
      by (cases "backend s") (simp_all add: async_inv_def log_text_def)
  next
    case False
    obtain p where p: "ptr_append msg large_buffer = Inr p" "good_ptr p"
      "text_of p = (if length msg < kLargeBuffer then msg else [])"
      using ptr_append_good [of large_buffer msg] len by auto
    have "async_append msg s = Inr (s\<lparr>full := full s @ [current s], current := p, next_buf := None\<rparr>)"
      using t False p inv
      by (auto simp: async_append_def avail_def async_inv_def large_buffer_def Let_def split: option.splits)
    with p t good inv ok show ?thesis
      by (cases "backend s") (simp_all add: async_inv_def log_text_def)
  qed
qed

lemma take_batch_good:
  assumes inv: "async_inv s" and ok: "async_ok TakeBatch s"
  shows "async_inv ((take_batch s)\<lparr>backend := Writing\<rparr>)" "log_text ((take_batch s)\<lparr>backend := Writing\<rparr>) = log_text s"
  using inv ok by (auto simp: async_inv_def take_batch_def log_text_def Let_def)

lemma return_buffers_good:
  assumes "list_all good_ptr (taken s)" "taken s \<noteq> []" "length (taken s) \<le> 2"
  shows "return_buffers s = Inr (s\<lparr>spare1 := large_buffer, spare2 := large_buffer, taken := []\<rparr>)"
proof -
  consider p where "taken s = [p]" "good_ptr p" | p q where "taken s = [p, q]" "good_ptr p" "good_ptr q"
    using assms by (cases "taken s" rule: remdups_adj.cases) auto
  then show ?thesis by cases (simp_all add: return_buffers_def reset_good Let_def)
qed

lemma write_batch_good:
  assumes law: "disk_law fw fo" and inv: "async_inv s" and ok: "backend s = Writing"
  shows "\<exists>s'. write_batch fw fo s = Inr s' \<and> async_inv (s'\<lparr>backend := LoopTop\<rparr>) \<and>
    log_text (s'\<lparr>backend := LoopTop\<rparr>) = log_text s"
proof -
  have s: "list_all good_ptr (taken s)" "taken s \<noteq> []" "length (taken s) \<le> 2" "file_open s"
    using inv ok by (simp_all add: async_inv_def)
  have "drop_old s = s" using s(3) by (simp add: drop_old_def kMaxBuffers_def)
  moreover obtain n wb where w: "write_all fw fo (taken s) s =
      Inr (s\<lparr>disk := disk s @ texts (taken s), writtenBytes := wb, opens := n\<rparr>)"
    using write_all_good [OF law s(1,4)] by blast
  let ?s = "s\<lparr>disk := disk s @ texts (taken s), writtenBytes := wb, opens := n\<rparr>"
  have "return_buffers ?s = Inr (?s\<lparr>spare1 := large_buffer, spare2 := large_buffer, taken := []\<rparr>)"
    using s by (intro return_buffers_good) simp_all
  ultimately have "write_batch fw fo s = Inr (?s\<lparr>spare1 := large_buffer, spare2 := large_buffer, taken := []\<rparr>)"
    using w by (simp add: write_batch_def Let_def)
  then show ?thesis using inv ok by (simp add: async_inv_def log_text_def)
qed

lemma final_drain_good:
  assumes law: "disk_law fw fo" and inv: "async_inv s" and ok: "async_ok FinalDrain s"
  shows "\<exists>s'. final_drain fw fo s = Inr s' \<and> async_inv (s'\<lparr>backend := Ended, taken := []\<rparr>) \<and>
    log_text (s'\<lparr>backend := Ended, taken := []\<rparr>) = log_text s"
proof -
  let ?s = "s\<lparr>current := None, full := [], taken := full s @ [current s]\<rparr>"
  have "list_all good_ptr (taken ?s)" "file_open ?s" "taken s = []" using inv ok by (simp_all add: async_inv_def)
  moreover from this obtain n wb where "write_all fw fo (taken ?s) ?s =
      Inr (?s\<lparr>disk := disk ?s @ texts (taken ?s), writtenBytes := wb, opens := n\<rparr>)"
    using write_all_good [OF law] by blast
  ultimately show ?thesis using inv ok by (simp add: final_drain_def async_inv_def log_text_def Let_def)
qed

lemma async_exec_good:
  assumes "disk_law fw fo" "async_inv s" "async_ok op s"
  shows "\<exists>s'. async_exec fw fo op s = Inr s' \<and> async_inv s' \<and> log_text s' = log_spec op (log_text s)"
proof (cases op)
  case (AppendMsg msg)
  then show ?thesis using async_append_good [OF assms(2), of msg] assms(3) by simp
next
  case StopRequest
  then show ?thesis using assms
    by (cases "backend s") (simp_all add: stop_request_def async_inv_def log_text_def)
next
  case TakeBatch
  then show ?thesis using take_batch_good [OF assms(2)] assms(3) by simp
next
  case WriteBatch
  then show ?thesis using write_batch_good [OF assms(1,2)] assms(3) by auto
next
  case FinalDrain
  then show ?thesis using final_drain_good [OF assms(1,2)] assms(3) by auto
qed

interpretation async_machine:
  op_machine "async_exec fw fo" "\<lambda>s. disk_law fw fo \<and> async_inv s" async_ok log_text log_spec for fw fo
proof unfold_locales
  show "\<exists>s'. async_exec fw fo op s = Inr s' \<and> disk_law fw fo \<and> async_inv s'"
    if "disk_law fw fo \<and> async_inv s" "async_ok op s" for s op
    using async_exec_good [of fw fo s op] that by blast
  show "log_text s' = log_spec op (log_text s)"
    if "disk_law fw fo \<and> async_inv s" "async_ok op s" "async_exec fw fo op s = Inr s'" for s op s'
    using async_exec_good [of fw fo s op] that by auto
qed

lemma async_start:
  assumes "disk_law fw fo"
  shows "\<exists>s. start_log fo (new_async roll) = Inr s \<and> async_inv s \<and> log_text s = [] \<and> running s"
  using assms by (simp add: start_log_def new_async_def openFile_def disk_law_def async_inv_def log_text_def Let_def)

fun appended :: "async_op list \<Rightarrow> string" where
  "appended [] = []"
| "appended (AppendMsg msg # ops) = (if length msg < kLargeBuffer then msg else []) @ appended ops"
| "appended (op # ops) = appended ops"

lemma fold_log_spec: "fold log_spec ops t = t @ appended ops"
  by (induction ops arbitrary: t rule: appended.induct) simp_all

text \<open>One round of the back end on a batch of any size up to the limit.\<close>

lemma return_buffers_any:
  "list_all good_ptr ps \<Longrightarrow> taken s = ps \<Longrightarrow> ps \<noteq> [] \<Longrightarrow>
   return_buffers s = Inr (s\<lparr>spare1 := large_buffer, spare2 := large_buffer, taken := take (length ps - 2) ps\<rparr>)"
proof -
  assume good: "list_all good_ptr ps" and taken: "taken s = ps" and ne: "ps \<noteq> []"
  have last1: "good_ptr (last ps)" using good ne by (simp add: list_all_iff)
  have last2: "butlast ps \<noteq> [] \<Longrightarrow> good_ptr (last (butlast ps))"
    using good by (metis in_set_butlastD last_in_set list_all_iff)
  have "butlast (butlast ps) = take (length ps - 2) ps" by (simp add: butlast_conv_take numeral_2_eq_2)
  moreover have "butlast ps = [] \<Longrightarrow> take (length ps - 2) ps = []"
    using ne by (cases ps) (auto split: if_splits)
  ultimately show ?thesis using taken ne last1 last2
    by (auto simp: return_buffers_def reset_good Let_def)
qed

lemma async_round:
  assumes law: "disk_law fw fo" and "file_open s" "list_all good_ptr (full s @ [current s])"
    and "length (full s) < kMaxBuffers"
  shows "\<exists>n wb. run_ops (async_exec fw fo) [TakeBatch, WriteBatch] s = Inr (s\<lparr>full := taken s, current := spare1 s,
    taken := take (length (full s) - 1) (full s), spare1 := large_buffer, spare2 := large_buffer,
    next_buf := (if next_buf s = None then spare2 s else next_buf s), backend := LoopTop,
    disk := disk s @ texts (full s) @ text_of (current s), writtenBytes := wb, opens := n\<rparr>)"
proof -
  let ?ps = "full s @ [current s]"
  define t where "t = (take_batch s)\<lparr>backend := Writing\<rparr>"
  have t: "taken t = ?ps" "file_open t" "drop_old t = t"
    using assms(2,4) by (simp_all add: t_def take_batch_def Let_def drop_old_def)
  obtain n wb where w: "write_all fw fo ?ps t = Inr (t\<lparr>disk := disk t @ texts ?ps, writtenBytes := wb, opens := n\<rparr>)"
    using write_all_good [OF law assms(3) t(2)] by blast
  let ?u = "t\<lparr>disk := disk t @ texts ?ps, writtenBytes := wb, opens := n\<rparr>"
  have "return_buffers ?u = Inr (?u\<lparr>spare1 := large_buffer, spare2 := large_buffer, taken := take (length ?ps - 2) ?ps\<rparr>)"
    using assms(3) t(1) by (intro return_buffers_any) simp_all
  then have "run_ops (async_exec fw fo) [TakeBatch, WriteBatch] s =
      Inr (?u\<lparr>spare1 := large_buffer, spare2 := large_buffer, taken := take (length ?ps - 2) ?ps, backend := LoopTop\<rparr>)"
    using w t by (simp add: write_batch_def Let_def flip: t_def)
  moreover have "take (length ?ps - 2) ?ps = take (length (full s) - 1) (full s)" by simp
  ultimately show ?thesis
    by (intro exI [of _ n] exI [of _ wb]) (simp add: t_def take_batch_def Let_def)
qed

section \<open>Properties\<close>


definition full_write :: "string \<Rightarrow> nat" where "full_write = length"
definition always_opens :: "nat \<Rightarrow> bool" where "always_opens = (\<lambda>n. True)"

lemma good_disk: "disk_law full_write always_opens"
  by (simp add: disk_law_def full_write_def always_opens_def)

definition demo_log :: "async_op list" where
  "demo_log = [AppendMsg ''a'', TakeBatch, AppendMsg ''b'', WriteBatch, StopRequest, AppendMsg ''c'', FinalDrain]"

lemmas async_eval = async_append_def ptr_append_def take_batch_def write_batch_def drop_old_def
  return_buffers_def reset_ptr_def final_drain_def writeToFile_def openFile_def stop_request_def
  large_buffer_def new_fixed_def fixed_append_def fixed_reset_def avail_def Let_def full_write_def
  always_opens_def kMaxBuffers_def kLargeBuffer_def


text \<open>C34: A batch of three is written twice.  The back end hands two buffers back and leaves the others
  in its vector; the next exchange puts them in front of the queue with their old content, and
  two rounds later, with no new message, the first buffer is on disk a second time.\<close>

theorem third_buffer_written_twice:
  assumes law: "disk_law fw fo" and inv: "async_inv s" and "backend s = LoopTop"
    and "full s = [p, q]"
  shows "\<exists>s'. run_ops (async_exec fw fo) [TakeBatch, WriteBatch, TakeBatch, WriteBatch, TakeBatch, WriteBatch] s = Inr s' \<and>
    disk s' = disk s @ text_of p @ text_of q @ text_of (current s) @ text_of p"
proof -
  have s: "file_open s" "list_all good_ptr (full s @ [current s])" "good_ptr p"
    "spare1 s = large_buffer" "taken s = []"
    using inv assms(3,4) by (simp_all add: async_inv_def)
  obtain s1 where s1: "run_ops (async_exec fw fo) [TakeBatch, WriteBatch] s = Inr s1"
    "file_open s1" "full s1 = []" "current s1 = large_buffer" "taken s1 = [p]" "spare1 s1 = large_buffer"
    "disk s1 = disk s @ text_of p @ text_of q @ text_of (current s)"
    using async_round [OF law s(1,2)] assms(4) s by (auto simp: kMaxBuffers_def)
  have "list_all good_ptr (full s1 @ [current s1])" "length (full s1) < kMaxBuffers"
    using s1 by (simp_all add: kMaxBuffers_def)
  then obtain s2 where s2: "run_ops (async_exec fw fo) [TakeBatch, WriteBatch] s1 = Inr s2"
    "file_open s2" "full s2 = [p]" "current s2 = large_buffer" "disk s2 = disk s1"
    using async_round [OF law s1(2)] s1 by auto
  have "list_all good_ptr (full s2 @ [current s2])" "length (full s2) < kMaxBuffers"
    using s2 s(3) by (simp_all add: kMaxBuffers_def)
  then obtain s3 where s3: "run_ops (async_exec fw fo) [TakeBatch, WriteBatch] s2 = Inr s3"
    "disk s3 = disk s2 @ text_of p"
    using async_round [OF law s2(2)] s2 by auto
  have "run_ops (async_exec fw fo) ([TakeBatch, WriteBatch] @ [TakeBatch, WriteBatch] @ [TakeBatch, WriteBatch]) s = Inr s3"
    unfolding run_ops_append s1(1) by (simp only: bind_res_simps run_ops_append s2(1) s3(1))
  then show ?thesis using s3(2) s2(5) s1(7) by auto
qed

definition line_buffer :: "string \<Rightarrow> buffer_ptr" where
  "line_buffer t = Some \<lparr>capacity = kLargeBuffer, written_text = t\<rparr>"

definition busy_log :: async where
  "busy_log = (new_async 1000)\<lparr>running := True, backend := LoopTop, file_open := True,
     spare1 := large_buffer, spare2 := large_buffer, full := [line_buffer ''a'', line_buffer ''b''],
     current := line_buffer ''c'', next_buf := None\<rparr>"

lemma busy_log_inv: "async_inv busy_log"
  by (simp add: busy_log_def async_inv_def line_buffer_def good_ptr_def kLargeBuffer_def new_async_def)

lemma third_buffer_written_twice_witness:
  "\<exists>s'. run_ops (async_exec full_write always_opens)
     [TakeBatch, WriteBatch, TakeBatch, WriteBatch, TakeBatch, WriteBatch] busy_log = Inr s' \<and> disk s' = ''abca''"
  using third_buffer_written_twice [OF good_disk busy_log_inv, of "line_buffer ''a''" "line_buffer ''b''"]
  by (simp add: busy_log_def line_buffer_def new_async_def)

text \<open>The end of the back end leaves no current buffer: a message appended after \<open>stop()\<close> goes through
  a null pointer.\<close>

theorem append_after_stop_faults:
  assumes "disk_law fw fo" "async_inv s" "backend s = LoopTop" "\<not> running s"
  shows "\<exists>s'. async_exec fw fo FinalDrain s = Inr s' \<and> async_append msg (stop_join s') = Inl NullDeref"
proof -
  obtain s' where s': "async_exec fw fo FinalDrain s = Inr s'" "async_inv s'"
    using async_exec_good [of fw fo s FinalDrain] assms by auto
  then have "backend s' = Ended" by (auto simp: bind_res_eq_Inr)
  with s'(2) have "current s' = None" by (simp add: async_inv_def)
  with s'(1) show ?thesis by (simp add: async_append_def stop_join_def)
qed

lemma append_after_stop_faults_witness:
  "\<exists>s'. async_exec full_write always_opens FinalDrain (stop_request busy_log) = Inr s' \<and>
     async_append ''late'' (stop_join s') = Inl NullDeref"
proof (rule append_after_stop_faults [OF good_disk])
  show "async_inv (stop_request busy_log)"
    using async_exec_good [OF good_disk busy_log_inv, of StopRequest] by simp
qed (simp_all add: stop_request_def busy_log_def)



end
