(* ===== verification/Echo_Server.thy ===== *)
theory Echo_Server
  imports Tcp_Connection
begin

text \<open>
  The echo server that the benchmark runs on the library (\<open>reactor/bench_server.cpp\<close>): its message
  callback on a connection of the library, run by the read event of the loop.
\<close>

section \<open>Operations\<close>

text \<open>\<open>ans\<close> answers the \<open>write\<close> that \<open>send\<close> may make on the loop thread.\<close>

definition echo_message :: "'k epoll_ctl \<Rightarrow> io_answer \<Rightarrow> 'k conn_world \<Rightarrow> 'k conn_world res" where
  "echo_message ec ans w = (let b = input_buffer (conn w) in
     bind_res (load (buf b) (peek b) (readableBytes b)) (\<lambda>data.
     bind_res (send ec True ans data w) (\<lambda>w.
     Inr (w\<lparr>conn := (conn w)\<lparr>input_buffer := retrieveAll (input_buffer (conn w))\<rparr>\<rparr>))))"

text \<open>The events that reach the connection: a read, with the callback it makes, and a write.\<close>

datatype echo_op = EchoRead read_answer int io_answer | EchoWrite io_answer

fun echo_exec :: "'k epoll_ctl \<Rightarrow> echo_op \<Rightarrow> 'k conn_world \<Rightarrow> 'k conn_world res" where
  "echo_exec ec (EchoRead ans now wans) w =
     bind_res (handleRead ec ans now w) (\<lambda>w'.
       if trace w' = trace w @ [MessageCalled] then echo_message ec wans w' else Inr w')"
| "echo_exec ec (EchoWrite ans) w = handleWrite ec ans w"

section \<open>The echo as a machine\<close>

text \<open>
  What the kernel may answer: the loop dispatches reads only while the connection is open, and
  no write fails for good.
\<close>

fun received :: "echo_op \<Rightarrow> byte list" where
  "received (EchoRead (Delivered data) now wans) = data"
| "received op = []"

fun echo_ok :: "echo_op \<Rightarrow> 'k conn_world \<Rightarrow> bool" where
  "echo_ok (EchoRead ans now wans) w = (state (conn w) \<noteq> kDisconnected \<and> readv_law ans (input_buffer (conn w)) \<and>
     write_law wans (received (EchoRead ans now wans)) \<and> \<not> fatal wans)"
| "echo_ok (EchoWrite ans) w = write_law ans (contents (output_buffer (conn w)))"

definition echo_wf :: "('k \<Rightarrow> interest) \<Rightarrow> 'k conn_world \<Rightarrow> bool" where
  "echo_wf tbl w \<longleftrightarrow> conn_wf tbl w \<and> has_message (conn w) \<and> contents (input_buffer (conn w)) = []"

definition out_stream :: "'k conn_world \<Rightarrow> byte list" where
  "out_stream w = wire w @ contents (output_buffer (conn w))"

definition echo_spec :: "echo_op \<Rightarrow> byte list \<Rightarrow> byte list" where
  "echo_spec op stream = stream @ received op"

lemma out_stream_abs: "out_stream w = a_wire (conn_abs w) @ a_pending (conn_abs w)"
  by (simp add: out_stream_def)

lemma input_abs: "contents (input_buffer (conn w)) = a_input (conn_abs w)"
  by simp

text \<open>Callback members are set by the server only.\<close>

lemma handleClose_has_message [simp]: "has_message (conn (handleClose ec w)) = has_message (conn w)"
  by (simp add: handleClose_def Let_def)

lemma handleWrite_has_message: "handleWrite ec ans w = Inr w' \<Longrightarrow> has_message (conn w') = has_message (conn w)"
proof -
  assume run: "handleWrite ec ans w = Inr w'"
  show ?thesis
  proof (cases "\<exists>n. ans = Done (Suc n)")
    case True
    then obtain n where "ans = Done (Suc n)" ..
    then show ?thesis using run by (auto simp: handleWrite_def Let_def bind_res_eq_Inr split: if_splits)
  next
    case False
    then have "(case ans of Done (Suc n) \<Rightarrow> f n | _ \<Rightarrow> r) = r" for f and r :: "'a conn_world res"
      by (simp split: io_answer.split nat.split)
    then show ?thesis using run by (auto simp: handleWrite_def Let_def bind_res_eq_Inr split: if_splits)
  qed
qed

lemma sendInLoop_has_message: "sendInLoop ec ans data w = Inr w' \<Longrightarrow> has_message (conn w') = has_message (conn w)"
  by (auto simp: sendInLoop_def try_write_def Let_def bind_res_eq_Inr split: if_splits option.splits io_answer.splits)

lemma handleRead_notes:
  assumes "buf_inv (input_buffer (conn w))" "readv_law (Delivered data) (input_buffer (conn w))"
    and "handleRead ec (Delivered data) now w = Inr w'"
  shows "has_message (conn w') = has_message (conn w)"
    and "has_message (conn w) \<Longrightarrow> trace w' = trace w @ [MessageCalled] \<longleftrightarrow> data \<noteq> []"
proof -
  obtain b where "readFd (Delivered data) (input_buffer (conn w)) = Inr (int (length data), b)"
    using readFd_fifo [OF assms(1,2)] by metis
  then have "w' = (let v = w\<lparr>conn := (conn w)\<lparr>input_buffer := b\<rparr>\<rparr> in if data = [] then handleClose ec v
      else let v = v\<lparr>conn := (conn v)\<lparr>last_active := now\<rparr>\<rparr> in if has_message (conn w) then note_that MessageCalled v else v)"
    using assms(3) by (cases "data = []"; cases "has_message (conn w)") (simp_all add: handleRead_def Let_def)
  then show "has_message (conn w') = has_message (conn w)"
    "has_message (conn w) \<Longrightarrow> trace w' = trace w @ [MessageCalled] \<longleftrightarrow> data \<noteq> []"
    by (cases "data = []"; simp add: handleClose_def Let_def)+
qed

lemma echo_message_ok:
  assumes law: "epoll_law ec tbl" and wf: "conn_wf tbl w" and open_conn: "state (conn w) \<noteq> kDisconnected"
    and ans: "write_law ans (contents (input_buffer (conn w)))" "\<not> fatal ans"
  shows "\<exists>w'. echo_message ec ans w = Inr w' \<and> conn_wf tbl w' \<and> has_message (conn w') = has_message (conn w) \<and>
    contents (input_buffer (conn w')) = [] \<and> out_stream w' = out_stream w @ contents (input_buffer (conn w))"
proof -
  let ?data = "contents (input_buffer (conn w))"
  have inv: "buf_inv (input_buffer (conn w))" using wf by (simp add: conn_wf_def)
  have load: "load (buf (input_buffer (conn w))) (peek (input_buffer (conn w)))
      (readableBytes (input_buffer (conn w))) = Inr ?data"
    using load_contents [OF inv, of "length ?data"] inv by (simp add: buffer_simps)
  obtain v where v: "sendInLoop ec ans ?data w = Inr v" "conn_wf tbl v"
    "conn_abs v = spec_send ans ?data (conn_abs w)"
    using sendInLoop_ok [OF law wf ans(1)] by blast
  let ?w = "v\<lparr>conn := (conn v)\<lparr>input_buffer := retrieveAll (input_buffer (conn v))\<rparr>\<rparr>"
  have "echo_message ec ans w = Inr ?w" using load v(1) by (simp add: echo_message_def send_def)
  moreover have "conn_wf tbl ?w"
    using v(2) by (simp add: conn_wf_def conn_reg_def interest_of_def close_calls_def retrieveAll_fifo)
  moreover have "spec_accepts ans (conn_abs w)" using open_conn ans(2) by (simp add: spec_accepts_def)
  then have "out_stream v = out_stream w @ ?data"
    using spec_send_stream [of ans ?data "conn_abs w"] unfolding out_stream_abs v(3) by simp
  ultimately show ?thesis
    using sendInLoop_has_message [OF v(1)] by (simp add: retrieveAll_fifo out_stream_def)
qed

lemma echo_exec_ok:
  assumes law: "epoll_law ec tbl" and wf: "echo_wf tbl w" and ok: "echo_ok op w"
  shows "\<exists>w'. echo_exec ec op w = Inr w' \<and> echo_wf tbl w' \<and> out_stream w' = echo_spec op (out_stream w)"
proof (cases op)
  case (EchoWrite ans)
  have cw: "conn_wf tbl w" using wf by (simp add: echo_wf_def)
  obtain w' where w': "handleWrite ec ans w = Inr w'" "conn_wf tbl w'"
    "conn_abs w' = conn_step_spec (Writable ans) (conn_abs w)"
    using conn_exec_ok [OF law cw, of "Writable ans"] ok EchoWrite by auto
  have "out_stream w' = out_stream w"
    using spec_step_stream [of "Writable ans" "conn_abs w"] unfolding out_stream_abs w'(3) by simp
  moreover have "contents (input_buffer (conn w')) = []"
    using wf w'(3) unfolding echo_wf_def input_abs by (simp add: spec_write_def)
  ultimately show ?thesis using wf w' handleWrite_has_message [OF w'(1)] EchoWrite
    by (simp add: echo_wf_def echo_spec_def)
next
  case (EchoRead ans now wans)
  show ?thesis
  proof (cases ans)
    case (ReadFail e)
    then have "echo_exec ec op w = Inr (note_that ErrorLogged w)"
      using EchoRead by (simp add: handleRead_def handleError_def Let_def)
    then show ?thesis using wf EchoRead ReadFail
      by (simp add: echo_wf_def echo_spec_def out_stream_def conn_wf_def close_calls_def)
  next
    case (Delivered data)
    have cw: "conn_wf tbl w" "buf_inv (input_buffer (conn w))" "has_message (conn w)"
      "contents (input_buffer (conn w)) = []" using wf by (simp_all add: echo_wf_def conn_wf_def)
    obtain v where v: "handleRead ec ans now w = Inr v" "conn_wf tbl v" "conn_abs v = spec_read ans (conn_abs w)"
      using handleRead_ok [OF law cw(1)] ok EchoRead by auto
    note nts = handleRead_notes [OF cw(2) _ v(1) [unfolded Delivered]]
    have rl: "readv_law (Delivered data) (input_buffer (conn w))" using ok EchoRead Delivered by simp
    have abs: "contents (input_buffer (conn v)) = data" "out_stream v = out_stream w"
      "data \<noteq> [] \<Longrightarrow> state (conn v) = state (conn w)"
      using v(3) cw(4) Delivered
      by (cases data; auto simp: conn_abs_def spec_read_def spec_close_def out_stream_def)+
    show ?thesis
    proof (cases "data = []")
      case True
      then have "echo_exec ec op w = Inr v" using v(1) nts(2) [OF rl cw(3)] EchoRead by simp
      then show ?thesis using v abs nts(1) [OF rl] cw True EchoRead Delivered
        by (simp add: echo_wf_def echo_spec_def)
    next
      case False
      then have st: "state (conn v) \<noteq> kDisconnected" "write_law wans (contents (input_buffer (conn v)))" "\<not> fatal wans"
        using abs ok EchoRead Delivered by simp_all
      have "echo_exec ec op w = echo_message ec wans v"
        using v(1) nts(2) [OF rl cw(3)] EchoRead False by simp
      then show ?thesis using echo_message_ok [OF law v(2) st] abs nts(1) [OF rl] cw EchoRead Delivered
        by (auto simp: echo_wf_def echo_spec_def)
    qed
  qed
qed

interpretation echo_machine:
  op_machine "echo_exec ec" "\<lambda>w. epoll_law ec tbl \<and> echo_wf tbl w" echo_ok out_stream echo_spec for ec tbl
proof unfold_locales
  show "\<exists>w'. echo_exec ec op w = Inr w' \<and> epoll_law ec tbl \<and> echo_wf tbl w'"
    if "epoll_law ec tbl \<and> echo_wf tbl w" "echo_ok op w" for w op
    using echo_exec_ok [of ec tbl w op] that by blast
  show "out_stream w' = echo_spec op (out_stream w)"
    if "epoll_law ec tbl \<and> echo_wf tbl w" "echo_ok op w" "echo_exec ec op w = Inr w'" for w op w'
    using echo_exec_ok [of ec tbl w op] that by auto
qed

lemma echo_spec_run: "fold echo_spec ops stream = stream @ concat (map received ops)"
  by (induction ops arbitrary: stream) (simp_all add: echo_spec_def)

section \<open>Properties\<close>

text \<open>C21: The echo server returns what it receives.  On a connection of the library with the echo callback,
  over every run of reads and writes in which no write fails for good, whatever the sizes of
  the chunks and however little each write accepts, the bytes given to the kernel followed by
  the bytes still in the output buffer are exactly the bytes received, and nothing is left in
  the input buffer.\<close>

theorem echo_returns_what_came:
  assumes law: "epoll_law ec tbl" and "mirrors tbl lp" "channels lp fd = None"
    and "fst (ec (CtlAdd fd EPOLLIN p) (kern lp))"
    and w: "w = (new_conn ec p fd count now lp)\<lparr>conn := (conn (new_conn ec p fd count now lp))\<lparr>has_message := True\<rparr>\<rparr>"
    and ok: "allowed (echo_exec ec) echo_ok ops w"
  shows "\<exists>w'. run_ops (echo_exec ec) ops w = Inr w' \<and>
    wire w' @ contents (output_buffer (conn w')) = concat (map received ops) \<and>
    contents (input_buffer (conn w')) = []"
proof -
  let ?n = "new_conn ec p fd count now lp"
  note n = new_conn_wf [OF assms(1-4), of count now]
  have abs: "conn_abs w = conn_abs ?n" by (simp add: w conn_abs_def)
  have "conn_wf tbl w" using n(1) by (simp add: w conn_wf_def conn_reg_def interest_of_def close_calls_def
        new_conn_def)
  then have "echo_wf tbl w" using abs n(2) unfolding echo_wf_def input_abs by (simp add: w)
  moreover have "out_stream w = []" using abs n(2) unfolding out_stream_abs by simp
  ultimately show ?thesis
    using echo_machine.run_refines [of ec tbl w ops] law ok
    by (auto simp: echo_spec_run out_stream_def echo_wf_def)
qed

definition demo_echo :: "interest conn_world" where
  "demo_echo = demo_conn\<lparr>conn := (conn demo_conn)\<lparr>has_message := True\<rparr>\<rparr>"

text \<open>A read of two bytes of which one is written at once, and an event whose write would block.\<close>

definition demo_echo_ops :: "echo_op list" where
  "demo_echo_ops = [EchoRead (Delivered [7, 8]) 101 (Done 1), EchoWrite (Fail EAGAIN)]"

lemma demo_echo_allowed: "allowed (echo_exec table_ctl) echo_ok demo_echo_ops demo_echo"
proof -
  have "conn_wf id demo_echo"
    using demo_conn_wf by (simp add: demo_echo_def conn_wf_def conn_reg_def interest_of_def close_calls_def)
  then have "echo_wf id demo_echo"
    using demo_conn_abs unfolding echo_wf_def input_abs by (simp add: demo_echo_def conn_abs_def)
  moreover have ok: "echo_ok (EchoRead (Delivered [7, 8]) 101 (Done 1)) demo_echo"
    by (simp add: demo_echo_def demo_conn_def new_conn_def readv_law_def extra_size_def write_law_def)
  ultimately obtain v where "echo_exec table_ctl (EchoRead (Delivered [7, 8]) 101 (Done 1)) demo_echo = Inr v"
    using echo_exec_ok [OF table_ctl_law] by blast
  then show ?thesis using ok unfolding demo_echo_ops_def
    by (simp add: write_law_def split: sum.split del: echo_exec.simps echo_ok.simps(1))
qed

lemma echo_returns_what_came_witness:
  "\<exists>w'. run_ops (echo_exec table_ctl) demo_echo_ops demo_echo = Inr w' \<and>
     wire w' @ contents (output_buffer (conn w')) = [7, 8]"
  using echo_returns_what_came [OF table_ctl_law idle_registry_facts, where w = demo_echo,
      OF demo_echo_def [unfolded demo_conn_def] demo_echo_allowed]
  by (auto simp: demo_echo_ops_def)

end
