(* ===== verification/Select_Server.thy ===== *)
theory Select_Server
  imports Prelude
begin

text \<open>
  The first stage of the repository, the echo server on \<open>select\<close> (\<open>select/server.cpp\<close>).  An
  \<open>fd_set\<close> is a set of descriptors below \<open>FD_SETSIZE\<close>; the answers of \<open>select\<close>, \<open>accept\<close> and
  \<open>recv\<close> are arguments of a round of the loop.  The replies it sends and the descriptors it
  closes are recorded in order.
\<close>

section \<open>State and operations\<close>

definition FD_SETSIZE :: int where
  "FD_SETSIZE = 1024"

definition FD_SET :: "fd \<Rightarrow> fd set \<Rightarrow> fd set res" where
  "FD_SET fd fds = (if 0 \<le> fd \<and> fd < FD_SETSIZE then Inr (insert fd fds) else Inl OutOfBounds)"

fun fd_set_all :: "fd list \<Rightarrow> fd set \<Rightarrow> fd set res" where
  "fd_set_all [] fds = Inr fds"
| "fd_set_all (c # cs) fds = bind_res (FD_SET c fds) (fd_set_all cs)"

record sel_io =
  replies :: "(fd \<times> byte list) list"
  closed :: "fd list"

record sel_server =
  cfds :: "fd list"
  max_fd :: int
  io :: sel_io

text \<open>
  One ready client.  \<open>recv\<close> returns a \<open>ssize_t\<close> that the code keeps in a \<open>size_t\<close>, so a failure
  is the largest value.  The result tells whether the client stays in the vector.
\<close>

definition recv_size :: "read_answer \<Rightarrow> nat" where
  "recv_size ans = (case ans of Delivered data \<Rightarrow> length data | ReadFail e \<Rightarrow> 2 ^ 64 - 1)"

definition recv_buf :: "nat \<Rightarrow> read_answer \<Rightarrow> byte list" where
  "recv_buf n ans = (case ans of Delivered data \<Rightarrow> data @ replicate (n - length data) 0
     | ReadFail e \<Rightarrow> replicate n 0)"

definition serve_client :: "fd \<Rightarrow> read_answer \<Rightarrow> sel_io \<Rightarrow> (bool \<times> sel_io) res" where
  "serve_client c ans out = (let bytes_read = recv_size ans; data = recv_buf 1024 ans in
     if bytes_read > 0
     then bind_res (store data bytes_read [48]) (\<lambda>data.
       Inr (True, out\<lparr>replies := replies out @ [(c, data)]\<rparr>))
     else Inr (False, out\<lparr>closed := closed out @ [c]\<rparr>))"

text \<open>The loop over the vector, which ends early once \<open>activity\<close> ready descriptors were served.\<close>

fun scan_clients :: "(fd \<Rightarrow> read_answer) \<Rightarrow> fd set \<Rightarrow> fd list \<Rightarrow> int \<Rightarrow> sel_io \<Rightarrow> (fd list \<times> sel_io) res" where
  "scan_clients rcv fds [] activity out = Inr ([], out)"
| "scan_clients rcv fds (c # cs) activity out =
     (if c \<in> fds
      then bind_res (serve_client c (rcv c) out) (\<lambda>(keep, out).
        let kept = if keep then [c] else []; activity = activity - 1 in
        if activity = 0 then Inr (kept @ cs, out)
        else bind_res (scan_clients rcv fds cs activity out) (\<lambda>(cs, out). Inr (kept @ cs, out)))
      else bind_res (scan_clients rcv fds cs activity out) (\<lambda>(cs, out). Inr (c # cs, out)))"

text \<open>
  A round of \<open>while(1)\<close>.  \<open>sel nfds fds\<close> answers \<open>select\<close>: \<open>None\<close> for a failure, otherwise the
  count and the ready descriptors.  The flag of the result says whether the loop goes on.
\<close>

definition accept_client :: "fd option \<Rightarrow> sel_server \<Rightarrow> sel_server" where
  "accept_client acc s = (case acc of None \<Rightarrow> s
     | Some new_fd \<Rightarrow> s\<lparr>cfds := cfds s @ [new_fd], max_fd := max new_fd (max_fd s)\<rparr>)"

definition select_round :: "fd \<Rightarrow> (int \<Rightarrow> fd set \<Rightarrow> (int \<times> fd set) option) \<Rightarrow> fd option \<Rightarrow>
    (fd \<Rightarrow> read_answer) \<Rightarrow> sel_server \<Rightarrow> (bool \<times> sel_server) res" where
  "select_round l_fd sel acc rcv s =
     bind_res (fd_set_all (l_fd # cfds s) {}) (\<lambda>fds.
     case sel (max_fd s + 1) fds of None \<Rightarrow> Inr (False, s)
     | Some (activity, ready) \<Rightarrow>
         (let s1 = if l_fd \<in> ready then accept_client acc s else s;
              left = if l_fd \<in> ready then activity - 1 else activity
          in if l_fd \<in> ready \<and> left \<le> 0 then Inr (True, s1)
             else bind_res (scan_clients rcv ready (cfds s1) left (io s1)) (\<lambda>(cs, out).
               Inr (True, s1\<lparr>cfds := cs, io := out\<rparr>))))"

definition start_select :: "fd \<Rightarrow> sel_server" where
  "start_select l_fd = \<lparr>cfds = [], max_fd = l_fd, io = \<lparr>replies = [], closed = []\<rparr>\<rparr>"

text \<open>
  The start of \<open>main\<close>: a failure of \<open>socket\<close>, \<open>bind\<close> or \<open>listen\<close> ends the program with the
  descriptors it closes, otherwise the loop starts.
\<close>

definition select_open :: "fd option \<Rightarrow> bool \<Rightarrow> bool \<Rightarrow> fd list + sel_server" where
  "select_open sock binds listens = (case sock of
     None \<Rightarrow> Inl []
   | Some l_fd \<Rightarrow> if \<not> binds then Inl [l_fd]
       else if \<not> listens then Inl [l_fd]
       else Inr (start_select l_fd))"

text \<open>The end of the program closes every client and then the listening socket.\<close>

definition finish_select :: "fd \<Rightarrow> sel_server \<Rightarrow> sel_server" where
  "finish_select l_fd s = s\<lparr>io := (io s)\<lparr>closed := closed (io s) @ cfds s @ [l_fd]\<rparr>\<rparr>"

section \<open>A round without failures\<close>

text \<open>
  What the kernel promises: \<open>select\<close> reports some of the watched descriptors below \<open>nfds\<close> and
  counts them, \<open>accept\<close> returns a descriptor that is not in use, and \<open>recv\<close> delivers no more
  than was asked for.
\<close>

definition select_law :: "(int \<Rightarrow> fd set \<Rightarrow> (int \<times> fd set) option) \<Rightarrow> bool" where
  "select_law sel \<longleftrightarrow> (\<forall>nfds fds n ready. sel nfds fds = Some (n, ready) \<longrightarrow>
     ready \<subseteq> {c \<in> fds. c < nfds} \<and> n = int (card ready))"

definition fresh_client :: "fd \<Rightarrow> fd option \<Rightarrow> sel_server \<Rightarrow> bool" where
  "fresh_client l_fd acc s \<longleftrightarrow> (case acc of None \<Rightarrow> True
     | Some c \<Rightarrow> 0 \<le> c \<and> c < FD_SETSIZE \<and> c \<notin> set (l_fd # cfds s))"

definition delivers :: "(fd \<Rightarrow> read_answer) \<Rightarrow> fd set \<Rightarrow> bool" where
  "delivers rcv fds \<longleftrightarrow> (\<forall>c\<in>fds. \<exists>data. rcv c = Delivered data \<and> length data \<le> 1023)"

definition sel_wf :: "fd \<Rightarrow> sel_server \<Rightarrow> bool" where
  "sel_wf l_fd s \<longleftrightarrow> distinct (l_fd # cfds s) \<and>
     (\<forall>c\<in>set (l_fd # cfds s). 0 \<le> c \<and> c < FD_SETSIZE \<and> c \<le> max_fd s)"

definition has_data :: "(fd \<Rightarrow> read_answer) \<Rightarrow> fd set \<Rightarrow> fd \<Rightarrow> bool" where
  "has_data rcv fds c \<longleftrightarrow> c \<in> fds \<and> rcv c \<noteq> Delivered []"

definition at_eof :: "(fd \<Rightarrow> read_answer) \<Rightarrow> fd set \<Rightarrow> fd \<Rightarrow> bool" where
  "at_eof rcv fds c \<longleftrightarrow> c \<in> fds \<and> rcv c = Delivered []"

text \<open>What a client gets back for the bytes it sent.\<close>

definition reply_block :: "byte list \<Rightarrow> byte list" where
  "reply_block data = data @ [48] @ replicate (1023 - length data) 0"

definition reply_to :: "(fd \<Rightarrow> read_answer) \<Rightarrow> fd \<Rightarrow> fd \<times> byte list" where
  "reply_to rcv c = (c, case rcv c of Delivered data \<Rightarrow> reply_block data | ReadFail e \<Rightarrow> [])"

definition served :: "(fd \<Rightarrow> read_answer) \<Rightarrow> fd set \<Rightarrow> fd list \<Rightarrow> sel_io \<Rightarrow> sel_io" where
  "served rcv fds cs out = out\<lparr>replies := replies out @ map (reply_to rcv) (filter (has_data rcv fds) cs),
     closed := closed out @ filter (at_eof rcv fds) cs\<rparr>"

lemma select_open_wf:
  "0 \<le> l_fd \<Longrightarrow> l_fd < FD_SETSIZE \<Longrightarrow> select_open (Some l_fd) binds listens = Inr s \<Longrightarrow> sel_wf l_fd s"
  by (auto simp: select_open_def start_select_def sel_wf_def split: if_splits)

lemma fd_set_all_ok:
  "\<forall>c\<in>set cs. 0 \<le> c \<and> c < FD_SETSIZE \<Longrightarrow> fd_set_all cs fds = Inr (set cs \<union> fds)"
  by (induction cs arbitrary: fds) (simp_all add: FD_SET_def)

lemma fd_set_all_overrun:
  "c \<in> set cs \<Longrightarrow> FD_SETSIZE \<le> c \<Longrightarrow> fd_set_all cs fds = Inl OutOfBounds"
proof (induction cs arbitrary: fds)
  case (Cons d cs)
  then show ?case by (cases "FD_SET d fds") (auto simp: FD_SET_def split: if_splits)
qed simp

lemma serve_client_data:
  assumes "rcv c = Delivered data" "data \<noteq> []" "length data \<le> 1023"
  shows "serve_client c (rcv c) out = Inr (True, out\<lparr>replies := replies out @ [reply_to rcv c]\<rparr>)"
proof -
  have "drop (Suc (length data)) (data @ replicate (1024 - length data) (0::byte)) =
      replicate (1023 - length data) 0"
    by simp
  then show ?thesis using assms
    by (simp add: serve_client_def recv_size_def recv_buf_def store_def reply_to_def reply_block_def)
qed

lemma serve_client_eof:
  "rcv c = Delivered [] \<Longrightarrow> serve_client c (rcv c) out = Inr (False, out\<lparr>closed := closed out @ [c]\<rparr>)"
  by (simp add: serve_client_def recv_size_def)

lemma nobody_ready:
  "fds \<inter> set cs = {} \<Longrightarrow> filter (has_data rcv fds) cs = [] \<and> filter (at_eof rcv fds) cs = [] \<and>
   filter (\<lambda>c. \<not> at_eof rcv fds c) cs = cs"
  by (auto simp: filter_empty_conv has_data_def at_eof_def filter_id_conv)

text \<open>The early exit of the loop skips nobody: the count of the ready clients runs out with the last.\<close>

lemma scan_clients_all:
  assumes "distinct cs" "delivers rcv (fds \<inter> set cs)" "activity = int (card (fds \<inter> set cs))"
  shows "scan_clients rcv fds cs activity out =
    Inr (filter (\<lambda>c. \<not> at_eof rcv fds c) cs, served rcv fds cs out)"
  using assms
proof (induction cs arbitrary: activity out)
  case (Cons c cs)
  show ?case
  proof (cases "c \<in> fds")
    case True
    have "fds \<inter> set (c # cs) = insert c (fds \<inter> set cs)" "c \<notin> fds \<inter> set cs" using True Cons.prems(1) by auto
    then have act: "activity - 1 = int (card (fds \<inter> set cs))" using Cons.prems(3) by simp
    obtain data where data: "rcv c = Delivered data" "length data \<le> 1023"
      using Cons.prems(2) True by (auto simp: delivers_def)
    define keep where "keep = (data \<noteq> [])"
    define out1 where "out1 = served rcv fds [c] out"
    have serve: "serve_client c (rcv c) out = Inr (keep, out1)"
      using True data serve_client_data [of rcv c data] serve_client_eof [of rcv c]
      by (cases "data = []") (simp_all add: keep_def out1_def served_def has_data_def at_eof_def)
    have rest: "delivers rcv (fds \<inter> set cs)" using Cons.prems(2) by (simp add: delivers_def)
    have split: "served rcv fds (c # cs) out = served rcv fds cs out1"
      "filter (\<lambda>c. \<not> at_eof rcv fds c) (c # cs) =
       (if keep then [c] else []) @ filter (\<lambda>c. \<not> at_eof rcv fds c) cs"
      using True data by (auto simp: served_def out1_def at_eof_def keep_def)
    show ?thesis
    proof (cases "activity - 1 = 0")
      case True
      then have "fds \<inter> set cs = {}" using act by simp
      then have none: "filter (\<lambda>c. \<not> at_eof rcv fds c) cs = cs" "served rcv fds cs out1 = out1"
        using nobody_ready [of fds cs rcv] by (simp_all add: served_def)
      show ?thesis unfolding split none using \<open>c \<in> fds\<close> True serve by simp
    next
      case False
      then show ?thesis unfolding split
        using \<open>c \<in> fds\<close> serve Cons.IH [OF _ rest act, of out1] Cons.prems(1) by simp
    qed
  next
    case False
    then have "activity = int (card (fds \<inter> set cs))" using Cons.prems(3) by simp
    then have "scan_clients rcv fds cs activity out =
        Inr (filter (\<lambda>c. \<not> at_eof rcv fds c) cs, served rcv fds cs out)"
      using Cons.IH [of activity out] Cons.prems(1,2) by (simp add: delivers_def)
    moreover have "\<not> at_eof rcv fds c" "\<not> has_data rcv fds c"
      using False by (simp_all add: at_eof_def has_data_def)
    ultimately show ?thesis using False by (simp add: served_def)
  qed
qed (simp add: served_def)

lemma scan_clients_fail:
  assumes "distinct cs" "\<forall>c\<in>fds \<inter> set cs. \<forall>data. rcv c = Delivered data \<longrightarrow> length data \<le> 1023"
    and "activity = int (card (fds \<inter> set cs))" "c \<in> fds \<inter> set cs" "rcv c = ReadFail e"
  shows "scan_clients rcv fds cs activity out = Inl OutOfBounds"
  using assms
proof (induction cs arbitrary: activity out)
  case (Cons d cs)
  show ?case
  proof (cases "d \<in> fds")
    case True
    have "fds \<inter> set (d # cs) = insert d (fds \<inter> set cs)" "d \<notin> fds \<inter> set cs" using True Cons.prems(1) by auto
    then have act: "activity - 1 = int (card (fds \<inter> set cs))" using Cons.prems(3) by simp
    show ?thesis
    proof (cases "rcv d")
      case (ReadFail x)
      then have "serve_client d (rcv d) out = Inl OutOfBounds"
        by (simp add: serve_client_def recv_size_def recv_buf_def store_def)
      then show ?thesis using True by simp
    next
      case (Delivered data)
      then have c: "c \<in> fds \<inter> set cs" using Cons.prems(4,5) by auto
      then have more: "activity - 1 \<noteq> 0" using act by (auto simp: card_eq_0_iff)
      obtain keep out1 where "serve_client d (rcv d) out = Inr (keep, out1)"
        using Delivered True Cons.prems(2) serve_client_data [of rcv d data out] serve_client_eof [of rcv d out]
        by (cases "data = []") auto
      then show ?thesis using True more act c Cons by simp
    qed
  next
    case False
    then show ?thesis using Cons by auto
  qed
qed simp

lemma card_watched:
  assumes wf: "sel_wf l_fd s" and law: "select_law sel" and fresh: "fresh_client l_fd acc s"
    and sel: "sel (max_fd s + 1) (set (l_fd # cfds s)) = Some (n, ready)"
  defines "t \<equiv> if l_fd \<in> ready then accept_client acc s else s"
  shows "int (card (ready \<inter> set (cfds t))) = (if l_fd \<in> ready then n - 1 else n)"
    and "ready \<inter> set (cfds t) = ready \<inter> set (cfds s)" "distinct (cfds t)"
    and "l_fd \<in> ready \<and> n - 1 \<le> 0 \<Longrightarrow> ready \<inter> set (cfds s) = {}"
proof -
  have sub: "ready \<subseteq> set (l_fd # cfds s)" "n = int (card ready)" using law [unfolded select_law_def, rule_format, OF sel] by auto
  have fin: "finite ready" using sub(1) by (rule finite_subset) simp
  show eq: "ready \<inter> set (cfds t) = ready \<inter> set (cfds s)" "distinct (cfds t)"
    using sub(1) fresh wf by (auto simp: t_def accept_client_def fresh_client_def sel_wf_def split: option.splits)
  have "ready \<inter> set (cfds s) = ready - {l_fd}" using sub(1) wf by (auto simp: sel_wf_def)
  then show num: "int (card (ready \<inter> set (cfds t))) = (if l_fd \<in> ready then n - 1 else n)"
    unfolding eq(1) using sub(2) fin card_Suc_Diff1 [OF fin, of l_fd] by (cases "l_fd \<in> ready") simp_all
  show "l_fd \<in> ready \<and> n - 1 \<le> 0 \<Longrightarrow> ready \<inter> set (cfds s) = {}"
  proof -
    assume last: "l_fd \<in> ready \<and> n - 1 \<le> 0"
    then have "int (card (ready \<inter> set (cfds s))) = n - 1" using num unfolding eq(1) by simp
    then have "int (card (ready \<inter> set (cfds s))) \<le> 0" using last by linarith
    then show ?thesis using fin by simp
  qed
qed

lemma sel_wf_watch: "sel_wf l_fd s \<Longrightarrow> fd_set_all (l_fd # cfds s) {} = Inr (set (l_fd # cfds s))"
  using fd_set_all_ok [of "l_fd # cfds s" "{}"] by (simp add: sel_wf_def del: fd_set_all.simps)

lemma sel_wf_start: "0 \<le> l_fd \<Longrightarrow> l_fd < FD_SETSIZE \<Longrightarrow> sel_wf l_fd (start_select l_fd)"
  by (simp add: sel_wf_def start_select_def)

lemma sel_wf_accept: "sel_wf l_fd s \<Longrightarrow> fresh_client l_fd acc s \<Longrightarrow> sel_wf l_fd (accept_client acc s)"
  by (auto simp: sel_wf_def accept_client_def fresh_client_def split: option.splits)

lemma sel_wf_fewer: "sel_wf l_fd s \<Longrightarrow> sel_wf l_fd (s\<lparr>cfds := filter P (cfds s), io := out\<rparr>)"
  by (auto simp: sel_wf_def)

section \<open>Properties\<close>


text \<open>Two clients, 5 with two bytes and 7 at the end of file, while a third, 6, is connecting.\<close>

definition demo_select :: sel_server where
  "demo_select = \<lparr>cfds = [5, 7], max_fd = 7, io = \<lparr>replies = [], closed = []\<rparr>\<rparr>"

definition demo_ready :: "int \<Rightarrow> fd set \<Rightarrow> (int \<times> fd set) option" where
  "demo_ready nfds fds = Some (int (card {c \<in> fds. c < nfds}), {c \<in> fds. c < nfds})"

lemma demo_ready_law: "select_law demo_ready"
  by (auto simp: select_law_def demo_ready_def)

lemma demo_ready_all: "demo_ready (max_fd demo_select + 1) (set (3 # cfds demo_select)) = Some (3, {3, 5, 7})"
proof -
  have "{c \<in> set (3 # cfds demo_select). c < max_fd demo_select + 1} = {3, 5, 7}"
    by (auto simp: demo_select_def)
  then show ?thesis by (simp add: demo_ready_def)
qed

lemma demo_select_wf: "sel_wf 3 demo_select" "fresh_client 3 (Some 6) demo_select"
  by (simp_all add: demo_select_def sel_wf_def fresh_client_def FD_SETSIZE_def)


text \<open>A failing \<open>recv\<close> overruns the buffer.  The server keeps the result -1 in an unsigned variable, takes
  it for a positive count and writes to \<open>buf\<close> at the index 2 to the power 64 minus 1; the branch
  for errors is never reached.\<close>

theorem select_recv_error_overruns:
  assumes wf: "sel_wf l_fd s" and law: "select_law sel" and fresh: "fresh_client l_fd acc s"
    and sel: "sel (max_fd s + 1) (set (l_fd # cfds s)) = Some (n, ready)"
    and "\<forall>c\<in>ready \<inter> set (cfds s). \<forall>data. rcv c = Delivered data \<longrightarrow> length data \<le> 1023"
    and bad: "c \<in> ready \<inter> set (cfds s)" "rcv c = ReadFail e"
  shows "select_round l_fd sel acc rcv s = Inl OutOfBounds"
proof -
  define s1 where "s1 = (if l_fd \<in> ready then accept_client acc s else s)"
  note card = card_watched [OF wf law fresh sel, folded s1_def]
  have scan: "scan_clients rcv ready (cfds s1) (if l_fd \<in> ready then n - 1 else n) out = Inl OutOfBounds" for out
    using scan_clients_fail [OF card(3) _ card(1) [symmetric], of rcv c e] assms(5) bad card(2) by simp
  have "\<not> (l_fd \<in> ready \<and> n - 1 \<le> 0)" using card(4) bad(1) by blast
  then show ?thesis using scan sel sel_wf_watch [OF wf]
    by (auto simp add: select_round_def Let_def s1_def [symmetric] simp del: fd_set_all.simps)
qed

lemma select_recv_error_overruns_witness:
  "select_round 3 demo_ready (Some 6) (\<lambda>c. if c = 7 then ReadFail (Errno 104) else Delivered [1]) demo_select =
     Inl OutOfBounds"
  by (rule select_recv_error_overruns [OF demo_select_wf(1) demo_ready_law demo_select_wf(2)
        demo_ready_all, where c = 7 and e = "Errno 104"])
    (auto simp: demo_select_def)

text \<open>The \<open>select\<close> server does not survive its 1021st client: a descriptor of 1024 or more is accepted and
  kept, and the next round writes past the \<open>fd_set\<close>, whatever the kernel answers.\<close>

theorem select_descriptor_limit:
  assumes "select_round l_fd sel (Some new_fd) rcv s = Inr (True, t)" "FD_SETSIZE \<le> new_fd"
    and "sel (max_fd s + 1) (set (l_fd # cfds s)) = Some (1, {l_fd})" "sel_wf l_fd s"
  shows "select_round l_fd sel' acc' rcv' t = Inl OutOfBounds"
proof -
  have "t = accept_client (Some new_fd) s"
    using assms sel_wf_watch [of l_fd s] by (simp add: select_round_def Let_def del: fd_set_all.simps)
  then have "new_fd \<in> set (l_fd # cfds t)" by (simp add: accept_client_def)
  then show ?thesis using assms(2) fd_set_all_overrun [of new_fd "l_fd # cfds t" "{}"]
    by (simp add: select_round_def del: fd_set_all.simps)
qed

lemma select_descriptor_limit_witness:
  "\<exists>t. select_round 3 (\<lambda>n fds. Some (1, {3})) (Some 1024) rcv demo_select = Inr (True, t) \<and>
     select_round 3 demo_ready None (\<lambda>c. Delivered []) t = Inl OutOfBounds"
proof -
  let ?sel = "\<lambda>n fds. Some (1, {3})" and ?t = "accept_client (Some 1024) demo_select"
  have round: "select_round 3 ?sel (Some 1024) rcv demo_select = Inr (True, ?t)"
    using sel_wf_watch [OF demo_select_wf(1)] by (simp add: select_round_def del: fd_set_all.simps)
  show ?thesis
    using round select_descriptor_limit [OF round] demo_select_wf(1) by (auto simp: FD_SETSIZE_def)
qed

end
