(* ===== verification/Epoll_Server.thy ===== *)
theory Epoll_Server
  imports Poller
begin

text \<open>
  The second stage of the repository, the echo server on one epoll instance
  (\<open>epoll/server.cpp\<close>).  The kernel is a parameter: the two \<open>epoll_ctl\<close> calls it makes and
  \<open>close\<close>, with their documented effect on the set of watched descriptors as the hypothesis
  \<open>ep_law\<close>; the batches of \<open>epoll_wait\<close> and the answers of \<open>accept\<close> and \<open>recv\<close> are arguments.
\<close>

section \<open>State and operations\<close>

record 'k ep_kernel =
  ep_add :: "fd \<Rightarrow> uint32 \<Rightarrow> 'k \<Rightarrow> bool \<times> 'k"
  ep_del :: "fd \<Rightarrow> 'k \<Rightarrow> 'k"
  sys_close :: "fd \<Rightarrow> 'k \<Rightarrow> 'k"

record 'k ep_server =
  epk :: 'k
  echoes :: "(fd \<times> byte list) list"
  closes :: "fd list"

definition ep_close :: "'k ep_kernel \<Rightarrow> fd \<Rightarrow> 'k ep_server \<Rightarrow> 'k ep_server" where
  "ep_close K fd s = s\<lparr>epk := sys_close K fd (epk s), closes := closes s @ [fd]\<rparr>"

definition accept_event :: "'k ep_kernel \<Rightarrow> fd option \<Rightarrow> 'k ep_server \<Rightarrow> 'k ep_server" where
  "accept_event K acc s = (case acc of None \<Rightarrow> s
     | Some new_fd \<Rightarrow> (let (ok, k) = ep_add K new_fd EPOLLIN (epk s); s = s\<lparr>epk := k\<rparr>
         in if \<not> ok then ep_close K new_fd s else s))"

definition client_event :: "'k ep_kernel \<Rightarrow> fd \<Rightarrow> read_answer \<Rightarrow> 'k ep_server \<Rightarrow> 'k ep_server" where
  "client_event K fd ans s = (case ans of
     Delivered (x # xs) \<Rightarrow> s\<lparr>echoes := echoes s @ [(fd, x # xs)]\<rparr>
   | _ \<Rightarrow> ep_close K fd (s\<lparr>epk := ep_del K fd (epk s)\<rparr>))"

definition ep_event :: "'k ep_kernel \<Rightarrow> fd \<Rightarrow> fd option \<Rightarrow> (fd \<Rightarrow> read_answer) \<Rightarrow> fd \<times> uint32 \<Rightarrow>
    'k ep_server \<Rightarrow> 'k ep_server" where
  "ep_event K l_fd acc rcv e s = (let (fd, evt) = e in
     if evt AND (EPOLLERR OR EPOLLHUP) \<noteq> 0 then ep_close K fd s
     else if fd = l_fd then accept_event K acc s
     else client_event K fd (rcv fd) s)"

fun ep_batch :: "'k ep_kernel \<Rightarrow> fd \<Rightarrow> fd option \<Rightarrow> (fd \<Rightarrow> read_answer) \<Rightarrow> (fd \<times> uint32) list \<Rightarrow>
    'k ep_server \<Rightarrow> 'k ep_server" where
  "ep_batch K l_fd acc rcv [] s = s"
| "ep_batch K l_fd acc rcv (e # es) s = ep_batch K l_fd acc rcv es (ep_event K l_fd acc rcv e s)"

text \<open>
  The main loop over the answers of \<open>epoll_wait\<close>; a failure, whatever its error number, ends it
  and closes both descriptors.
\<close>

type_synonym ep_round = "(fd \<times> uint32) list option \<times> fd option \<times> (fd \<Rightarrow> read_answer)"

fun ep_loop :: "'k ep_kernel \<Rightarrow> fd \<Rightarrow> fd \<Rightarrow> ep_round list \<Rightarrow> 'k ep_server \<Rightarrow> 'k ep_server" where
  "ep_loop K epfd l_fd [] s = s"
| "ep_loop K epfd l_fd ((None, acc, rcv) # rs) s = ep_close K l_fd (ep_close K epfd s)"
| "ep_loop K epfd l_fd ((Some es, acc, rcv) # rs) s = ep_loop K epfd l_fd rs (ep_batch K l_fd acc rcv es s)"

text \<open>
  The start of \<open>main\<close>: a failure of one of the calls ends the program with the descriptors it
  closes, otherwise the listening socket is the only one watched.
\<close>

definition epoll_open :: "'k ep_kernel \<Rightarrow> fd option \<Rightarrow> bool \<Rightarrow> bool \<Rightarrow> (fd \<times> 'k) option \<Rightarrow>
    fd list + fd \<times> 'k ep_server" where
  "epoll_open K sock binds listens epoll = (case sock of
     None \<Rightarrow> Inl []
   | Some l_fd \<Rightarrow> if \<not> binds then Inl [l_fd]
       else if \<not> listens then Inl [l_fd]
       else (case epoll of
         None \<Rightarrow> Inl [l_fd]
       | Some (epfd, k) \<Rightarrow> (let (ok, k) = ep_add K l_fd EPOLLIN k in
           if \<not> ok then Inl [epfd, l_fd]
           else Inr (epfd, \<lparr>epk = k, echoes = [], closes = []\<rparr>))))"

section \<open>The watched descriptors\<close>

definition ep_law :: "'k ep_kernel \<Rightarrow> ('k \<Rightarrow> fd set) \<Rightarrow> bool" where
  "ep_law K watched \<longleftrightarrow>
     (\<forall>fd ev k. watched (snd (ep_add K fd ev k)) = (if fst (ep_add K fd ev k) then {fd} else {}) \<union> watched k) \<and>
     (\<forall>fd k. watched (ep_del K fd k) = watched k - {fd}) \<and>
     (\<forall>fd k. watched (sys_close K fd k) = watched k - {fd})"

definition bad_event :: "fd \<times> uint32 \<Rightarrow> bool" where
  "bad_event e \<longleftrightarrow> snd e AND (EPOLLERR OR EPOLLHUP) \<noteq> 0"

text \<open>The clients that a batch closes, and the echoes it sends.\<close>

definition hangs_up :: "fd \<Rightarrow> (fd \<Rightarrow> read_answer) \<Rightarrow> fd \<times> uint32 \<Rightarrow> bool" where
  "hangs_up l_fd rcv e \<longleftrightarrow> bad_event e \<or>
     fst e \<noteq> l_fd \<and> (rcv (fst e) = Delivered [] \<or> (\<exists>x. rcv (fst e) = ReadFail x))"

definition echo_of :: "fd \<Rightarrow> (fd \<Rightarrow> read_answer) \<Rightarrow> fd \<times> uint32 \<Rightarrow> (fd \<times> byte list) list" where
  "echo_of l_fd rcv e = (if bad_event e \<or> fst e = l_fd then []
     else case rcv (fst e) of Delivered (x # xs) \<Rightarrow> [(fst e, x # xs)] | _ \<Rightarrow> [])"

definition accepts :: "fd \<Rightarrow> fd \<times> uint32 \<Rightarrow> bool" where
  "accepts l_fd e \<longleftrightarrow> fst e = l_fd \<and> \<not> bad_event e"

text \<open>The new client, when the kernel takes it into the epoll set.\<close>

definition taken_in :: "'k ep_kernel \<Rightarrow> fd option \<Rightarrow> 'k \<Rightarrow> fd set" where
  "taken_in K acc k = (case acc of None \<Rightarrow> {}
     | Some c \<Rightarrow> if fst (ep_add K c EPOLLIN k) then {c} else {})"

lemma epoll_open_watches_listener:
  assumes "ep_law K watched" "watched k = {}"
    and "epoll_open K (Some l_fd) binds listens (Some (epfd, k)) = Inr (epfd, s)"
  shows "watched (epk s) = {l_fd}"
proof -
  obtain ok k' where add: "ep_add K l_fd EPOLLIN k = (ok, k')" by (cases "ep_add K l_fd EPOLLIN k")
  then have ok: "ok" "s = \<lparr>epk = k', echoes = [], closes = []\<rparr>"
    using assms(3) by (auto simp: epoll_open_def split: if_splits)
  have "watched (snd (ep_add K l_fd EPOLLIN k)) = (if fst (ep_add K l_fd EPOLLIN k) then {l_fd} else {}) \<union> watched k"
    using assms(1) by (simp add: ep_law_def)
  then show ?thesis using add ok assms(2) by simp
qed

lemma ep_close_sel [simp]:
  "echoes (ep_close K fd s) = echoes s" "closes (ep_close K fd s) = closes s @ [fd]"
  "epk (ep_close K fd s) = sys_close K fd (epk s)"
  by (simp_all add: ep_close_def)

lemma ep_event_echoes: "echoes (ep_event K l_fd acc rcv e s) = echoes s @ echo_of l_fd rcv e"
  by (cases e) (auto simp: ep_event_def echo_of_def bad_event_def accept_event_def client_event_def Let_def
      split: option.split read_answer.split list.split prod.split)

lemma ep_batch_echoes:
  "echoes (ep_batch K l_fd acc rcv es s) = echoes s @ concat (map (echo_of l_fd rcv) es)"
  by (induction es arbitrary: s) (simp_all add: ep_event_echoes)

lemma ep_event_watched:
  assumes "ep_law K watched" "\<forall>c. acc = Some c \<longrightarrow> c \<notin> watched (epk s)"
  shows "watched (epk (ep_event K l_fd acc rcv e s)) =
    (if hangs_up l_fd rcv e then watched (epk s) - {fst e}
     else if accepts l_fd e then watched (epk s) \<union> taken_in K acc (epk s) else watched (epk s))"
proof -
  obtain fd evt where e: "e = (fd, evt)" by (cases e)
  consider (bad) "bad_event e" | (listener) "\<not> bad_event e" "fd = l_fd" | (client) "\<not> bad_event e" "fd \<noteq> l_fd"
    by blast
  then show ?thesis
  proof cases
    case bad
    then show ?thesis using assms(1) e
      by (simp add: ep_event_def hangs_up_def bad_event_def ep_law_def)
  next
    case listener
    then have "ep_event K l_fd acc rcv e s = accept_event K acc s" "accepts l_fd e" "\<not> hangs_up l_fd rcv e"
      using e by (simp_all add: ep_event_def accepts_def hangs_up_def bad_event_def)
    then show ?thesis using assms
      by (auto simp: accept_event_def taken_in_def ep_law_def case_prod_beta split: option.split)
  next
    case client
    then have "ep_event K l_fd acc rcv e s = client_event K fd (rcv fd) s" "\<not> accepts l_fd e"
      using e by (simp_all add: ep_event_def accepts_def bad_event_def)
    then show ?thesis using assms(1) client e
      by (auto simp: client_event_def ep_law_def hangs_up_def split: read_answer.split list.split)
  qed
qed

lemma ep_event_watch_client:
  "ep_law K watched \<Longrightarrow> \<forall>d. acc = Some d \<longrightarrow> d \<notin> watched (epk s) \<Longrightarrow> acc \<noteq> Some c \<Longrightarrow>
   c \<in> watched (epk (ep_event K l_fd acc rcv e s)) \<longleftrightarrow> c \<in> watched (epk s) \<and> \<not> (fst e = c \<and> hangs_up l_fd rcv e)"
  by (auto simp: ep_event_watched taken_in_def split: option.splits if_splits)

text \<open>Only the event of the listening socket adds a descriptor, and the batch reports it once.\<close>

lemma ep_event_fresh:
  assumes "ep_law K watched" "d \<notin> watched (epk s)" "acc = Some d" "\<not> accepts l_fd e"
  shows "d \<notin> watched (epk (ep_event K l_fd acc rcv e s))"
  using assms by (simp add: ep_event_watched)

lemma ep_batch_no_accept:
  assumes "ep_law K watched" "\<forall>e\<in>set es. \<not> accepts l_fd e"
  shows "watched (epk (ep_batch K l_fd acc rcv es s)) =
    watched (epk s) - fst ` {e \<in> set es. hangs_up l_fd rcv e}"
  using assms(2)
proof (induction es arbitrary: s)
  case (Cons e es)
  have "watched (epk (ep_event K l_fd acc rcv e s)) =
      (if hangs_up l_fd rcv e then watched (epk s) - {fst e} else watched (epk s))"
    using ep_event_watched [OF assms(1), of None s l_fd rcv e] Cons.prems
    by (cases e) (auto simp: ep_event_def accepts_def bad_event_def Let_def)
  then show ?case using Cons by auto
qed simp

lemma ep_batch_watch:
  assumes law: "ep_law K watched" and "distinct (map fst es)" "acc \<noteq> Some c"
    and "\<forall>d. acc = Some d \<longrightarrow> d \<notin> watched (epk s)"
  shows "c \<in> watched (epk (ep_batch K l_fd acc rcv es s)) \<longleftrightarrow>
    c \<in> watched (epk s) \<and> \<not> (\<exists>e\<in>set es. fst e = c \<and> hangs_up l_fd rcv e)"
  using assms(2,4)
proof (induction es arbitrary: s)
  case (Cons e es)
  let ?s = "ep_event K l_fd acc rcv e s"
  have head: "c \<in> watched (epk ?s) \<longleftrightarrow> c \<in> watched (epk s) \<and> \<not> (fst e = c \<and> hangs_up l_fd rcv e)"
    by (rule ep_event_watch_client [OF law Cons.prems(2) assms(3)])
  show ?case
  proof (cases "accepts l_fd e")
    case True
    then have "\<forall>e\<in>set es. \<not> accepts l_fd e" using Cons.prems(1) by (auto simp: accepts_def image_iff)
    then show ?thesis using ep_batch_no_accept [OF law, of es l_fd acc rcv ?s] head by auto
  next
    case False
    then have "\<forall>d. acc = Some d \<longrightarrow> d \<notin> watched (epk ?s)" using ep_event_fresh [OF law] Cons.prems(2) by blast
    then show ?thesis using Cons.IH [of ?s] Cons.prems(1) head by auto
  qed
qed simp

section \<open>Properties\<close>

text \<open>C32: A batch of the \<open>epoll\<close> server echoes every client exactly: for each reported client with data, in
  the order of the batch, the bytes that came go back unchanged, and an old client stops being
  watched exactly when its event was an error or hang-up, the end of file or a failed \<open>recv\<close>.\<close>

theorem epoll_batch_echoes_and_keeps:
  assumes law: "ep_law K watched" and "distinct (map fst es)"
    and fresh: "\<forall>d. acc = Some d \<longrightarrow> d \<notin> watched (epk s)" and old: "acc \<noteq> Some c"
  shows "let t = ep_batch K l_fd acc rcv es s in
    echoes t = echoes s @ concat (map (\<lambda>(fd, evt). if bad_event (fd, evt) \<or> fd = l_fd then []
      else case rcv fd of Delivered (x # xs) \<Rightarrow> [(fd, x # xs)] | _ \<Rightarrow> []) es) \<and>
    (c \<in> watched (epk t) \<longleftrightarrow> c \<in> watched (epk s) \<and>
      \<not> (\<exists>e\<in>set es. fst e = c \<and> hangs_up l_fd rcv e))"
proof -
  have "echo_of l_fd rcv = (\<lambda>(fd, evt). if bad_event (fd, evt) \<or> fd = l_fd then []
      else case rcv fd of Delivered (x # xs) \<Rightarrow> [(fd, x # xs)] | _ \<Rightarrow> [])"
    by (simp add: fun_eq_iff echo_of_def split: read_answer.split list.split)
  then show ?thesis
    using ep_batch_echoes [of K l_fd acc rcv es s] ep_batch_watch [OF law assms(2) old fresh]
    by (simp only: Let_def simp_thms)
qed

text \<open>A kernel that keeps the watched descriptors as a list, for the witnesses.\<close>

definition list_kernel :: "fd list ep_kernel" where
  "list_kernel = \<lparr>ep_add = (\<lambda>fd ev k. (True, fd # k)), ep_del = removeAll, sys_close = removeAll\<rparr>"

lemma list_kernel_law: "ep_law list_kernel set"
  by (simp add: ep_law_def list_kernel_def)

definition demo_epoll :: "fd list ep_server" where
  "demo_epoll = \<lparr>epk = [3, 5, 6], echoes = [], closes = []\<rparr>"

lemma epoll_batch_echoes_and_keeps_witness:
  "let t = ep_batch list_kernel 3 (Some 7) ((\<lambda>c. Delivered [])(5 := Delivered [104, 105]))
       [(3, EPOLLIN), (5, EPOLLIN), (6, EPOLLIN)] demo_epoll
   in echoes t = [(5, [104, 105])] \<and> 6 \<notin> set (epk t)"
proof -
  let ?es = "[(3, EPOLLIN), (5, EPOLLIN), (6, EPOLLIN)]"
  have ev: "\<not> bad_event (fd, EPOLLIN)" for fd by (simp add: bad_event_def epoll_masks)
  show ?thesis
    using epoll_batch_echoes_and_keeps [OF list_kernel_law, of ?es "Some 7" demo_epoll 6 3
        "(\<lambda>c. Delivered [])(5 := Delivered [104, 105])"] ev
    by (simp add: demo_epoll_def hangs_up_def)
qed

text \<open>
  The events of a run come from watched descriptors only.
\<close>

fun reports_watched :: "'k ep_kernel \<Rightarrow> ('k \<Rightarrow> fd set) \<Rightarrow> fd \<Rightarrow> ep_round list \<Rightarrow> 'k ep_server \<Rightarrow> bool" where
  "reports_watched K watched l_fd [] s = True"
| "reports_watched K watched l_fd ((None, acc, rcv) # rs) s = True"
| "reports_watched K watched l_fd ((Some es, acc, rcv) # rs) s =
     (fst ` set es \<subseteq> watched (epk s) \<and> reports_watched K watched l_fd rs (ep_batch K l_fd acc rcv es s))"

lemma ep_loop_unwatched:
  assumes law: "ep_law K watched"
  shows "l_fd \<notin> watched (epk s) \<Longrightarrow> reports_watched K watched l_fd rs s \<Longrightarrow>
    watched (epk (ep_loop K epfd l_fd rs s)) \<subseteq> watched (epk s)"
proof (induction rs arbitrary: s)
  case (Cons r rs)
  obtain b acc rcv where r: "r = (b, acc, rcv)" by (cases r)
  show ?case
  proof (cases b)
    case None
    then show ?thesis using law r by (auto simp: ep_law_def)
  next
    case (Some es)
    let ?t = "ep_batch K l_fd acc rcv es s"
    have "\<forall>e\<in>set es. \<not> accepts l_fd e" using Cons.prems Some r by (auto simp: accepts_def)
    then have "watched (epk ?t) \<subseteq> watched (epk s)"
      using ep_batch_no_accept [OF law, of es l_fd acc rcv s] by blast
    then show ?thesis using Cons.IH [of ?t] Cons.prems Some r by auto
  qed
qed simp

text \<open>One bad event on the listening socket ends the service.  The error branch of the \<open>epoll\<close> server
  closes whatever descriptor the event names, the listening one too; the loop goes on, and from
  then on no client is ever taken in, whatever the kernel reports.\<close>

theorem epoll_listener_lost:
  assumes law: "ep_law K watched" and "distinct (map fst es)" "(l_fd, evt) \<in> set es"
    and "evt AND (EPOLLERR OR EPOLLHUP) \<noteq> 0" "l_fd \<in> watched (epk s)"
    and "reports_watched K watched l_fd ((Some es, acc, rcv) # rs) s"
  shows "watched (epk (ep_loop K epfd l_fd ((Some es, acc, rcv) # rs) s)) \<subseteq> watched (epk s) - {l_fd}"
proof -
  let ?t = "ep_batch K l_fd acc rcv es s"
  have bad: "bad_event (l_fd, evt)" using assms(4) by (simp add: bad_event_def)
  have "e = (l_fd, evt)" if "e \<in> set es" "fst e = l_fd" for e
    using that assms(2,3) by (metis eq_key_imp_eq_value prod.collapse)
  then have "\<forall>e\<in>set es. \<not> accepts l_fd e" using bad by (auto simp: accepts_def)
  then have "watched (epk ?t) = watched (epk s) - fst ` {e \<in> set es. hangs_up l_fd rcv e}"
    by (rule ep_batch_no_accept [OF law])
  moreover have "l_fd \<in> fst ` {e \<in> set es. hangs_up l_fd rcv e}"
    using assms(3) bad by (force simp: hangs_up_def)
  ultimately have t: "watched (epk ?t) \<subseteq> watched (epk s) - {l_fd}" by blast
  moreover have "watched (epk (ep_loop K epfd l_fd rs ?t)) \<subseteq> watched (epk ?t)"
    using t assms(6) by (intro ep_loop_unwatched [OF law]) auto
  ultimately show ?thesis by (simp only: ep_loop.simps)
qed

lemma epoll_listener_lost_witness:
  "set (epk (ep_loop list_kernel 4 3 [(Some [(3, EPOLLHUP)], None, \<lambda>c. Delivered [1]),
     (Some [(5, EPOLLIN)], Some 8, \<lambda>c. Delivered [1])] demo_epoll)) \<subseteq> {5, 6}"
proof -
  let ?rs = "[(Some [(5::int, EPOLLIN)], Some 8, \<lambda>c. Delivered [1])] :: ep_round list"
  have "reports_watched list_kernel set 3 ((Some [(3, EPOLLHUP)], None, \<lambda>c. Delivered [1]) # ?rs) demo_epoll"
    by (simp add: demo_epoll_def ep_event_def epoll_masks ep_close_def list_kernel_def)
  then show ?thesis
    using epoll_listener_lost [OF list_kernel_law, of "[(3, EPOLLHUP)]" 3 EPOLLHUP demo_epoll None
        "\<lambda>c. Delivered [1]" ?rs 4]
    by (auto simp add: demo_epoll_def epoll_masks simp del: ep_loop.simps)
qed

end
