(* ===== verification/Thread_Server.thy ===== *)
theory Thread_Server
  imports Prelude
begin

text \<open>
  The stage with one thread per connection (\<open>oneThread2oneFd/server.cpp\<close>).  A thread prints what
  it receives as a C string and sends it back.
\<close>

section \<open>The thread of a connection\<close>

text \<open>
  The loop of the lambda over the answers of \<open>recv\<close>: what it prints, what it sends back, and
  whether it has closed the socket.  The buffer is cleared once, before the loop.
\<close>

record thread_io =
  printed :: "byte list list"
  returned :: "byte list"
  hung_up :: bool

fun handle_client :: "byte list \<Rightarrow> read_answer list \<Rightarrow> thread_io \<Rightarrow> thread_io res" where
  "handle_client buffer [] out = Inr out"
| "handle_client buffer (ans # answers) out = (case ans of
     Delivered (x # xs) \<Rightarrow>
       bind_res (store buffer 0 (x # xs)) (\<lambda>buffer.
       bind_res (c_string buffer) (\<lambda>text.
       bind_res (load buffer 0 (length (x # xs))) (\<lambda>data.
       handle_client buffer answers
         (out\<lparr>printed := printed out @ [text], returned := returned out @ data\<rparr>))))
   | _ \<Rightarrow> Inr (out\<lparr>hung_up := True\<rparr>))"

definition start_client :: "read_answer list \<Rightarrow> thread_io res" where
  "start_client answers =
     handle_client (replicate 1024 0) answers \<lparr>printed = [], returned = [], hung_up = False\<rparr>"

text \<open>The accept loop: a failed \<open>accept\<close> returns -1, which is kept and given a thread like any other.\<close>

fun accept_loop :: "fd option list \<Rightarrow> fd list \<Rightarrow> fd list" where
  "accept_loop [] connections = connections"
| "accept_loop (acc # accs) connections =
     accept_loop accs (connections @ [case acc of Some new_socket \<Rightarrow> new_socket | None \<Rightarrow> - 1])"

text \<open>The start of \<open>main\<close> tests none of its calls: without a socket the descriptor is -1.\<close>

definition thread_open :: "fd option \<Rightarrow> fd" where
  "thread_open sock = (case sock of Some server_fd \<Rightarrow> server_fd | None \<Rightarrow> - 1)"

section \<open>Lemmas\<close>

text \<open>Without a socket every \<open>accept\<close> fails, and the loop keeps starting threads on the descriptor -1.\<close>

lemma accept_loop_spins: "accept_loop (replicate n None) connections = connections @ replicate n (- 1)"
proof (induction n arbitrary: connections)
  case (Suc n)
  then show ?case by simp
qed simp

text \<open>A chunk of at most 1023 bytes leaves the last null of the buffer in place.\<close>

lemma store_front:
  assumes "length buffer = 1024" "buffer ! 1023 = 0" "length data \<le> 1023"
  shows "store buffer 0 data = Inr (data @ drop (length data) buffer)"
    and "(data @ drop (length data) buffer) ! 1023 = 0" "0 \<in> set (data @ drop (length data) buffer)"
    and "load (data @ drop (length data) buffer) 0 (length data) = Inr data"
proof -
  show last: "(data @ drop (length data) buffer) ! 1023 = 0" using assms by (simp add: nth_append)
  have "length (data @ drop (length data) buffer) = 1024" using assms by simp
  then show "0 \<in> set (data @ drop (length data) buffer)"
    using last nth_mem [of 1023 "data @ drop (length data) buffer"] by simp
  show "store buffer 0 data = Inr (data @ drop (length data) buffer)"
    "load (data @ drop (length data) buffer) 0 (length data) = Inr data"
    using assms by (simp_all add: store_def load_def)
qed

lemma handle_client_chunks:
  assumes "length buffer = 1024" "buffer ! 1023 = 0" "\<forall>data\<in>set chunks. data \<noteq> [] \<and> length data \<le> 1023"
  shows "\<exists>out'. handle_client buffer (map Delivered chunks @ rest) out =
      handle_client (fold (\<lambda>data b. data @ drop (length data) b) chunks buffer) rest out' \<and>
    returned out' = returned out @ concat chunks \<and> hung_up out' = hung_up out \<and>
    length (printed out') = length (printed out) + length chunks"
  using assms
proof (induction chunks arbitrary: buffer out)
  case (Cons data chunks)
  then obtain x xs where data: "data = x # xs" by (cases data) auto
  let ?b = "data @ drop (length data) buffer"
  let ?o = "out\<lparr>printed := printed out @ [takeWhile (\<lambda>x. x \<noteq> 0) ?b], returned := returned out @ data\<rparr>"
  note st = store_front [OF Cons.prems(1,2), of data]
  have len: "length data \<le> 1023" using Cons.prems(3) by simp
  have "c_string ?b = Inr (takeWhile (\<lambda>x. x \<noteq> 0) ?b)" using st(3) [OF len] by (simp add: c_string_def)
  then have "handle_client buffer (map Delivered (data # chunks) @ rest) out =
      handle_client ?b (map Delivered chunks @ rest) ?o"
    using st(1,4) [OF len] unfolding data by (simp del: takeWhile.simps)
  moreover have "length ?b = 1024" using Cons.prems(1) len by simp
  ultimately show ?case using Cons.IH [of ?b ?o] st(2) [OF len] Cons.prems(3)
    by (auto simp del: handle_client.simps)
qed auto

section \<open>Properties\<close>

text \<open>A thread of the third stage returns every byte.  As long as no \<open>recv\<close> fills the whole buffer, the
  thread sends back exactly the bytes of all chunks in order, prints once per chunk, and closes
  the socket at the end of file.\<close>

theorem thread_returns_every_byte:
  assumes "\<forall>data\<in>set chunks. data \<noteq> [] \<and> length data \<le> 1023"
  shows "\<exists>out. start_client (map Delivered chunks @ [Delivered []]) = Inr out \<and>
    returned out = concat chunks \<and> hung_up out \<and> length (printed out) = length chunks"
proof -
  obtain out where "start_client (map Delivered chunks @ [Delivered []]) =
      handle_client (fold (\<lambda>data b. data @ drop (length data) b) chunks (replicate 1024 0)) [Delivered []] out"
    "returned out = concat chunks" "length (printed out) = length chunks"
    using handle_client_chunks [of "replicate 1024 0" chunks "[Delivered []]"
        "\<lparr>printed = [], returned = [], hung_up = False\<rparr>"] assms
    by (auto simp: start_client_def simp del: handle_client.simps)
  then show ?thesis by simp
qed

lemma thread_returns_every_byte_witness:
  "\<exists>out. start_client (map Delivered [[104, 105], [33]] @ [Delivered []]) = Inr out \<and> returned out = [104, 105, 33]"
  using thread_returns_every_byte [of "[[104, 105], [33]]"] by auto

text \<open>The thread prints what is not there.  A chunk shorter than an earlier one is printed with the tail of
  the earlier one behind it, because the buffer is cleared only once.\<close>

theorem thread_prints_stale_text:
  assumes "data2 \<noteq> []" "length data2 < length data1" "length data1 \<le> 1023" "0 \<notin> set (data1 @ data2)"
  shows "map_option printed (case start_client [Delivered data1, Delivered data2] of Inl e \<Rightarrow> None | Inr out \<Rightarrow> Some out) =
    Some [data1, data2 @ drop (length data2) data1]"
proof -
  obtain x xs where d1: "data1 = x # xs" using assms(2) by (cases data1) auto
  obtain y ys where d2: "data2 = y # ys" using assms(1) by (cases data2) auto
  let ?b = "data1 @ replicate (1024 - length data1) (0::byte)"
  have rest: "drop (length data2) ?b = drop (length data2) data1 @ replicate (1024 - length data1) 0"
    using assms(2) by simp
  have nz: "0 \<notin> set (data2 @ drop (length data2) data1)"
    using assms(4) by (auto dest: in_set_dropD)
  have st: "store (replicate 1024 0) 0 data1 = Inr ?b" "load ?b 0 (length data1) = Inr data1"
    "store ?b 0 data2 = Inr ((data2 @ drop (length data2) data1) @ replicate (1024 - length data1) 0)"
    "load ((data2 @ drop (length data2) data1) @ replicate (1024 - length data1) 0) 0 (length data2) = Inr data2"
    using assms(2,3) rest by (simp_all add: store_def load_def)
  have cs: "c_string ?b = Inr data1"
    "c_string ((data2 @ drop (length data2) data1) @ replicate (1024 - length data1) 0) =
      Inr (data2 @ drop (length data2) data1)"
    using assms(3,4) nz by (simp_all del: append_assoc)
  show ?thesis
    using st cs unfolding start_client_def d1 d2 by simp
qed

lemma thread_prints_stale_text_witness:
  "map_option printed (case start_client [Delivered [65, 66, 67], Delivered [68]] of Inl e \<Rightarrow> None | Inr out \<Rightarrow> Some out) =
    Some [[65, 66, 67], [68, 66, 67]]"
  using thread_prints_stale_text [of "[68]" "[65, 66, 67]"] by simp

text \<open>A full buffer is printed past its end: a chunk of 1024 bytes without a null makes the thread read
  beyond the array.\<close>

theorem thread_overreads_full_buffer:
  assumes "length data = 1024" "0 \<notin> set data"
  shows "start_client (Delivered data # answers) = Inl OutOfBounds"
proof -
  obtain x xs where d: "data = x # xs" using assms(1) by (cases data) auto
  show ?thesis using assms unfolding start_client_def d by (simp add: store_def c_string_def)
qed

lemma thread_overreads_full_buffer_witness:
  "start_client [Delivered (replicate 1024 65)] = Inl OutOfBounds"
  using thread_overreads_full_buffer [of "replicate 1024 65" "[]"] by simp

end
