(* ===== verification/Console_Clients.thy ===== *)
theory Console_Clients
  imports Prelude
begin

text \<open>
  The console clients of the four stages (\<open>epoll/client.cpp\<close>, \<open>select/client.cpp\<close>,
  \<open>oneThread2oneFd/client.cpp\<close>, \<open>reactor/client.cpp\<close>).  They share one loop and differ in the
  line that ends them, in what they print, and in how they treat a failing start.  The answers
  of \<open>socket\<close>, \<open>connect\<close> and \<open>recv\<close> are arguments; the result of \<open>send\<close> is ignored by the code,
  and the prompts are left out.
\<close>

section \<open>The loop\<close>

text \<open>
  A client reads a line (an end of the input reads as an empty one), sends it and waits for one
  answer.  A \<open>recv\<close> for which no answer is left blocks.  \<open>is_quit\<close> tells the line that ends the
  client, \<open>fmt\<close> what it prints for an answer.
\<close>

datatype client_end = AwaitsInput | UserQuit | ServerClosed | RecvFailed | BlockedInRecv

fun client_loop :: "(byte list \<Rightarrow> bool) \<Rightarrow> (byte list \<Rightarrow> byte list \<Rightarrow> byte list) \<Rightarrow> byte list list \<Rightarrow>
    read_answer list \<Rightarrow> (byte list list \<times> byte list list \<times> client_end) res" where
  "client_loop is_quit fmt [] answers = Inr ([], [], AwaitsInput)"
| "client_loop is_quit fmt (message # messages) answers =
     (if is_quit message then Inr ([], [], UserQuit)
      else case answers of
        [] \<Rightarrow> Inr ([message], [], BlockedInRecv)
      | Delivered (x # xs) # answers \<Rightarrow>
          bind_res (c_string (x # xs @ replicate (1024 - length (x # xs)) 0)) (\<lambda>text.
          bind_res (client_loop is_quit fmt messages answers) (\<lambda>(sent, shown, e).
          Inr (message # sent, fmt (x # xs) text # shown, e)))
      | Delivered [] # answers \<Rightarrow> Inr ([message], [], ServerClosed)
      | ReadFail e # answers \<Rightarrow> Inr ([message], [], RecvFailed))"

definition quit_line :: "byte list" where
  "quit_line = [113, 117, 105, 116]"

definition echo_line :: "byte list \<Rightarrow> byte list" where
  "echo_line text = bytes_of ''Echo: '' @ text @ [10]"

definition epoll_client :: "byte list list \<Rightarrow> read_answer list \<Rightarrow>
    (byte list list \<times> byte list list \<times> client_end) res" where
  "epoll_client = client_loop (\<lambda>m. m = quit_line) (\<lambda>data text. echo_line text)"

definition select_client :: "byte list list \<Rightarrow> read_answer list \<Rightarrow>
    (byte list list \<times> byte list list \<times> client_end) res" where
  "select_client = client_loop (\<lambda>m. m = quit_line) (\<lambda>data text. echo_line text)"

definition thread_client :: "byte list list \<Rightarrow> read_answer list \<Rightarrow>
    (byte list list \<times> byte list list \<times> client_end) res" where
  "thread_client = client_loop (\<lambda>m. False)
     (\<lambda>data text. bytes_of ''Received from server: '' @ text @ [10])"

definition reactor_client :: "byte list list \<Rightarrow> read_answer list \<Rightarrow>
    (byte list list \<times> byte list list \<times> client_end) res" where
  "reactor_client = client_loop (\<lambda>m. m = quit_line)
     (\<lambda>data text. bytes_of ''Echo: '' @ text @ (if last data \<noteq> 10 then [10] else []))"

section \<open>The programs\<close>

text \<open>
  A whole run: what was sent and shown, the descriptors closed, and the value that \<open>main\<close>
  returned, if it has.  \<open>checked_main\<close> is the start of the \<open>epoll\<close> and \<open>reactor\<close> clients, which test
  the socket and close it; \<open>unchecked_main\<close> that of the two older ones.
\<close>

record client_run =
  run_sent :: "byte list list"
  run_shown :: "byte list list"
  run_closed :: "fd list"
  run_exit :: "int option"

definition failed_run :: "fd list \<Rightarrow> client_run" where
  "failed_run fds = \<lparr>run_sent = [], run_shown = [], run_closed = fds, run_exit = Some (- 1)\<rparr>"

definition end_run :: "fd \<Rightarrow> byte list list \<times> byte list list \<times> client_end \<Rightarrow> client_run" where
  "end_run client_fd r = (case r of (sent, shown, e) \<Rightarrow>
     if e = AwaitsInput \<or> e = BlockedInRecv
     then \<lparr>run_sent = sent, run_shown = shown, run_closed = [], run_exit = None\<rparr>
     else \<lparr>run_sent = sent, run_shown = shown, run_closed = [client_fd], run_exit = Some 0\<rparr>)"

definition checked_main :: "(byte list list \<times> byte list list \<times> client_end) res \<Rightarrow> fd option \<Rightarrow> bool \<Rightarrow>
    client_run res" where
  "checked_main session sock connects = (case sock of
     None \<Rightarrow> Inr (failed_run [])
   | Some client_fd \<Rightarrow>
       if \<not> connects then Inr (failed_run [client_fd])
       else bind_res session (\<lambda>r. Inr (end_run client_fd r)))"

definition unchecked_main :: "(byte list list \<times> byte list list \<times> client_end) res \<Rightarrow> fd option \<Rightarrow> bool \<Rightarrow>
    client_run res" where
  "unchecked_main session sock connects =
     (let client_fd = (case sock of Some fd \<Rightarrow> fd | None \<Rightarrow> - 1) in
      if sock = None \<or> \<not> connects then Inr (failed_run [])
      else bind_res session (\<lambda>r. Inr (end_run client_fd r)))"

definition epoll_client_main :: "fd option \<Rightarrow> bool \<Rightarrow> byte list list \<Rightarrow> read_answer list \<Rightarrow> client_run res" where
  "epoll_client_main sock connects messages answers = checked_main (epoll_client messages answers) sock connects"

definition reactor_client_main :: "fd option \<Rightarrow> bool \<Rightarrow> byte list list \<Rightarrow> read_answer list \<Rightarrow> client_run res" where
  "reactor_client_main sock connects messages answers = checked_main (reactor_client messages answers) sock connects"

definition select_client_main :: "fd option \<Rightarrow> bool \<Rightarrow> byte list list \<Rightarrow> read_answer list \<Rightarrow> client_run res" where
  "select_client_main sock connects messages answers = unchecked_main (select_client messages answers) sock connects"

definition thread_client_main :: "fd option \<Rightarrow> bool \<Rightarrow> byte list list \<Rightarrow> read_answer list \<Rightarrow> client_run res" where
  "thread_client_main sock connects messages answers = unchecked_main (thread_client messages answers) sock connects"

section \<open>Lemmas\<close>

lemma client_loop_shows:
  "\<forall>d\<in>set answers. d \<noteq> [] \<and> length d \<le> 1024 \<Longrightarrow> length messages = length answers \<Longrightarrow>
   \<forall>m\<in>set messages. \<not> is_quit m \<Longrightarrow>
   \<forall>d\<in>set answers. c_string (d @ replicate (1024 - length d) 0) = Inr (text d) \<Longrightarrow>
   client_loop is_quit fmt messages (map Delivered answers) =
     Inr (messages, map (\<lambda>d. fmt d (text d)) answers, AwaitsInput)"
proof (induction answers arbitrary: messages)
  case (Cons d answers)
  then obtain m ms x xs where [simp]: "messages = m # ms" "d = x # xs" by (cases messages; cases d) auto
  show ?case using Cons by simp
qed simp

text \<open>A client that has ended has closed what it opened, once; one that waits has closed nothing.\<close>

lemma epoll_client_main_closes:
  "epoll_client_main (Some fd) connects messages answers = Inr r \<Longrightarrow>
   run_closed r = (if run_exit r = None then [] else [fd])"
  by (auto simp: epoll_client_main_def checked_main_def failed_run_def end_run_def bind_res_eq_Inr
      split: if_splits prod.splits)

text \<open>The two older clients leave the socket of a failed \<open>connect\<close> open.\<close>

lemma select_client_main_leaks:
  "select_client_main (Some fd) False messages answers = Inr (failed_run [])"
  by (simp add: select_client_main_def unchecked_main_def)

section \<open>Properties\<close>

text \<open>An empty line blocks a client for ever.  \<open>send\<close> of no bytes sends nothing, so a server that answers only
  what it received never answers, and the client waits in \<open>recv\<close> whatever the user types next.\<close>

theorem empty_line_blocks_client:
  assumes "\<forall>m\<in>set lines. m \<noteq> [] \<and> m \<noteq> quit_line \<and> length m \<le> 1023 \<and> 0 \<notin> set m"
    and "reply = (\<lambda>m. if m = [] then [] else [Delivered m])"
  shows "epoll_client_main (Some fd) True (lines @ [] # later) (concat (map reply lines) @ reply []) =
    Inr \<lparr>run_sent = lines @ [[]], run_shown = map echo_line lines, run_closed = [], run_exit = None\<rparr>"
proof -
  have "client_loop (\<lambda>m. m = quit_line) (\<lambda>data text. echo_line text) (lines @ [] # later) (map Delivered lines) =
      Inr (lines @ [[]], map echo_line lines, BlockedInRecv)"
    using assms(1)
  proof (induction lines)
    case (Cons m lines)
    then obtain x xs where m: "m = x # xs" by (cases m) auto
    have "c_string (x # xs @ replicate (1024 - length (x # xs)) 0) = Inr (x # xs)"
      using Cons.prems c_string_padded [of m "1024 - length m"] by (simp add: m)
    then show ?case using Cons by (simp add: m del: c_string_padded)
  qed (simp add: quit_line_def)
  moreover have "concat (map reply lines) @ reply [] = map Delivered lines"
    using assms by (induction lines) auto
  ultimately show ?thesis
    by (simp add: epoll_client_main_def checked_main_def epoll_client_def end_run_def)
qed

lemma empty_line_blocks_client_witness:
  "\<exists>r. epoll_client_main (Some 3) True [[104, 105], [], [33]] [Delivered [104, 105]] = Inr r \<and> run_exit r = None"
  using empty_line_blocks_client [of "[[104, 105]]" "\<lambda>m. if m = [] then [] else [Delivered m]" 3 "[[33]]"]
  by (simp add: quit_line_def)

end
