(* ===== verification/Perf_Client.thy ===== *)
theory Perf_Client
  imports Number_Text Complex_Main
begin

text \<open>
  The benchmark client (\<open>benchmark/perf_client.cpp\<close>): the statistics over the latencies, the
  request loop of one connection, and the totals of the main program.  A \<open>double\<close> is a real
  number here; the rounding of floating point is left out.
\<close>

section \<open>Statistics\<close>

record stats =
  count :: nat
  avg_us :: real
  min_us :: real
  max_us :: real
  p50_us :: real
  p95_us :: real
  p99_us :: real

text \<open>\<open>std::round\<close> rounds halves away from zero.\<close>

definition std_round :: "real \<Rightarrow> int" where
  "std_round x = (if x < 0 then - \<lfloor>1 / 2 - x\<rfloor> else \<lfloor>x + 1 / 2\<rfloor>)"

text \<open>The lambda \<open>p\<close>, on the sorted vector.\<close>

definition percentile :: "real list \<Rightarrow> real \<Rightarrow> real" where
  "percentile us q = us ! nat (std_round (q * real (length us - 1)))"

definition calc_stats :: "real list \<Rightarrow> stats \<times> real list" where
  "calc_stats us = (if us = []
     then (\<lparr>count = 0, avg_us = 0, min_us = 0, max_us = 0, p50_us = 0, p95_us = 0, p99_us = 0\<rparr>, us)
     else let us = sort us; n = length us; sum = foldl (+) 0 us in
       (\<lparr>count = n, avg_us = sum / real n, min_us = hd us, max_us = last us,
         p50_us = percentile us (50 / 100), p95_us = percentile us (95 / 100),
         p99_us = percentile us (99 / 100)\<rparr>, us))"

section \<open>The request loop of a connection\<close>

text \<open>
  The answers of \<open>send\<close> and \<open>recv\<close> are lists; where a list has ended the call blocks.  The flag
  \<open>Some True\<close> says that the whole echo is there, \<open>Some False\<close> that \<open>recv\<close> ended it, \<open>None\<close> that
  the client waits.
\<close>

datatype bench_end = AllDone | SendEnded | RecvEnded | StillWaiting

fun recv_echo :: "nat \<Rightarrow> nat \<Rightarrow> read_answer list \<Rightarrow> bool option \<times> read_answer list" where
  "recv_echo msg_size total_recv [] = (if total_recv < msg_size then None else Some True, [])"
| "recv_echo msg_size total_recv (ans # answers) =
     (if total_recv < msg_size
      then (case ans of
          Delivered (x # xs) \<Rightarrow> recv_echo msg_size (total_recv + length (x # xs)) answers
        | _ \<Rightarrow> (Some False, answers))
      else (Some True, ans # answers))"

fun bench_loop :: "(nat \<Rightarrow> real) \<Rightarrow> nat \<Rightarrow> nat \<Rightarrow> nat \<Rightarrow> io_answer list \<Rightarrow> read_answer list \<Rightarrow> real list \<times> bench_end" where
  "bench_loop clock msg_size i 0 sends recvs = ([], AllDone)"
| "bench_loop clock msg_size i (Suc left) sends recvs = (case sends of
     [] \<Rightarrow> ([], StillWaiting)
   | Done (Suc sent) # sends \<Rightarrow>
       (case recv_echo msg_size 0 recvs of
          (None, recvs) \<Rightarrow> ([], StillWaiting)
        | (Some False, recvs) \<Rightarrow> ([], RecvEnded)
        | (Some True, recvs) \<Rightarrow>
            (let (latencies, e) = bench_loop clock msg_size (Suc i) left sends recvs
             in ((clock (2 * i + 1) - clock (2 * i)) # latencies, e)))
   | _ \<Rightarrow> ([], SendEnded))"

text \<open>
  A negative size or count throws out of the thread function, from the constructor of the
  payload or from \<open>reserve\<close>, and ends the process.
\<close>

definition bench_connection :: "bool \<Rightarrow> (nat \<Rightarrow> real) \<Rightarrow> int \<Rightarrow> int \<Rightarrow> io_answer list \<Rightarrow> read_answer list \<Rightarrow>
    (real list \<times> bench_end) res" where
  "bench_connection is_open clock msgs msg_size sends recvs =
     (if \<not> is_open then Inr ([], AllDone)
      else if msg_size < 0 \<or> msgs < 0 then Inl StdTerminate
      else Inr (bench_loop clock (nat msg_size) 0 (nat msgs) sends recvs))"

section \<open>The program\<close>

text \<open>\<open>tcp_connect\<close>: the descriptor it returns and those it closes.\<close>

definition tcp_connect :: "fd option \<Rightarrow> bool \<Rightarrow> fd \<times> fd list" where
  "tcp_connect sock connects = (case sock of
     None \<Rightarrow> (- 1, [])
   | Some fd \<Rightarrow> if \<not> connects then (- 1, [fd]) else (fd, []))"

text \<open>The totals: all latencies, and how many requests are missing when some are.\<close>

definition collect :: "real list list \<Rightarrow> real list" where
  "collect results = concat results"

definition missing_requests :: "int \<Rightarrow> int \<Rightarrow> real list list \<Rightarrow> nat option" where
  "missing_requests connections msgs_per_conn results =
     (let expected = nat ((connections * msgs_per_conn) mod 2 ^ 64); ok_total = sum_list (map length results) in
      if ok_total < expected then Some (expected - ok_total) else None)"

text \<open>
  The two outputs as the list of their fields; a real number carries the precision it is printed
  with.  The titles of the fields are left out.  The product of \<open>count\<close> and \<open>msg_size\<close> is a \<open>size_t\<close>.
\<close>

datatype field = TextField string | IntField int | RealField nat real

definition bandwidth :: "nat \<Rightarrow> int \<Rightarrow> real \<Rightarrow> real" where
  "bandwidth n msg_size elapsed_s =
     real_of_int ((int n * msg_size) mod 2 ^ 64) / (elapsed_s * 1024 * 1024)"

definition report_values :: "string \<Rightarrow> int \<Rightarrow> int \<Rightarrow> int \<Rightarrow> real \<Rightarrow> real list \<Rightarrow> field list \<times> real list" where
  "report_values title connections msgs_per_conn msg_size elapsed_s latencies =
     (let (s, sorted_latencies) = calc_stats latencies in
      ([TextField title, IntField connections, IntField msgs_per_conn, IntField msg_size,
        IntField (int (count s)), RealField 2 elapsed_s, RealField 0 (real (count s) / elapsed_s),
        RealField 2 (bandwidth (count s) msg_size elapsed_s),
        RealField 1 (avg_us s), RealField 1 (min_us s), RealField 1 (max_us s),
        RealField 1 (p50_us s), RealField 1 (p95_us s), RealField 1 (p99_us s)], sorted_latencies))"

definition csv_values :: "string \<Rightarrow> int \<Rightarrow> int \<Rightarrow> int \<Rightarrow> real \<Rightarrow> real list \<Rightarrow> field list \<times> real list" where
  "csv_values model connections msgs_per_conn msg_size elapsed_s latencies =
     (let (s, sorted_latencies) = calc_stats latencies in
      ([TextField model, IntField connections, IntField msgs_per_conn, IntField msg_size,
        RealField 3 elapsed_s, RealField 0 (real (count s) / elapsed_s),
        RealField 2 (bandwidth (count s) msg_size elapsed_s),
        RealField 1 (avg_us s), RealField 1 (min_us s), RealField 1 (max_us s),
        RealField 1 (p50_us s), RealField 1 (p95_us s), RealField 1 (p99_us s),
        IntField (int (count s))], sorted_latencies))"

text \<open>
  \<open>main\<close>.  The arguments are those behind the program's name; \<open>stoi\<close> may throw.  \<open>link i\<close> gives the
  answers that thread \<open>i\<close> meets: whether it connects, its clock, and those of \<open>send\<close> and \<open>recv\<close>.
\<close>

definition option_value :: "nat \<Rightarrow> int \<Rightarrow> string list \<Rightarrow> int res" where
  "option_value i v0 args = (if i < length args
     then (case stoi (args ! i) of None \<Rightarrow> Inl StdTerminate | Some v \<Rightarrow> Inr v) else Inr v0)"

definition bench_options :: "string list \<Rightarrow> (int \<times> int \<times> int) res" where
  "bench_options args =
     bind_res (option_value 0 10 args) (\<lambda>connections.
     bind_res (option_value 1 500 args) (\<lambda>msgs_per_conn.
     bind_res (option_value 2 64 args) (\<lambda>msg_size.
     Inr (connections, msgs_per_conn, msg_size))))"

type_synonym bench_link = "bool \<times> (nat \<Rightarrow> real) \<times> io_answer list \<times> read_answer list"

fun bench_threads :: "(nat \<Rightarrow> bench_link) \<Rightarrow> int \<Rightarrow> int \<Rightarrow> nat list \<Rightarrow> (real list \<times> bench_end) list res" where
  "bench_threads link msgs_per_conn msg_size [] = Inr []"
| "bench_threads link msgs_per_conn msg_size (i # is) = (case link i of (is_open, clock, sends, recvs) \<Rightarrow>
     bind_res (bench_connection is_open clock msgs_per_conn msg_size sends recvs) (\<lambda>r.
     bind_res (bench_threads link msgs_per_conn msg_size is) (\<lambda>rs. Inr (r # rs))))"

datatype bench_outcome = ServerMissing | JoinWaits | Reported "field list" "field list" "nat option"

definition bench_main :: "string list \<Rightarrow> fd \<Rightarrow> (nat \<Rightarrow> bench_link) \<Rightarrow> real \<Rightarrow> bench_outcome res" where
  "bench_main args probe link elapsed =
     bind_res (bench_options args) (\<lambda>(connections, msgs_per_conn, msg_size).
     if probe < 0 then Inr ServerMissing
     else if connections < 0 then Inl StdTerminate
     else bind_res (bench_threads link msgs_per_conn msg_size [0..<nat connections]) (\<lambda>rs.
       if StillWaiting \<in> set (map snd rs) then Inr JoinWaits
       else let results = map fst rs;
                (shown, latencies) = report_values ''Benchmark Result'' connections msgs_per_conn msg_size
                   elapsed (collect results);
                (csv, latencies) = csv_values ''server'' connections msgs_per_conn msg_size elapsed latencies
            in Inr (Reported shown csv (missing_requests connections msgs_per_conn results))))"

section \<open>Lemmas\<close>

lemma std_round_bounds:
  "0 \<le> x \<Longrightarrow> x - 1 / 2 < real_of_int (std_round x) \<and> real_of_int (std_round x) \<le> x + 1 / 2"
  by (simp add: std_round_def) linarith

lemma std_round_mono: "0 \<le> x \<Longrightarrow> x \<le> y \<Longrightarrow> std_round x \<le> std_round y"
  by (simp add: std_round_def floor_mono)

lemma std_round_nat [simp]: "std_round (real n) = int n"
  by (simp add: std_round_def)

text \<open>The index of a percentile, and that it is one of the sorted vector.\<close>

definition rank :: "nat \<Rightarrow> real \<Rightarrow> nat" where
  "rank n q = nat (std_round (q * real (n - 1)))"

lemma rank_mono: "0 \<le> q \<Longrightarrow> q \<le> r \<Longrightarrow> rank n q \<le> rank n r"
  unfolding rank_def by (intro nat_mono std_round_mono) (simp_all add: mult_right_mono)

lemma rank_less: "0 \<le> q \<Longrightarrow> q \<le> 1 \<Longrightarrow> 0 < n \<Longrightarrow> rank n q < n"
proof -
  assume q: "0 \<le> q" "q \<le> 1" "0 < n"
  have "rank n 1 = n - 1" unfolding rank_def mult_1 std_round_nat by simp
  then show ?thesis using rank_mono [OF q(1,2), of n] q(3) by linarith
qed

lemma rank_bounds:
  assumes "0 \<le> q"
  shows "q * real (n - 1) - 1 / 2 \<le> real (rank n q)" "real (rank n q) \<le> q * real (n - 1) + 1 / 2"
proof -
  let ?x = "q * real (n - 1)"
  have "0 \<le> ?x" using assms by simp
  note b = std_round_bounds [OF this]
  have "-1 < std_round ?x" using b \<open>0 \<le> ?x\<close> by linarith
  then have "real (rank n q) = real_of_int (std_round ?x)" by (simp add: rank_def)
  then show "?x - 1 / 2 \<le> real (rank n q)" "real (rank n q) \<le> ?x + 1 / 2" using b by simp_all
qed

text \<open>In a sorted list the element at index \<open>i\<close> splits the list.\<close>

lemma sorted_split:
  assumes "sorted xs" "i < length xs"
  shows "Suc i \<le> length (filter (\<lambda>x. x \<le> xs ! i) xs)" "length xs - i \<le> length (filter (\<lambda>x. xs ! i \<le> x) xs)"
proof -
  have up: "\<forall>x\<in>set (take (Suc i) xs). x \<le> xs ! i" and down: "\<forall>x\<in>set (drop i xs). xs ! i \<le> x"
    using assms by (auto simp: in_set_conv_nth sorted_iff_nth_mono)
  have "length (filter (\<lambda>x. x \<le> xs ! i) (take (Suc i) xs @ drop (Suc i) xs)) \<ge> length (take (Suc i) xs)"
    using up by (simp del: append_take_drop_id)
  then show "Suc i \<le> length (filter (\<lambda>x. x \<le> xs ! i) xs)" using assms(2) by simp
  have "length (filter (\<lambda>x. xs ! i \<le> x) (take i xs @ drop i xs)) \<ge> length (drop i xs)"
    using down by (simp del: append_take_drop_id)
  then show "length xs - i \<le> length (filter (\<lambda>x. xs ! i \<le> x) xs)" by simp
qed

lemma percentile_rank: "percentile us q = us ! rank (length us) q"
  by (simp add: percentile_def rank_def)

text \<open>A percentile of a sorted sample: its share of the sample lies on either side.\<close>

definition splits_at :: "real \<Rightarrow> real \<Rightarrow> real list \<Rightarrow> bool" where
  "splits_at q p us \<longleftrightarrow> p \<in> set us \<and>
     q * real (length us - 1) + 1 / 2 \<le> real (length (filter (\<lambda>x. x \<le> p) us)) \<and>
     (1 - q) * real (length us - 1) + 1 / 2 \<le> real (length (filter (\<lambda>x. p \<le> x) us))"

lemma percentile_splits:
  assumes "sorted us" "us \<noteq> []" "0 \<le> q" "q \<le> 1"
  shows "splits_at q (percentile us q) us"
proof -
  let ?n = "length us" and ?i = "rank (length us) q"
  have i: "?i < ?n" using rank_less assms by simp
  note b = rank_bounds [OF assms(3), of ?n] and s = sorted_split [OF assms(1) i]
  have "(1 - q) * real (?n - 1) + 1 / 2 \<le> real (?n - ?i)"
    using b(2) i assms(2) by (simp add: of_nat_diff left_diff_distrib)
  moreover have "q * real (?n - 1) + 1 / 2 \<le> real (Suc ?i)" using b(1) by simp
  ultimately show ?thesis
    using s i of_nat_mono [OF s(1), where 'a = real] of_nat_mono [OF s(2), where 'a = real]
    unfolding splits_at_def percentile_rank by auto
qed

lemma foldl_sum: "foldl (+) (a::real) us = a + sum_list us"
  by (induction us arbitrary: a) simp_all

lemma sum_list_between:
  "\<forall>x\<in>set us. a \<le> x \<and> x \<le> b \<Longrightarrow>
   real (length us) * a \<le> sum_list us \<and> sum_list us \<le> real (length us) * (b::real)"
  by (induction us) (auto simp: algebra_simps)

section \<open>Properties\<close>

text \<open>The reported percentiles are percentiles.  For every sample, sorted or not, the three values are
  latencies of the sample with the promised share of it on either side, they are in order
  between the minimum and the maximum, and so is the average.\<close>

theorem reported_percentiles:
  assumes "us \<noteq> []"
  shows "let s = fst (calc_stats us) in
    splits_at (50 / 100) (p50_us s) (sort us) \<and> splits_at (95 / 100) (p95_us s) (sort us) \<and>
    splits_at (99 / 100) (p99_us s) (sort us) \<and>
    min_us s \<le> p50_us s \<and> p50_us s \<le> p95_us s \<and> p95_us s \<le> p99_us s \<and> p99_us s \<le> max_us s \<and>
    min_us s \<le> avg_us s \<and> avg_us s \<le> max_us s \<and> count s = length us"
proof -
  let ?v = "sort us" and ?s = "fst (calc_stats us)"
  have v: "?v \<noteq> []" "sorted ?v" using assms by (metis length_0_conv length_sort, simp)
  have ends: "hd ?v = ?v ! 0" "last ?v = ?v ! (length ?v - 1)"
    using v(1) by (simp_all add: hd_conv_nth last_conv_nth)
  have mono: "?v ! i \<le> ?v ! j" if "i \<le> j" "j < length ?v" for i j using v(2) that by (rule sorted_nth_mono)
  have r: "rank (length ?v) (50/100) \<le> rank (length ?v) (95/100)"
    "rank (length ?v) (95/100) \<le> rank (length ?v) (99/100)" "rank (length ?v) (99/100) < length ?v"
    using v(1) by (auto intro!: rank_mono rank_less)
  have s: "min_us ?s = ?v ! 0" "max_us ?s = ?v ! (length ?v - 1)" "p50_us ?s = percentile ?v (50/100)"
    "p95_us ?s = percentile ?v (95/100)" "p99_us ?s = percentile ?v (99/100)"
    "avg_us ?s = sum_list ?v / real (length ?v)" "count ?s = length us"
    using assms ends v(1) by (simp_all add: calc_stats_def Let_def foldl_sum)
  have "?v ! 0 \<le> x \<and> x \<le> ?v ! (length ?v - 1)" if "x \<in> set ?v" for x
    using that mono unfolding in_set_conv_nth by auto
  then have "real (length ?v) * ?v ! 0 \<le> sum_list ?v \<and> sum_list ?v \<le> real (length ?v) * ?v ! (length ?v - 1)"
    using sum_list_between [of ?v] by blast
  then have avg: "min_us ?s \<le> avg_us ?s" "avg_us ?s \<le> max_us ?s"
    using assms by (simp_all add: s pos_le_divide_eq pos_divide_le_eq mult.commute)
  have "splits_at q (percentile ?v q) ?v" if "0 \<le> q" "q \<le> 1" for q
    using percentile_splits [OF v(2,1) that] .
  moreover have "min_us ?s \<le> p50_us ?s" "p50_us ?s \<le> p95_us ?s" "p95_us ?s \<le> p99_us ?s" "p99_us ?s \<le> max_us ?s"
    using r mono by (simp_all add: s percentile_rank)
  ultimately show ?thesis using avg s by (simp add: Let_def)
qed

lemma reported_percentiles_witness:
  "splits_at (50 / 100) (p50_us (fst (calc_stats [30, 10, 20]))) (sort [30, 10, 20])"
  using reported_percentiles [of "[30, 10, 20]"] by (simp only: Let_def) simp


lemma recv_echo_all:
  "\<forall>c\<in>set chunks. c \<noteq> [] \<Longrightarrow> total_recv + length (concat chunks) = msg_size \<Longrightarrow>
   recv_echo msg_size total_recv (map Delivered chunks @ rest) = (Some True, rest)"
proof (induction chunks arbitrary: total_recv)
  case Nil
  then show ?case by (cases rest) simp_all
next
  case (Cons c chunks)
  then show ?case by (cases c) simp_all
qed

lemma recv_echo_short:
  "\<forall>c\<in>set chunks. c \<noteq> [] \<Longrightarrow> total_recv + length (concat chunks) < msg_size \<Longrightarrow>
   recv_echo msg_size total_recv (map Delivered chunks) = (None, [])"
proof (induction chunks arbitrary: total_recv)
  case (Cons c chunks)
  then show ?case by (cases c) simp_all
qed simp

text \<open>What an echo server sends back for messages of which \<open>sent\<close> bytes each went out.\<close>

definition echoed :: "byte list list list \<Rightarrow> nat list \<Rightarrow> bool" where
  "echoed rounds sent \<longleftrightarrow> map (\<lambda>chunks. length (concat chunks)) rounds = sent \<and>
     (\<forall>chunks\<in>set rounds. \<forall>c\<in>set chunks. c \<noteq> [])"

abbreviation answers_of :: "byte list list list \<Rightarrow> read_answer list" where
  "answers_of rounds \<equiv> map Delivered (concat rounds)"

lemma bench_full_rounds:
  "echoed rounds (replicate (length rounds) msg_size) \<Longrightarrow> 0 < msg_size \<Longrightarrow>
   bench_loop clock msg_size i (length rounds + k)
     (replicate (length rounds) (Done msg_size) @ sends) (answers_of rounds @ recvs) =
   (let (ls, e) = bench_loop clock msg_size (i + length rounds) k sends recvs
    in (map (\<lambda>j. clock (2 * j + 1) - clock (2 * j)) [i..<i + length rounds] @ ls, e))"
proof (induction rounds arbitrary: i)
  case (Cons chunks rounds)
  obtain m where m: "msg_size = Suc m" using Cons.prems(2) by (cases msg_size) auto
  have "recv_echo msg_size 0 (answers_of (chunks # rounds) @ recvs) = (Some True, answers_of rounds @ recvs)"
    using Cons.prems(1) recv_echo_all [of chunks 0 msg_size "answers_of rounds @ recvs"] by (simp add: echoed_def)
  moreover have "echoed rounds (replicate (length rounds) msg_size)" using Cons.prems(1) by (simp add: echoed_def)
  then have "bench_loop clock msg_size (Suc i) (length rounds + k)
      (replicate (length rounds) (Done msg_size) @ sends) (answers_of rounds @ recvs) =
     (let (ls, e) = bench_loop clock msg_size (Suc i + length rounds) k sends recvs
      in (map (\<lambda>j. clock (2 * j + 1) - clock (2 * j)) [Suc i..<Suc i + length rounds] @ ls, e))"
    using Cons.IH [of "Suc i"] Cons.prems(2) by simp
  moreover have "[i..<i + length (chunks # rounds)] = i # [Suc i..<Suc i + length rounds]"
    using upt_conv_Cons [of i "i + length (chunks # rounds)"] by simp
  ultimately show ?case using m by (simp add: case_prod_beta Let_def)
qed simp

text \<open>The benchmark waits forever after a short send.  Against a server that returns every byte it got,
  the client measures each request whose \<open>send\<close> took the whole message; the first \<open>send\<close> that
  takes less leaves it in \<open>recv\<close>, waiting for bytes it never sent, and the remaining requests
  are not made.\<close>

theorem short_send_waits_forever:
  assumes full: "echoed rounds (replicate (length rounds) msg_size)"
    and short: "0 < sent" "sent < msg_size" "echoed [chunks] [sent]"
  shows "bench_connection True clock (int (length rounds + Suc k)) (int msg_size)
      (replicate (length rounds) (Done msg_size) @ Done sent # sends) (answers_of (rounds @ [chunks])) =
    Inr (map (\<lambda>j. clock (2 * j + 1) - clock (2 * j)) [0..<length rounds], StillWaiting)"
proof -
  obtain n where n: "sent = Suc n" using short(1) by (cases sent) auto
  have "recv_echo msg_size 0 (map Delivered chunks) = (None, [])"
    using short by (intro recv_echo_short) (simp_all add: echoed_def)
  then have "bench_loop clock msg_size (length rounds) (Suc k) (Done sent # sends) (map Delivered chunks) =
      ([], StillWaiting)"
    using n by simp
  then show ?thesis
    using bench_full_rounds [OF full, of clock 0 "Suc k" "Done sent # sends" "map Delivered chunks"] short
    by (simp add: bench_connection_def nat_add_distrib del: bench_loop.simps)
qed

lemma short_send_waits_forever_witness:
  "bench_connection True (\<lambda>i. real i) 3 2 [Done 2, Done 1, Done 2]
     [Delivered [120, 120], Delivered [120]] = Inr ([1], StillWaiting)"
  using short_send_waits_forever [of "[[[120, 120]]]" 2 1 "[[120]]" real 1 "[Done 2]"]
  by (simp add: echoed_def)

section \<open>The report of a complete run\<close>

text \<open>The second call of \<open>calc_stats\<close> works on the vector that the first one sorted.\<close>

lemma calc_stats_again: "calc_stats (snd (calc_stats us)) = calc_stats us"
  by (auto simp: calc_stats_def Let_def sort_key_id_if_sorted) (metis length_0_conv length_sort)

lemma csv_after_report:
  assumes "report_values title c m z t us = (shown, v)" "csv_values model c m z t v = (csv, v')"
  shows "csv_values model c m z t us = (csv, v)" "v' = v"
proof -
  have v: "v = snd (calc_stats us)" using assms(1) by (auto simp: report_values_def Let_def split: prod.splits)
  have "calc_stats v = calc_stats us" unfolding v by (rule calc_stats_again)
  then show "csv_values model c m z t us = (csv, v)" "v' = v"
    using assms(2) v by (auto simp: csv_values_def Let_def split: prod.splits)
qed

text \<open>What every thread of a complete run meets: a server that takes and returns each whole message.\<close>

definition full_link :: "nat \<Rightarrow> nat \<Rightarrow> byte list list list \<Rightarrow> bool" where
  "full_link msgs msg_size rounds \<longleftrightarrow> length rounds = msgs \<and> echoed rounds (replicate msgs msg_size)"

definition serves_fully :: "nat \<Rightarrow> nat \<Rightarrow> (nat \<Rightarrow> byte list list list) \<Rightarrow> (nat \<Rightarrow> nat \<Rightarrow> real) \<Rightarrow> nat \<Rightarrow> bench_link" where
  "serves_fully msgs msg_size rounds clock i =
     (True, clock i, replicate msgs (Done msg_size), answers_of (rounds i))"

definition thread_latencies :: "nat \<Rightarrow> (nat \<Rightarrow> real) \<Rightarrow> real list" where
  "thread_latencies msgs clock = map (\<lambda>j. clock (2 * j + 1) - clock (2 * j)) [0..<msgs]"

lemma bench_connection_full:
  assumes "full_link msgs msg_size rounds" "0 < msg_size"
  shows "bench_connection True clock (int msgs) (int msg_size) (replicate msgs (Done msg_size)) (answers_of rounds) =
    Inr (thread_latencies msgs clock, AllDone)"
  using bench_full_rounds [of rounds msg_size clock 0 0 "[]" "[]"] assms
  by (simp add: full_link_def bench_connection_def thread_latencies_def)

lemma bench_threads_full:
  assumes "\<forall>i\<in>set is. full_link msgs msg_size (rounds i)" "0 < msg_size"
  shows "bench_threads (serves_fully msgs msg_size rounds clock) (int msgs) (int msg_size) is =
    Inr (map (\<lambda>i. (thread_latencies msgs (clock i), AllDone)) is)"
  using assms
proof (induction "is")
  case (Cons i "is")
  then have "bench_connection True (clock i) (int msgs) (int msg_size) (replicate msgs (Done msg_size))
      (answers_of (rounds i)) = Inr (thread_latencies msgs (clock i), AllDone)"
    using bench_connection_full by simp
  then show ?case using Cons by (simp add: serves_fully_def)
qed simp

lemma count_calc_stats [simp]: "count (fst (calc_stats us)) = length us"
  by (simp add: calc_stats_def Let_def)

text \<open>C36: A complete run is reported completely.  Started with any three numbers as its arguments, against a server
  that takes and returns every message, the client reports in both outputs one latency per request,
  and no request as missing.\<close>

theorem complete_run_reported:
  assumes n: "n < 2 ^ 31" "msgs < 2 ^ 31" "0 < msg_size" "msg_size < 2 ^ 31"
    and full: "\<forall>i<n. full_link msgs msg_size (rounds i)" and "0 \<le> probe"
  shows "\<exists>shown csv. bench_main [int_text (int n), int_text (int msgs), int_text (int msg_size)] probe
      (serves_fully msgs msg_size rounds clock) elapsed = Inr (Reported shown csv None) \<and>
    shown ! 4 = IntField (int (n * msgs)) \<and> last csv = IntField (int (n * msgs))"
proof -
  let ?us = "collect (map (\<lambda>i. thread_latencies msgs (clock i)) [0..<n])"
  have opts: "bench_options [int_text (int n), int_text (int msgs), int_text (int msg_size)] =
      Inr (int n, int msgs, int msg_size)"
    using n by (simp add: bench_options_def option_value_def stoi_text int_range_def)
  have lens: "map length (map (\<lambda>i. thread_latencies msgs (clock i)) [0..<n]) = replicate n msgs"
    by (simp add: thread_latencies_def comp_def map_replicate_const)
  then have len: "length ?us = n * msgs"
    by (simp add: collect_def length_concat sum_list_replicate)
  have "missing_requests (int n) (int msgs) (map (\<lambda>i. thread_latencies msgs (clock i)) [0..<n]) = None"
  proof -
    have "nat ((int n * int msgs) mod 2 ^ 64) \<le> n * msgs"
      by (metis nat_int nat_mono of_nat_0_le_iff of_nat_mult zmod_le_nonneg_dividend)
    then show ?thesis unfolding missing_requests_def lens by (simp add: sum_list_replicate)
  qed
  moreover obtain shown v csv v' where r:
    "report_values ''Benchmark Result'' (int n) (int msgs) (int msg_size) elapsed ?us = (shown, v)"
    "csv_values ''server'' (int n) (int msgs) (int msg_size) elapsed v = (csv, v')" by (metis surj_pair)
  moreover have "shown ! 4 = IntField (int (length ?us))" "last csv = IntField (int (length ?us))"
    using r(1) csv_after_report(1) [OF r]
    by (auto simp: report_values_def csv_values_def Let_def count_calc_stats [symmetric]
        simp del: count_calc_stats split: prod.splits)
  moreover have "map (snd \<circ> (\<lambda>i. (thread_latencies msgs (clock i), AllDone))) [0..<n] = replicate n AllDone"
    by (simp add: comp_def map_replicate_const)
  ultimately show ?thesis
    using opts len n(3) full \<open>0 \<le> probe\<close>
    by (auto simp: bench_main_def bench_threads_full comp_def)
qed

lemma complete_run_reported_witness:
  "\<exists>shown csv. bench_main [int_text 1, int_text 1, int_text 2] 3
     (serves_fully 1 2 (\<lambda>i. [[[120], [120]]]) (\<lambda>i j. real j)) 1 = Inr (Reported shown csv None) \<and>
     shown ! 4 = IntField 1 \<and> last csv = IntField 1"
  using complete_run_reported [of 1 1 2 "\<lambda>i. [[[120], [120]]]" 3 "\<lambda>i j. real j" 1]
  by (simp add: full_link_def echoed_def)

end
