(* ===== verification/Compiler_Id.thy ===== *)
theory Compiler_Id
  imports Prelude
begin

text \<open>
  What the two compiler identification programs of the build directories share
  (\<open>CompilerIdCXX/CMakeCXXCompilerId.cpp\<close>, \<open>CompilerIdC/CMakeCCompilerId.c\<close>): the preprocessor
  as a function of the predefined macros, the macros \<open>DEC\<close> and \<open>HEX\<close>, and the texts that the
  programs carry.  The four build directories hold byte-identical copies; the lines named are
  those of \<open>reactor/build/\<close>.
\<close>

section \<open>Predefined macros\<close>

datatype macro = Num nat | Text string

type_synonym predefs = "string \<Rightarrow> macro option"

definition defd :: "predefs \<Rightarrow> string \<Rightarrow> bool" where
  "defd m x = (m x \<noteq> None)"

definition any_def :: "predefs \<Rightarrow> string list \<Rightarrow> bool" where
  "any_def m xs = list_ex (defd m) xs"

text \<open>In an \<open>#if\<close> an identifier that is not defined is 0; in a version it does not compile (\<open>None\<close>).\<close>

definition num :: "predefs \<Rightarrow> string \<Rightarrow> nat" where
  "num m x = (case m x of Some (Num n) \<Rightarrow> n | _ \<Rightarrow> 0)"

definition tok :: "predefs \<Rightarrow> string \<Rightarrow> nat option" where
  "tok m x = (case m x of Some (Num n) \<Rightarrow> Some n | _ \<Rightarrow> None)"

definition via :: "predefs \<Rightarrow> string \<Rightarrow> (nat \<Rightarrow> nat) \<Rightarrow> nat option" where
  "via m x f = map_option f (tok m x)"

definition text_of :: "predefs \<Rightarrow> string \<Rightarrow> string option" where
  "text_of m x = (case m x of Some (Text s) \<Rightarrow> Some s | _ \<Rightarrow> None)"

text \<open>\<open>STRINGIFY\<close> of a number, of a text, or of the name itself when it is not a macro.\<close>

definition stringify :: "predefs \<Rightarrow> string \<Rightarrow> string" where
  "stringify m x = (case m x of Some (Num n) \<Rightarrow> decimal n | Some (Text s) \<Rightarrow> s | None \<Rightarrow> x)"

text \<open>A chain of \<open>#if\<close>, \<open>#elif\<close> and \<open>#else\<close>.\<close>

fun pick :: "(bool \<times> 'a) list \<Rightarrow> 'a \<Rightarrow> 'a" where
  "pick [] d = d"
| "pick ((c, x) # rs) d = (if c then x else pick rs d)"

section \<open>Version numbers as text\<close>

definition digit :: "nat \<Rightarrow> char" where
  "digit d = char_of (48 + d)"

definition dec_text :: "nat \<Rightarrow> string" where
  "dec_text n = [digit (n div 10000000 mod 10), digit (n div 1000000 mod 10), digit (n div 100000 mod 10),
     digit (n div 10000 mod 10), digit (n div 1000 mod 10), digit (n div 100 mod 10),
     digit (n div 10 mod 10), digit (n mod 10)]"

definition hex_text :: "nat \<Rightarrow> string" where
  "hex_text n = [digit (drop_bit 28 n AND 15), digit (drop_bit 24 n AND 15), digit (drop_bit 20 n AND 15),
     digit (drop_bit 16 n AND 15), digit (drop_bit 12 n AND 15), digit (drop_bit 8 n AND 15),
     digit (drop_bit 4 n AND 15), digit (n AND 15)]"

definition DEC :: "nat option \<Rightarrow> string option" where
  "DEC = map_option dec_text"

definition HEX :: "nat option \<Rightarrow> string option" where
  "HEX = map_option hex_text"

section \<open>The macros that a branch directive\<close>

text \<open>The outer option says whether the macro is defined, the inner one whether it compiles.\<close>

record ident =
  id_name :: string
  id_simulate :: "string option"
  id_text :: "string option option"
  id_major :: "string option option"
  id_minor :: "string option option"
  id_patch :: "string option option"
  id_tweak :: "string option option"
  id_internal :: "string option option"
  id_internal_str :: "string option option"
  sim_major :: "string option option"
  sim_minor :: "string option option"
  sim_patch :: "string option option"

type_synonym directive = "ident \<Rightarrow> ident"

definition build :: "string \<Rightarrow> directive list \<Rightarrow> ident" where
  "build name us = fold (\<lambda>u i. u i) us \<lparr>id_name = name, id_simulate = None, id_text = None, id_major = None,
     id_minor = None, id_patch = None, id_tweak = None, id_internal = None, id_internal_str = None,
     sim_major = None, sim_minor = None, sim_patch = None\<rparr>"

definition either :: "bool \<Rightarrow> directive list \<Rightarrow> directive list \<Rightarrow> directive" where
  "either c us vs i = fold (\<lambda>u i. u i) (if c then us else vs) i"

definition only :: "bool \<Rightarrow> directive list \<Rightarrow> directive" where
  "only c us = either c us []"

definition SIMULATE :: "string \<Rightarrow> directive" where "SIMULATE s i = i\<lparr>id_simulate := Some s\<rparr>"
definition VERSION_TEXT :: "string option \<Rightarrow> directive" where "VERSION_TEXT s i = i\<lparr>id_text := Some s\<rparr>"
definition MAJOR :: "string option \<Rightarrow> directive" where "MAJOR s i = i\<lparr>id_major := Some s\<rparr>"
definition MINOR :: "string option \<Rightarrow> directive" where "MINOR s i = i\<lparr>id_minor := Some s\<rparr>"
definition PATCH :: "string option \<Rightarrow> directive" where "PATCH s i = i\<lparr>id_patch := Some s\<rparr>"
definition TWEAK :: "string option \<Rightarrow> directive" where "TWEAK s i = i\<lparr>id_tweak := Some s\<rparr>"
definition INTERNAL :: "string option \<Rightarrow> directive" where "INTERNAL s i = i\<lparr>id_internal := Some s\<rparr>"
definition INTERNAL_STR :: "string option \<Rightarrow> directive" where "INTERNAL_STR s i = i\<lparr>id_internal_str := Some s\<rparr>"
definition SIM_MAJOR :: "string option \<Rightarrow> directive" where "SIM_MAJOR s i = i\<lparr>sim_major := Some s\<rparr>"
definition SIM_MINOR :: "string option \<Rightarrow> directive" where "SIM_MINOR s i = i\<lparr>sim_minor := Some s\<rparr>"
definition SIM_PATCH :: "string option \<Rightarrow> directive" where "SIM_PATCH s i = i\<lparr>sim_patch := Some s\<rparr>"

lemmas define_defs = SIMULATE_def VERSION_TEXT_def MAJOR_def MINOR_def PATCH_def TWEAK_def INTERNAL_def
  INTERNAL_STR_def SIM_MAJOR_def SIM_MINOR_def SIM_PATCH_def

section \<open>The texts of the programs\<close>

text \<open>A component is written only when the ones before it are defined.\<close>

fun leading :: "'a option list \<Rightarrow> 'a list" where
  "leading (Some x # xs) = x # leading xs"
| "leading _ = []"

definition dotted :: "string option list \<Rightarrow> string option" where
  "dotted cs = map_option (\<lambda>ts. concat (hd ts # map (\<lambda>t. ''.'' @ t) (tl ts))) (those cs)"

definition bracket :: "string \<Rightarrow> string \<Rightarrow> string" where
  "bracket key text = ''INFO:'' @ key @ ''['' @ text @ '']''"

definition info_compiler :: "ident \<Rightarrow> string" where
  "info_compiler i = bracket ''compiler'' (id_name i)"

definition info_simulate :: "ident \<Rightarrow> string option" where
  "info_simulate i = map_option (bracket ''simulate'') (id_simulate i)"

definition info_version :: "ident \<Rightarrow> string option option" where
  "info_version i = map_option (map_option (bracket ''compiler_version''))
     (case id_text i of Some t \<Rightarrow> Some t
      | None \<Rightarrow> if id_major i = None then None
          else Some (dotted (leading [id_major i, id_minor i, id_patch i, id_tweak i])))"

definition info_version_internal :: "ident \<Rightarrow> string option option" where
  "info_version_internal i = map_option (map_option (bracket ''compiler_version_internal''))
     (case id_internal i of Some t \<Rightarrow> Some t | None \<Rightarrow> id_internal_str i)"

definition info_simulate_version :: "ident \<Rightarrow> string option option" where
  "info_simulate_version i = map_option (map_option (bracket ''simulate_version''))
     (if sim_major i = None then None else Some (dotted (leading [sim_major i, sim_minor i, sim_patch i])))"

text \<open>A version that names an undefined macro does not compile.\<close>

definition compiles :: "ident \<Rightarrow> bool" where
  "compiles i \<longleftrightarrow> info_version i \<noteq> Some None \<and> info_version_internal i \<noteq> Some None \<and>
     info_simulate_version i \<noteq> Some None"

text \<open>The texts that depend on the compiler, as far as \<open>main\<close> reads them.\<close>

fun some_text :: "'a option option \<Rightarrow> string option option \<Rightarrow> string list" where
  "some_text (Some d) (Some (Some t)) = [t]"
| "some_text _ _ = []"

definition ident_texts :: "ident \<Rightarrow> string list" where
  "ident_texts i = some_text (id_major i) (info_version i) @ some_text (id_internal i) (info_version_internal i) @
     (case info_simulate i of None \<Rightarrow> [] | Some t \<Rightarrow> [t]) @ some_text (sim_major i) (info_simulate_version i)"

definition info_cray :: string where
  "info_cray = bracket ''compiler_wrapper'' ''CrayPrgEnv''"

definition gnu_extensions :: "predefs \<Rightarrow> string" where
  "gnu_extensions m = bracket ''extensions_default''
     (if any_def m [''__clang__'', ''__GNUC__'', ''__TI_COMPILER_VERSION__''] \<and>
        \<not> defd m ''__STRICT_ANSI__'' \<and> \<not> defd m ''_MSC_VER'' then ''ON'' else ''OFF'')"

text \<open>
  \<open>main\<close> adds up the characters at index \<open>argc\<close> of the texts; the null behind a text can be read,
  nothing after it.
\<close>

definition char_at :: "nat \<Rightarrow> string \<Rightarrow> int res" where
  "char_at n s = (if n < length s then Inr (of_char (s ! n)) else if n = length s then Inr 0 else Inl OutOfBounds)"

fun require_sum :: "nat \<Rightarrow> string list \<Rightarrow> int res" where
  "require_sum argc [] = Inr 0"
| "require_sum argc (s # ss) =
     bind_res (char_at argc s) (\<lambda>c. bind_res (require_sum argc ss) (\<lambda>r. Inr (c + r)))"

section \<open>Lemmas\<close>

text \<open>What reads a number back from its text in base \<open>b\<close>.\<close>

definition read_base :: "nat \<Rightarrow> string \<Rightarrow> nat" where
  "read_base b s = foldl (\<lambda>a c. b * a + (of_char c - 48)) 0 s"

lemma of_char_dec [simp]: "d < 200 \<Longrightarrow> of_char (digit d) = 48 + d"
  by (simp add: digit_def)

lemma dec_digit [simp]: "of_char (digit (n mod 10)) = 48 + n mod (10::nat)"
proof -
  have "n mod 10 < 10" by simp
  then show ?thesis by (intro of_char_dec) linarith
qed

lemma hex_nibble: "n AND 15 = n mod (16::nat)"
  using take_bit_eq_mask [of 4 n] by (simp add: take_bit_eq_mod mask_eq_exp_minus_1)

lemma hex_digit: "of_char (digit (n mod 16)) = 48 + n mod (16::nat)"
proof -
  have "n mod 16 < 16" by simp
  then show ?thesis by (intro of_char_dec) linarith
qed

text \<open>The lowest digit and the rest of a number cut to \<open>j + 1\<close> digits.\<close>

lemma digit_step:
  fixes n b :: nat
  shows "n div b ^ k mod b + b * (n div b ^ Suc k mod b ^ j) = n div b ^ k mod b ^ Suc j"
proof -
  have "n div b ^ Suc k = n div b ^ k div b" by (simp only: power_Suc2 div_mult2_eq)
  then show ?thesis using mod_mult2_eq [of "n div b ^ k" b "b ^ j"] by simp
qed

lemma eight_digits:
  fixes n b :: nat
  shows "foldl (\<lambda>a d. b * a + d) 0 (map (\<lambda>k. n div b ^ k mod b) [7, 6, 5, 4, 3, 2, 1, 0]) = n mod b ^ 8"
  using digit_step [of n b 0 7] digit_step [of n b 1 6] digit_step [of n b 2 5] digit_step [of n b 3 4]
    digit_step [of n b 4 3] digit_step [of n b 5 2] digit_step [of n b 6 1]
  by (simp add: numeral_eq_Suc algebra_simps)

lemma dec_text_read: "read_base 10 (dec_text n) = n mod 10 ^ 8"
  using eight_digits [of 10 n] by (simp add: read_base_def dec_text_def)

lemma hex_text_read: "read_base 16 (hex_text n) = n mod 2 ^ 32"
  using eight_digits [of 16 n] by (simp add: read_base_def hex_text_def hex_nibble hex_digit drop_bit_eq_div)
section \<open>Properties\<close>

lemma digit_decimal: "digit (n mod 10) \<in> set ''0123456789''"
proof -
  have "\<forall>d\<in>{0..<10}. digit d \<in> set ''0123456789''" by code_simp
  then show ?thesis by auto
qed

lemma dec_text_digits: "set (dec_text n) \<subseteq> set ''0123456789''"
  by (simp only: dec_text_def list.set(2) [of "digit _" "_"] list.set(1) insert_subset digit_decimal empty_subsetI simp_thms)

text \<open>A version number reads back from its text: the eight digits of \<open>DEC\<close> are the number up to its eighth
  decimal place, the eight of \<open>HEX\<close> its lowest 32 bits, and \<open>DEC\<close> writes decimal digits only.\<close>

theorem version_number_reads_back:
  "read_base 10 (dec_text n) = n mod 10 ^ 8 \<and> read_base 16 (hex_text n) = n mod 2 ^ 32 \<and>
   set (dec_text n) \<subseteq> set ''0123456789''"
  by (intro conjI dec_text_read hex_text_read dec_text_digits)

end
