(* ===== verification/Compiler_Id_Cxx.thy ===== *)
theory Compiler_Id_Cxx
  imports Compiler_Id
begin

text \<open>
  The C++ identification program (\<open>CompilerIdCXX/CMakeCXXCompilerId.cpp\<close>): the chain that names
  the compiler and takes its version apart, in three parts of the file, the platform, the
  architecture, the default language standard, and \<open>main\<close>.
\<close>

section \<open>The compiler\<close>

definition cxx_rules1 :: "predefs \<Rightarrow> (bool \<times> ident) list" where
  "cxx_rules1 m = [
   (defd m ''__COMO__'',
     build ''Comeau''
       [MAJOR (DEC (via m ''__COMO_VERSION__'' (\<lambda>v. v div 100))),
        MINOR (DEC (via m ''__COMO_VERSION__'' (\<lambda>v. v mod 100)))]),
   (any_def m [''__INTEL_COMPILER'', ''__ICC''],
     build ''Intel''
       [only (defd m ''_MSC_VER'') [SIMULATE ''MSVC''],
        only (defd m ''__GNUC__'') [SIMULATE ''GNU''],
        either (num m ''__INTEL_COMPILER'' < 2021
            \<or> num m ''__INTEL_COMPILER'' = 202110
            \<or> num m ''__INTEL_COMPILER'' = 202111)
          [MAJOR (DEC (via m ''__INTEL_COMPILER'' (\<lambda>v. v div 100))),
           MINOR (DEC (via m ''__INTEL_COMPILER'' (\<lambda>v. v div 10 mod 10))),
           either (defd m ''__INTEL_COMPILER_UPDATE'')
             [PATCH (DEC (tok m ''__INTEL_COMPILER_UPDATE''))]
             [PATCH (DEC (via m ''__INTEL_COMPILER'' (\<lambda>v. v mod 10)))]]
          [MAJOR (DEC (tok m ''__INTEL_COMPILER'')),
           MINOR (DEC (tok m ''__INTEL_COMPILER_UPDATE'')),
           PATCH (DEC (Some 0))],
        only (defd m ''__INTEL_COMPILER_BUILD_DATE'')
          [TWEAK (DEC (tok m ''__INTEL_COMPILER_BUILD_DATE''))],
        only (defd m ''_MSC_VER'')
          [SIM_MAJOR (DEC (via m ''_MSC_VER'' (\<lambda>v. v div 100))),
           SIM_MINOR (DEC (via m ''_MSC_VER'' (\<lambda>v. v mod 100)))],
        either (defd m ''__GNUC__'')
          [SIM_MAJOR (DEC (tok m ''__GNUC__''))]
          [only (defd m ''__GNUG__'') [SIM_MAJOR (DEC (tok m ''__GNUG__''))]],
        only (defd m ''__GNUC_MINOR__'') [SIM_MINOR (DEC (tok m ''__GNUC_MINOR__''))],
        only (defd m ''__GNUC_PATCHLEVEL__'') [SIM_PATCH (DEC (tok m ''__GNUC_PATCHLEVEL__''))]]),
   (defd m ''__clang__'' \<and> defd m ''__INTEL_CLANG_COMPILER'' \<or> defd m ''__INTEL_LLVM_COMPILER'',
     build ''IntelLLVM''
       [only (defd m ''_MSC_VER'') [SIMULATE ''MSVC''],
        only (defd m ''__GNUC__'') [SIMULATE ''GNU''],
        either (num m ''__INTEL_LLVM_COMPILER'' < 1000000)
          [MAJOR (DEC (via m ''__INTEL_LLVM_COMPILER'' (\<lambda>v. v div 100))),
           MINOR (DEC (via m ''__INTEL_LLVM_COMPILER'' (\<lambda>v. v div 10 mod 10))),
           PATCH (DEC (via m ''__INTEL_LLVM_COMPILER'' (\<lambda>v. v mod 10)))]
          [MAJOR (DEC (via m ''__INTEL_LLVM_COMPILER'' (\<lambda>v. v div 10000))),
           MINOR (DEC (via m ''__INTEL_LLVM_COMPILER'' (\<lambda>v. v div 100 mod 100))),
           PATCH (DEC (via m ''__INTEL_LLVM_COMPILER'' (\<lambda>v. v mod 100)))],
        only (defd m ''_MSC_VER'')
          [SIM_MAJOR (DEC (via m ''_MSC_VER'' (\<lambda>v. v div 100))),
           SIM_MINOR (DEC (via m ''_MSC_VER'' (\<lambda>v. v mod 100)))],
        either (defd m ''__GNUC__'')
          [SIM_MAJOR (DEC (tok m ''__GNUC__''))]
          [only (defd m ''__GNUG__'') [SIM_MAJOR (DEC (tok m ''__GNUG__''))]],
        only (defd m ''__GNUC_MINOR__'') [SIM_MINOR (DEC (tok m ''__GNUC_MINOR__''))],
        only (defd m ''__GNUC_PATCHLEVEL__'') [SIM_PATCH (DEC (tok m ''__GNUC_PATCHLEVEL__''))]]),
   (defd m ''__PATHCC__'',
     build ''PathScale''
       [MAJOR (DEC (tok m ''__PATHCC__'')),
        MINOR (DEC (tok m ''__PATHCC_MINOR__'')),
        only (defd m ''__PATHCC_PATCHLEVEL__'') [PATCH (DEC (tok m ''__PATHCC_PATCHLEVEL__''))]]),
   (defd m ''__BORLANDC__'' \<and> defd m ''__CODEGEARC_VERSION__'',
     build ''Embarcadero''
       [MAJOR (HEX (via m ''__CODEGEARC_VERSION__'' (\<lambda>v. drop_bit 24 v AND 255))),
        MINOR (HEX (via m ''__CODEGEARC_VERSION__'' (\<lambda>v. drop_bit 16 v AND 255))),
        PATCH (DEC (via m ''__CODEGEARC_VERSION__'' (\<lambda>v. v AND 65535)))]),
   (defd m ''__BORLANDC__'',
     build ''Borland''
       [MAJOR (HEX (via m ''__BORLANDC__'' (\<lambda>v. drop_bit 8 v))),
        MINOR (HEX (via m ''__BORLANDC__'' (\<lambda>v. v AND 255)))]),
   (defd m ''__WATCOMC__'' \<and> num m ''__WATCOMC__'' < 1200,
     build ''Watcom''
       [MAJOR (DEC (via m ''__WATCOMC__'' (\<lambda>v. v div 100))),
        MINOR (DEC (via m ''__WATCOMC__'' (\<lambda>v. (v div 10) mod 10))),
        only (num m ''__WATCOMC__'' mod 10 > 0)
          [PATCH (DEC (via m ''__WATCOMC__'' (\<lambda>v. v mod 10)))]]),
   (defd m ''__WATCOMC__'',
     build ''OpenWatcom''
       [MAJOR (DEC (via m ''__WATCOMC__'' (\<lambda>v. (v - 1100) div 100))),
        MINOR (DEC (via m ''__WATCOMC__'' (\<lambda>v. (v div 10) mod 10))),
        only (num m ''__WATCOMC__'' mod 10 > 0)
          [PATCH (DEC (via m ''__WATCOMC__'' (\<lambda>v. v mod 10)))]])]"

definition cxx_rules2 :: "predefs \<Rightarrow> (bool \<times> ident) list" where
  "cxx_rules2 m = [
   (defd m ''__SUNPRO_CC'',
     build ''SunPro''
       [either (num m ''__SUNPRO_CC'' \<ge> 20736)
          [MAJOR (HEX (via m ''__SUNPRO_CC'' (\<lambda>v. drop_bit 12 v))),
           MINOR (HEX (via m ''__SUNPRO_CC'' (\<lambda>v. drop_bit 4 v AND 255))),
           PATCH (HEX (via m ''__SUNPRO_CC'' (\<lambda>v. v AND 15)))]
          [MAJOR (HEX (via m ''__SUNPRO_CC'' (\<lambda>v. drop_bit 8 v))),
           MINOR (HEX (via m ''__SUNPRO_CC'' (\<lambda>v. drop_bit 4 v AND 15))),
           PATCH (HEX (via m ''__SUNPRO_CC'' (\<lambda>v. v AND 15)))]]),
   (defd m ''__HP_aCC'',
     build ''HP''
       [MAJOR (DEC (via m ''__HP_aCC'' (\<lambda>v. v div 10000))),
        MINOR (DEC (via m ''__HP_aCC'' (\<lambda>v. v div 100 mod 100))),
        PATCH (DEC (via m ''__HP_aCC'' (\<lambda>v. v mod 100)))]),
   (defd m ''__DECCXX'',
     build ''Compaq''
       [MAJOR (DEC (via m ''__DECCXX_VER'' (\<lambda>v. v div 10000000))),
        MINOR (DEC (via m ''__DECCXX_VER'' (\<lambda>v. v div 100000 mod 100))),
        PATCH (DEC (via m ''__DECCXX_VER'' (\<lambda>v. v mod 10000)))]),
   (defd m ''__IBMCPP__'' \<and> defd m ''__COMPILER_VER__'',
     build ''zOS''
       [MAJOR (DEC (via m ''__IBMCPP__'' (\<lambda>v. v div 100))),
        MINOR (DEC (via m ''__IBMCPP__'' (\<lambda>v. v div 10 mod 10))),
        PATCH (DEC (via m ''__IBMCPP__'' (\<lambda>v. v mod 10)))]),
   (defd m ''__ibmxl__'' \<and> defd m ''__clang__'',
     build ''XLClang''
       [MAJOR (DEC (tok m ''__ibmxl_version__'')),
        MINOR (DEC (tok m ''__ibmxl_release__'')),
        PATCH (DEC (tok m ''__ibmxl_modification__'')),
        TWEAK (DEC (tok m ''__ibmxl_ptf_fix_level__''))]),
   (defd m ''__IBMCPP__'' \<and> \<not> defd m ''__COMPILER_VER__'' \<and> num m ''__IBMCPP__'' \<ge> 800,
     build ''XL''
       [MAJOR (DEC (via m ''__IBMCPP__'' (\<lambda>v. v div 100))),
        MINOR (DEC (via m ''__IBMCPP__'' (\<lambda>v. v div 10 mod 10))),
        PATCH (DEC (via m ''__IBMCPP__'' (\<lambda>v. v mod 10)))]),
   (defd m ''__IBMCPP__'' \<and> \<not> defd m ''__COMPILER_VER__'' \<and> num m ''__IBMCPP__'' < 800,
     build ''VisualAge''
       [MAJOR (DEC (via m ''__IBMCPP__'' (\<lambda>v. v div 100))),
        MINOR (DEC (via m ''__IBMCPP__'' (\<lambda>v. v div 10 mod 10))),
        PATCH (DEC (via m ''__IBMCPP__'' (\<lambda>v. v mod 10)))]),
   (defd m ''__NVCOMPILER'',
     build ''NVHPC''
       [MAJOR (DEC (tok m ''__NVCOMPILER_MAJOR__'')),
        MINOR (DEC (tok m ''__NVCOMPILER_MINOR__'')),
        only (defd m ''__NVCOMPILER_PATCHLEVEL__'')
          [PATCH (DEC (tok m ''__NVCOMPILER_PATCHLEVEL__''))]]),
   (defd m ''__PGI'',
     build ''PGI''
       [MAJOR (DEC (tok m ''__PGIC__'')),
        MINOR (DEC (tok m ''__PGIC_MINOR__'')),
        only (defd m ''__PGIC_PATCHLEVEL__'') [PATCH (DEC (tok m ''__PGIC_PATCHLEVEL__''))]]),
   (defd m ''_CRAYC'',
     build ''Cray''
       [MAJOR (DEC (tok m ''_RELEASE_MAJOR'')),
        MINOR (DEC (tok m ''_RELEASE_MINOR''))]),
   (defd m ''__TI_COMPILER_VERSION__'',
     build ''TI''
       [MAJOR (DEC (via m ''__TI_COMPILER_VERSION__'' (\<lambda>v. v div 1000000))),
        MINOR (DEC (via m ''__TI_COMPILER_VERSION__'' (\<lambda>v. v div 1000 mod 1000))),
        PATCH (DEC (via m ''__TI_COMPILER_VERSION__'' (\<lambda>v. v mod 1000)))]),
   (defd m ''__CLANG_FUJITSU'',
     build ''FujitsuClang''
       [MAJOR (DEC (tok m ''__FCC_major__'')),
        MINOR (DEC (tok m ''__FCC_minor__'')),
        PATCH (DEC (tok m ''__FCC_patchlevel__'')),
        INTERNAL_STR (text_of m ''__clang_version__'')]),
   (defd m ''__FUJITSU'',
     build ''Fujitsu''
       [either (defd m ''__FCC_version__'')
          [VERSION_TEXT (text_of m ''__FCC_version__'')]
          [only (defd m ''__FCC_major__'')
             [MAJOR (DEC (tok m ''__FCC_major__'')),
              MINOR (DEC (tok m ''__FCC_minor__'')),
              PATCH (DEC (tok m ''__FCC_patchlevel__''))]],
        either (defd m ''__fcc_version'')
          [INTERNAL (DEC (tok m ''__fcc_version''))]
          [only (defd m ''__FCC_VERSION'') [INTERNAL (DEC (tok m ''__FCC_VERSION''))]]]),
   (defd m ''__ghs__'',
     build ''GHS''
       [only (defd m ''__GHS_VERSION_NUMBER'')
          [MAJOR (DEC (via m ''__GHS_VERSION_NUMBER'' (\<lambda>v. v div 100))),
           MINOR (DEC (via m ''__GHS_VERSION_NUMBER'' (\<lambda>v. v div 10 mod 10))),
           PATCH (DEC (via m ''__GHS_VERSION_NUMBER'' (\<lambda>v. v mod 10)))]]),
   (defd m ''__SCO_VERSION__'',
     build ''SCO'' [])]"

definition cxx_rules3 :: "predefs \<Rightarrow> (bool \<times> ident) list" where
  "cxx_rules3 m = [
   (defd m ''__ARMCC_VERSION'' \<and> \<not> defd m ''__clang__'',
     build ''ARMCC''
       [either (num m ''__ARMCC_VERSION'' \<ge> 1000000)
          [MAJOR (DEC (via m ''__ARMCC_VERSION'' (\<lambda>v. v div 1000000))),
           MINOR (DEC (via m ''__ARMCC_VERSION'' (\<lambda>v. v div 10000 mod 100))),
           PATCH (DEC (via m ''__ARMCC_VERSION'' (\<lambda>v. v mod 10000)))]
          [MAJOR (DEC (via m ''__ARMCC_VERSION'' (\<lambda>v. v div 100000))),
           MINOR (DEC (via m ''__ARMCC_VERSION'' (\<lambda>v. v div 10000 mod 10))),
           PATCH (DEC (via m ''__ARMCC_VERSION'' (\<lambda>v. v mod 10000)))]]),
   (defd m ''__clang__'' \<and> defd m ''__apple_build_version__'',
     build ''AppleClang''
       [only (defd m ''_MSC_VER'') [SIMULATE ''MSVC''],
        MAJOR (DEC (tok m ''__clang_major__'')),
        MINOR (DEC (tok m ''__clang_minor__'')),
        PATCH (DEC (tok m ''__clang_patchlevel__'')),
        only (defd m ''_MSC_VER'')
          [SIM_MAJOR (DEC (via m ''_MSC_VER'' (\<lambda>v. v div 100))),
           SIM_MINOR (DEC (via m ''_MSC_VER'' (\<lambda>v. v mod 100)))],
        TWEAK (DEC (tok m ''__apple_build_version__''))]),
   (defd m ''__clang__'' \<and> defd m ''__ARMCOMPILER_VERSION'',
     build ''ARMClang''
       [MAJOR (DEC (via m ''__ARMCOMPILER_VERSION'' (\<lambda>v. v div 1000000))),
        MINOR (DEC (via m ''__ARMCOMPILER_VERSION'' (\<lambda>v. v div 10000 mod 100))),
        PATCH (DEC (via m ''__ARMCOMPILER_VERSION'' (\<lambda>v. v mod 10000))),
        INTERNAL (DEC (tok m ''__ARMCOMPILER_VERSION''))]),
   (defd m ''__clang__'',
     build ''Clang''
       [only (defd m ''_MSC_VER'') [SIMULATE ''MSVC''],
        MAJOR (DEC (tok m ''__clang_major__'')),
        MINOR (DEC (tok m ''__clang_minor__'')),
        PATCH (DEC (tok m ''__clang_patchlevel__'')),
        only (defd m ''_MSC_VER'')
          [SIM_MAJOR (DEC (via m ''_MSC_VER'' (\<lambda>v. v div 100))),
           SIM_MINOR (DEC (via m ''_MSC_VER'' (\<lambda>v. v mod 100)))]]),
   (any_def m [''__GNUC__'', ''__GNUG__''],
     build ''GNU''
       [either (defd m ''__GNUC__'')
          [MAJOR (DEC (tok m ''__GNUC__''))]
          [MAJOR (DEC (tok m ''__GNUG__''))],
        only (defd m ''__GNUC_MINOR__'') [MINOR (DEC (tok m ''__GNUC_MINOR__''))],
        only (defd m ''__GNUC_PATCHLEVEL__'') [PATCH (DEC (tok m ''__GNUC_PATCHLEVEL__''))]]),
   (defd m ''_MSC_VER'',
     build ''MSVC''
       [MAJOR (DEC (via m ''_MSC_VER'' (\<lambda>v. v div 100))),
        MINOR (DEC (via m ''_MSC_VER'' (\<lambda>v. v mod 100))),
        only (defd m ''_MSC_FULL_VER'')
          [either (num m ''_MSC_VER'' \<ge> 1400)
             [PATCH (DEC (via m ''_MSC_FULL_VER'' (\<lambda>v. v mod 100000)))]
             [PATCH (DEC (via m ''_MSC_FULL_VER'' (\<lambda>v. v mod 10000)))]],
        only (defd m ''_MSC_BUILD'') [TWEAK (DEC (tok m ''_MSC_BUILD''))]]),
   (any_def m [''__VISUALDSPVERSION__'', ''__ADSPBLACKFIN__'', ''__ADSPTS__'', ''__ADSP21000__''],
     build ''ADSP''
       [only (defd m ''__VISUALDSPVERSION__'')
          [MAJOR (HEX (via m ''__VISUALDSPVERSION__'' (\<lambda>v. drop_bit 24 v))),
           MINOR (HEX (via m ''__VISUALDSPVERSION__'' (\<lambda>v. drop_bit 16 v AND 255))),
           PATCH (HEX (via m ''__VISUALDSPVERSION__'' (\<lambda>v. drop_bit 8 v AND 255)))]]),
   (any_def m [''__IAR_SYSTEMS_ICC__'', ''__IAR_SYSTEMS_ICC''],
     build ''IAR''
       [either (defd m ''__VER__'' \<and> defd m ''__ICCARM__'')
          [MAJOR (DEC (via m ''__VER__'' (\<lambda>v. v div 1000000))),
           MINOR (DEC (via m ''__VER__'' (\<lambda>v. (v div 1000) mod 1000))),
           PATCH (DEC (via m ''__VER__'' (\<lambda>v. v mod 1000))),
           INTERNAL (DEC (tok m ''__IAR_SYSTEMS_ICC__''))]
          [only (defd m ''__VER__'' \<and> any_def m [''__ICCAVR__'', ''__ICCRX__'', ''__ICCRH850__'', ''__ICCRL78__'', ''__ICC430__'', ''__ICCRISCV__'', ''__ICCV850__'', ''__ICC8051__'', ''__ICCSTM8__''])
             [MAJOR (DEC (via m ''__VER__'' (\<lambda>v. v div 100))),
              MINOR (DEC (via m ''__VER__'' (\<lambda>v. v - ((v div 100) * 100)))),
              PATCH (DEC (tok m ''__SUBVERSION__'')),
              INTERNAL (DEC (tok m ''__IAR_SYSTEMS_ICC__''))]]]),
   (any_def m [''__hpux'', ''__hpua''],
     build ''HP'' [])]"

definition cxx_ident :: "predefs \<Rightarrow> ident" where
  "cxx_ident m = pick (cxx_rules1 m @ cxx_rules2 m @ cxx_rules3 m) (build '''' [])"

section \<open>Platform and architecture\<close>

definition cxx_platform :: "predefs \<Rightarrow> string" where
  "cxx_platform m = pick [
   (any_def m [''__linux'', ''__linux__'', ''linux''], ''Linux''),
   (defd m ''__MSYS__'', ''MSYS''),
   (defd m ''__CYGWIN__'', ''Cygwin''),
   (defd m ''__MINGW32__'', ''MinGW''),
   (defd m ''__APPLE__'', ''Darwin''),
   (any_def m [''_WIN32'', ''__WIN32__'', ''WIN32''], ''Windows''),
   (any_def m [''__FreeBSD__'', ''__FreeBSD''], ''FreeBSD''),
   (any_def m [''__NetBSD__'', ''__NetBSD''], ''NetBSD''),
   (any_def m [''__OpenBSD__'', ''__OPENBSD''], ''OpenBSD''),
   (any_def m [''__sun'', ''sun''], ''SunOS''),
   (any_def m [''_AIX'', ''__AIX'', ''__AIX__'', ''__aix'', ''__aix__''], ''AIX''),
   (any_def m [''__hpux'', ''__hpux__''], ''HP-UX''),
   (defd m ''__HAIKU__'', ''Haiku''),
   (any_def m [''__BeOS'', ''__BEOS__'', ''_BEOS''], ''BeOS''),
   (any_def m [''__QNX__'', ''__QNXNTO__''], ''QNX''),
   (any_def m [''__tru64'', ''_tru64'', ''__TRU64__''], ''Tru64''),
   (any_def m [''__riscos'', ''__riscos__''], ''RISCos''),
   (any_def m [''__sinix'', ''__sinix__'', ''__SINIX__''], ''SINIX''),
   (defd m ''__UNIX_SV__'', ''UNIX_SV''),
   (defd m ''__bsdos__'', ''BSDOS''),
   (any_def m [''_MPRAS'', ''MPRAS''], ''MP-RAS''),
   (any_def m [''__osf'', ''__osf__''], ''OSF1''),
   (any_def m [''_SCO_SV'', ''SCO_SV'', ''sco_sv''], ''SCO_SV''),
   (any_def m [''__ultrix'', ''__ultrix__'', ''_ULTRIX''], ''ULTRIX''),
   (any_def m [''__XENIX__'', ''_XENIX'', ''XENIX''], ''Xenix''),
   (defd m ''__WATCOMC__'',
    pick [
     (defd m ''__LINUX__'', ''Linux''),
     (defd m ''__DOS__'', ''DOS''),
     (defd m ''__OS2__'', ''OS2''),
     (defd m ''__WINDOWS__'', ''Windows3x''),
     (defd m ''__VXWORKS__'', ''VxWorks'')]
     ''''),
   (defd m ''__INTEGRITY'',
    pick [
     (defd m ''INT_178B'', ''Integrity178'')]
     ''Integrity'')]
   ''''"

definition cxx_architecture :: "predefs \<Rightarrow> string" where
  "cxx_architecture m = pick [
   (defd m ''_WIN32'' \<and> defd m ''_MSC_VER'',
    pick [
     (defd m ''_M_IA64'', ''IA64''),
     (defd m ''_M_ARM64EC'', ''ARM64EC''),
     (any_def m [''_M_X64'', ''_M_AMD64''], ''x64''),
     (defd m ''_M_IX86'', ''X86''),
     (defd m ''_M_ARM64'', ''ARM64''),
     (defd m ''_M_ARM'',
      pick [
       (num m ''_M_ARM'' = 4, ''ARMV4I''),
       (num m ''_M_ARM'' = 5, ''ARMV5I'')]
       ''ARMV'' @ stringify m ''_M_ARM''),
     (defd m ''_M_MIPS'', ''MIPS''),
     (defd m ''_M_SH'', ''SHx'')]
     ''''),
   (defd m ''__WATCOMC__'',
    pick [
     (defd m ''_M_I86'', ''I86''),
     (defd m ''_M_IX86'', ''X86'')]
     ''''),
   (any_def m [''__IAR_SYSTEMS_ICC__'', ''__IAR_SYSTEMS_ICC''],
    pick [
     (defd m ''__ICCARM__'', ''ARM''),
     (defd m ''__ICCRX__'', ''RX''),
     (defd m ''__ICCRH850__'', ''RH850''),
     (defd m ''__ICCRL78__'', ''RL78''),
     (defd m ''__ICCRISCV__'', ''RISCV''),
     (defd m ''__ICCAVR__'', ''AVR''),
     (defd m ''__ICC430__'', ''MSP430''),
     (defd m ''__ICCV850__'', ''V850''),
     (defd m ''__ICC8051__'', ''8051''),
     (defd m ''__ICCSTM8__'', ''STM8'')]
     ''''),
   (defd m ''__ghs__'',
    pick [
     (defd m ''__PPC64__'', ''PPC64''),
     (defd m ''__ppc__'', ''PPC''),
     (defd m ''__ARM__'', ''ARM''),
     (defd m ''__x86_64__'', ''x64''),
     (defd m ''__i386__'', ''X86'')]
     ''''),
   (defd m ''__TI_COMPILER_VERSION__'',
    pick [
     (defd m ''__TI_ARM__'', ''ARM''),
     (defd m ''__MSP430__'', ''MSP430''),
     (defd m ''__TMS320C28XX__'', ''TMS320C28x''),
     (any_def m [''__TMS320C6X__'', ''_TMS320C6X''], ''TMS320C6x'')]
     '''')]
   ''''"

section \<open>Language standard\<close>

definition cxx_std :: "predefs \<Rightarrow> nat" where
  "cxx_std m = pick [
     (defd m ''__INTEL_COMPILER'' \<and> defd m ''_MSVC_LANG'' \<and> num m ''_MSVC_LANG'' < 201403,
       if defd m ''__INTEL_CXX11_MODE__''
       then if defd m ''__cpp_aggregate_nsdmi'' then 201402 else 201103
       else 199711),
     (defd m ''_MSC_VER'' \<and> defd m ''_MSVC_LANG'', num m ''_MSVC_LANG'')]
     (num m ''__cplusplus'')"

definition std_name :: "nat \<Rightarrow> string" where
  "std_name v = pick [(v > 202002, ''23''), (v > 201703, ''20''), (v \<ge> 201703, ''17''), (v \<ge> 201402, ''14''),
     (v \<ge> 201103, ''11'')] ''98''"

definition cxx_standard :: "predefs \<Rightarrow> string" where
  "cxx_standard m = bracket ''standard_default'' (std_name (cxx_std m))"

section \<open>The program\<close>

text \<open>
  The texts that \<open>main\<close> reads, in its order; \<open>None\<close> when the unit does not compile, because the
  compiler is not one for C++ or a version names an undefined macro.
\<close>

definition cxx_texts :: "predefs \<Rightarrow> string list option" where
  "cxx_texts m = (let i = cxx_ident m in
     if \<not> defd m ''__cplusplus'' \<or> \<not> compiles i then None
     else Some ([info_compiler i, bracket ''platform'' (cxx_platform m)] @ ident_texts i @
       (if defd m ''__CRAYXT_COMPUTE_LINUX_TARGET'' then [info_cray] else []) @
       [cxx_standard m, gnu_extensions m]))"

definition cxx_main :: "predefs \<Rightarrow> nat \<Rightarrow> int res option" where
  "cxx_main m argc = map_option (require_sum argc) (cxx_texts m)"

end
