(* ===== verification/Compiler_Id_C.thy ===== *)
theory Compiler_Id_C
  imports Compiler_Id_Cxx
begin

text \<open>
  The C identification program (\<open>CompilerIdC/CMakeCCompilerId.c\<close>), translated on its own from its
  file, and its agreement with the C++ one.
\<close>

section \<open>The compiler\<close>

definition c_rules1 :: "predefs \<Rightarrow> (bool \<times> ident) list" where
  "c_rules1 m = [
   (any_def m [''__INTEL_COMPILER'', ''__ICC''],
     build ''Intel''
       [only (defd m ''_MSC_VER'') [SIMULATE ''MSVC''],
        only (defd m ''__GNUC__'') [SIMULATE ''GNU''],
        either (num m ''__INTEL_COMPILER'' < 2021
            \<or> num m ''__INTEL_COMPILER'' = 202110
            \<or> num m ''__INTEL_COMPILER'' = 202111)
          [MAJOR (DEC (via m ''__INTEL_COMPILER'' (\<lambda>v. v div 100))),
           MINOR (DEC (via m ''__INTEL_COMPILER'' (\<lambda>v. v div 10 mod 10))),
           either (defd m ''__INTEL_COMPILER_UPDATE'')
             [PATCH (DEC (tok m ''__INTEL_COMPILER_UPDATE''))]
             [PATCH (DEC (via m ''__INTEL_COMPILER'' (\<lambda>v. v mod 10)))]]
          [MAJOR (DEC (tok m ''__INTEL_COMPILER'')),
           MINOR (DEC (tok m ''__INTEL_COMPILER_UPDATE'')),
           PATCH (DEC (Some 0))],
        only (defd m ''__INTEL_COMPILER_BUILD_DATE'')
          [TWEAK (DEC (tok m ''__INTEL_COMPILER_BUILD_DATE''))],
        only (defd m ''_MSC_VER'')
          [SIM_MAJOR (DEC (via m ''_MSC_VER'' (\<lambda>v. v div 100))),
           SIM_MINOR (DEC (via m ''_MSC_VER'' (\<lambda>v. v mod 100)))],
        either (defd m ''__GNUC__'')
          [SIM_MAJOR (DEC (tok m ''__GNUC__''))]
          [only (defd m ''__GNUG__'') [SIM_MAJOR (DEC (tok m ''__GNUG__''))]],
        only (defd m ''__GNUC_MINOR__'') [SIM_MINOR (DEC (tok m ''__GNUC_MINOR__''))],
        only (defd m ''__GNUC_PATCHLEVEL__'') [SIM_PATCH (DEC (tok m ''__GNUC_PATCHLEVEL__''))]]),
   (defd m ''__clang__'' \<and> defd m ''__INTEL_CLANG_COMPILER'' \<or> defd m ''__INTEL_LLVM_COMPILER'',
     build ''IntelLLVM''
       [only (defd m ''_MSC_VER'') [SIMULATE ''MSVC''],
        only (defd m ''__GNUC__'') [SIMULATE ''GNU''],
        either (num m ''__INTEL_LLVM_COMPILER'' < 1000000)
          [MAJOR (DEC (via m ''__INTEL_LLVM_COMPILER'' (\<lambda>v. v div 100))),
           MINOR (DEC (via m ''__INTEL_LLVM_COMPILER'' (\<lambda>v. v div 10 mod 10))),
           PATCH (DEC (via m ''__INTEL_LLVM_COMPILER'' (\<lambda>v. v mod 10)))]
          [MAJOR (DEC (via m ''__INTEL_LLVM_COMPILER'' (\<lambda>v. v div 10000))),
           MINOR (DEC (via m ''__INTEL_LLVM_COMPILER'' (\<lambda>v. v div 100 mod 100))),
           PATCH (DEC (via m ''__INTEL_LLVM_COMPILER'' (\<lambda>v. v mod 100)))],
        only (defd m ''_MSC_VER'')
          [SIM_MAJOR (DEC (via m ''_MSC_VER'' (\<lambda>v. v div 100))),
           SIM_MINOR (DEC (via m ''_MSC_VER'' (\<lambda>v. v mod 100)))],
        either (defd m ''__GNUC__'')
          [SIM_MAJOR (DEC (tok m ''__GNUC__''))]
          [only (defd m ''__GNUG__'') [SIM_MAJOR (DEC (tok m ''__GNUG__''))]],
        only (defd m ''__GNUC_MINOR__'') [SIM_MINOR (DEC (tok m ''__GNUC_MINOR__''))],
        only (defd m ''__GNUC_PATCHLEVEL__'') [SIM_PATCH (DEC (tok m ''__GNUC_PATCHLEVEL__''))]]),
   (defd m ''__PATHCC__'',
     build ''PathScale''
       [MAJOR (DEC (tok m ''__PATHCC__'')),
        MINOR (DEC (tok m ''__PATHCC_MINOR__'')),
        only (defd m ''__PATHCC_PATCHLEVEL__'') [PATCH (DEC (tok m ''__PATHCC_PATCHLEVEL__''))]]),
   (defd m ''__BORLANDC__'' \<and> defd m ''__CODEGEARC_VERSION__'',
     build ''Embarcadero''
       [MAJOR (HEX (via m ''__CODEGEARC_VERSION__'' (\<lambda>v. drop_bit 24 v AND 255))),
        MINOR (HEX (via m ''__CODEGEARC_VERSION__'' (\<lambda>v. drop_bit 16 v AND 255))),
        PATCH (DEC (via m ''__CODEGEARC_VERSION__'' (\<lambda>v. v AND 65535)))]),
   (defd m ''__BORLANDC__'',
     build ''Borland''
       [MAJOR (HEX (via m ''__BORLANDC__'' (\<lambda>v. drop_bit 8 v))),
        MINOR (HEX (via m ''__BORLANDC__'' (\<lambda>v. v AND 255)))]),
   (defd m ''__WATCOMC__'' \<and> num m ''__WATCOMC__'' < 1200,
     build ''Watcom''
       [MAJOR (DEC (via m ''__WATCOMC__'' (\<lambda>v. v div 100))),
        MINOR (DEC (via m ''__WATCOMC__'' (\<lambda>v. (v div 10) mod 10))),
        only (num m ''__WATCOMC__'' mod 10 > 0)
          [PATCH (DEC (via m ''__WATCOMC__'' (\<lambda>v. v mod 10)))]]),
   (defd m ''__WATCOMC__'',
     build ''OpenWatcom''
       [MAJOR (DEC (via m ''__WATCOMC__'' (\<lambda>v. (v - 1100) div 100))),
        MINOR (DEC (via m ''__WATCOMC__'' (\<lambda>v. (v div 10) mod 10))),
        only (num m ''__WATCOMC__'' mod 10 > 0)
          [PATCH (DEC (via m ''__WATCOMC__'' (\<lambda>v. v mod 10)))]])]"

definition c_rules2 :: "predefs \<Rightarrow> (bool \<times> ident) list" where
  "c_rules2 m = [
   (defd m ''__SUNPRO_C'',
     build ''SunPro''
       [either (num m ''__SUNPRO_C'' \<ge> 20736)
          [MAJOR (HEX (via m ''__SUNPRO_C'' (\<lambda>v. drop_bit 12 v))),
           MINOR (HEX (via m ''__SUNPRO_C'' (\<lambda>v. drop_bit 4 v AND 255))),
           PATCH (HEX (via m ''__SUNPRO_C'' (\<lambda>v. v AND 15)))]
          [MAJOR (HEX (via m ''__SUNPRO_C'' (\<lambda>v. drop_bit 8 v))),
           MINOR (HEX (via m ''__SUNPRO_C'' (\<lambda>v. drop_bit 4 v AND 15))),
           PATCH (HEX (via m ''__SUNPRO_C'' (\<lambda>v. v AND 15)))]]),
   (defd m ''__HP_cc'',
     build ''HP''
       [MAJOR (DEC (via m ''__HP_cc'' (\<lambda>v. v div 10000))),
        MINOR (DEC (via m ''__HP_cc'' (\<lambda>v. v div 100 mod 100))),
        PATCH (DEC (via m ''__HP_cc'' (\<lambda>v. v mod 100)))]),
   (defd m ''__DECC'',
     build ''Compaq''
       [MAJOR (DEC (via m ''__DECC_VER'' (\<lambda>v. v div 10000000))),
        MINOR (DEC (via m ''__DECC_VER'' (\<lambda>v. v div 100000 mod 100))),
        PATCH (DEC (via m ''__DECC_VER'' (\<lambda>v. v mod 10000)))]),
   (defd m ''__IBMC__'' \<and> defd m ''__COMPILER_VER__'',
     build ''zOS''
       [MAJOR (DEC (via m ''__IBMC__'' (\<lambda>v. v div 100))),
        MINOR (DEC (via m ''__IBMC__'' (\<lambda>v. v div 10 mod 10))),
        PATCH (DEC (via m ''__IBMC__'' (\<lambda>v. v mod 10)))]),
   (defd m ''__ibmxl__'' \<and> defd m ''__clang__'',
     build ''XLClang''
       [MAJOR (DEC (tok m ''__ibmxl_version__'')),
        MINOR (DEC (tok m ''__ibmxl_release__'')),
        PATCH (DEC (tok m ''__ibmxl_modification__'')),
        TWEAK (DEC (tok m ''__ibmxl_ptf_fix_level__''))]),
   (defd m ''__IBMC__'' \<and> \<not> defd m ''__COMPILER_VER__'' \<and> num m ''__IBMC__'' \<ge> 800,
     build ''XL''
       [MAJOR (DEC (via m ''__IBMC__'' (\<lambda>v. v div 100))),
        MINOR (DEC (via m ''__IBMC__'' (\<lambda>v. v div 10 mod 10))),
        PATCH (DEC (via m ''__IBMC__'' (\<lambda>v. v mod 10)))]),
   (defd m ''__IBMC__'' \<and> \<not> defd m ''__COMPILER_VER__'' \<and> num m ''__IBMC__'' < 800,
     build ''VisualAge''
       [MAJOR (DEC (via m ''__IBMC__'' (\<lambda>v. v div 100))),
        MINOR (DEC (via m ''__IBMC__'' (\<lambda>v. v div 10 mod 10))),
        PATCH (DEC (via m ''__IBMC__'' (\<lambda>v. v mod 10)))]),
   (defd m ''__NVCOMPILER'',
     build ''NVHPC''
       [MAJOR (DEC (tok m ''__NVCOMPILER_MAJOR__'')),
        MINOR (DEC (tok m ''__NVCOMPILER_MINOR__'')),
        only (defd m ''__NVCOMPILER_PATCHLEVEL__'')
          [PATCH (DEC (tok m ''__NVCOMPILER_PATCHLEVEL__''))]]),
   (defd m ''__PGI'',
     build ''PGI''
       [MAJOR (DEC (tok m ''__PGIC__'')),
        MINOR (DEC (tok m ''__PGIC_MINOR__'')),
        only (defd m ''__PGIC_PATCHLEVEL__'') [PATCH (DEC (tok m ''__PGIC_PATCHLEVEL__''))]]),
   (defd m ''_CRAYC'',
     build ''Cray''
       [MAJOR (DEC (tok m ''_RELEASE_MAJOR'')),
        MINOR (DEC (tok m ''_RELEASE_MINOR''))]),
   (defd m ''__TI_COMPILER_VERSION__'',
     build ''TI''
       [MAJOR (DEC (via m ''__TI_COMPILER_VERSION__'' (\<lambda>v. v div 1000000))),
        MINOR (DEC (via m ''__TI_COMPILER_VERSION__'' (\<lambda>v. v div 1000 mod 1000))),
        PATCH (DEC (via m ''__TI_COMPILER_VERSION__'' (\<lambda>v. v mod 1000)))]),
   (defd m ''__CLANG_FUJITSU'',
     build ''FujitsuClang''
       [MAJOR (DEC (tok m ''__FCC_major__'')),
        MINOR (DEC (tok m ''__FCC_minor__'')),
        PATCH (DEC (tok m ''__FCC_patchlevel__'')),
        INTERNAL_STR (text_of m ''__clang_version__'')]),
   (defd m ''__FUJITSU'',
     build ''Fujitsu''
       [either (defd m ''__FCC_version__'')
          [VERSION_TEXT (text_of m ''__FCC_version__'')]
          [only (defd m ''__FCC_major__'')
             [MAJOR (DEC (tok m ''__FCC_major__'')),
              MINOR (DEC (tok m ''__FCC_minor__'')),
              PATCH (DEC (tok m ''__FCC_patchlevel__''))]],
        either (defd m ''__fcc_version'')
          [INTERNAL (DEC (tok m ''__fcc_version''))]
          [only (defd m ''__FCC_VERSION'') [INTERNAL (DEC (tok m ''__FCC_VERSION''))]]]),
   (defd m ''__ghs__'',
     build ''GHS''
       [only (defd m ''__GHS_VERSION_NUMBER'')
          [MAJOR (DEC (via m ''__GHS_VERSION_NUMBER'' (\<lambda>v. v div 100))),
           MINOR (DEC (via m ''__GHS_VERSION_NUMBER'' (\<lambda>v. v div 10 mod 10))),
           PATCH (DEC (via m ''__GHS_VERSION_NUMBER'' (\<lambda>v. v mod 10)))]]),
   (defd m ''__TINYC__'',
     build ''TinyCC'' []),
   (defd m ''__BCC__'',
     build ''Bruce'' []),
   (defd m ''__SCO_VERSION__'',
     build ''SCO'' [])]"

definition c_rules3 :: "predefs \<Rightarrow> (bool \<times> ident) list" where
  "c_rules3 m = [
   (defd m ''__ARMCC_VERSION'' \<and> \<not> defd m ''__clang__'',
     build ''ARMCC''
       [either (num m ''__ARMCC_VERSION'' \<ge> 1000000)
          [MAJOR (DEC (via m ''__ARMCC_VERSION'' (\<lambda>v. v div 1000000))),
           MINOR (DEC (via m ''__ARMCC_VERSION'' (\<lambda>v. v div 10000 mod 100))),
           PATCH (DEC (via m ''__ARMCC_VERSION'' (\<lambda>v. v mod 10000)))]
          [MAJOR (DEC (via m ''__ARMCC_VERSION'' (\<lambda>v. v div 100000))),
           MINOR (DEC (via m ''__ARMCC_VERSION'' (\<lambda>v. v div 10000 mod 10))),
           PATCH (DEC (via m ''__ARMCC_VERSION'' (\<lambda>v. v mod 10000)))]]),
   (defd m ''__clang__'' \<and> defd m ''__apple_build_version__'',
     build ''AppleClang''
       [only (defd m ''_MSC_VER'') [SIMULATE ''MSVC''],
        MAJOR (DEC (tok m ''__clang_major__'')),
        MINOR (DEC (tok m ''__clang_minor__'')),
        PATCH (DEC (tok m ''__clang_patchlevel__'')),
        only (defd m ''_MSC_VER'')
          [SIM_MAJOR (DEC (via m ''_MSC_VER'' (\<lambda>v. v div 100))),
           SIM_MINOR (DEC (via m ''_MSC_VER'' (\<lambda>v. v mod 100)))],
        TWEAK (DEC (tok m ''__apple_build_version__''))]),
   (defd m ''__clang__'' \<and> defd m ''__ARMCOMPILER_VERSION'',
     build ''ARMClang''
       [MAJOR (DEC (via m ''__ARMCOMPILER_VERSION'' (\<lambda>v. v div 1000000))),
        MINOR (DEC (via m ''__ARMCOMPILER_VERSION'' (\<lambda>v. v div 10000 mod 100))),
        PATCH (DEC (via m ''__ARMCOMPILER_VERSION'' (\<lambda>v. v mod 10000))),
        INTERNAL (DEC (tok m ''__ARMCOMPILER_VERSION''))]),
   (defd m ''__clang__'',
     build ''Clang''
       [only (defd m ''_MSC_VER'') [SIMULATE ''MSVC''],
        MAJOR (DEC (tok m ''__clang_major__'')),
        MINOR (DEC (tok m ''__clang_minor__'')),
        PATCH (DEC (tok m ''__clang_patchlevel__'')),
        only (defd m ''_MSC_VER'')
          [SIM_MAJOR (DEC (via m ''_MSC_VER'' (\<lambda>v. v div 100))),
           SIM_MINOR (DEC (via m ''_MSC_VER'' (\<lambda>v. v mod 100)))]]),
   (defd m ''__GNUC__'',
     build ''GNU''
       [MAJOR (DEC (tok m ''__GNUC__'')),
        only (defd m ''__GNUC_MINOR__'') [MINOR (DEC (tok m ''__GNUC_MINOR__''))],
        only (defd m ''__GNUC_PATCHLEVEL__'') [PATCH (DEC (tok m ''__GNUC_PATCHLEVEL__''))]]),
   (defd m ''_MSC_VER'',
     build ''MSVC''
       [MAJOR (DEC (via m ''_MSC_VER'' (\<lambda>v. v div 100))),
        MINOR (DEC (via m ''_MSC_VER'' (\<lambda>v. v mod 100))),
        only (defd m ''_MSC_FULL_VER'')
          [either (num m ''_MSC_VER'' \<ge> 1400)
             [PATCH (DEC (via m ''_MSC_FULL_VER'' (\<lambda>v. v mod 100000)))]
             [PATCH (DEC (via m ''_MSC_FULL_VER'' (\<lambda>v. v mod 10000)))]],
        only (defd m ''_MSC_BUILD'') [TWEAK (DEC (tok m ''_MSC_BUILD''))]]),
   (any_def m [''__VISUALDSPVERSION__'', ''__ADSPBLACKFIN__'', ''__ADSPTS__'', ''__ADSP21000__''],
     build ''ADSP''
       [only (defd m ''__VISUALDSPVERSION__'')
          [MAJOR (HEX (via m ''__VISUALDSPVERSION__'' (\<lambda>v. drop_bit 24 v))),
           MINOR (HEX (via m ''__VISUALDSPVERSION__'' (\<lambda>v. drop_bit 16 v AND 255))),
           PATCH (HEX (via m ''__VISUALDSPVERSION__'' (\<lambda>v. drop_bit 8 v AND 255)))]]),
   (any_def m [''__IAR_SYSTEMS_ICC__'', ''__IAR_SYSTEMS_ICC''],
     build ''IAR''
       [either (defd m ''__VER__'' \<and> defd m ''__ICCARM__'')
          [MAJOR (DEC (via m ''__VER__'' (\<lambda>v. v div 1000000))),
           MINOR (DEC (via m ''__VER__'' (\<lambda>v. (v div 1000) mod 1000))),
           PATCH (DEC (via m ''__VER__'' (\<lambda>v. v mod 1000))),
           INTERNAL (DEC (tok m ''__IAR_SYSTEMS_ICC__''))]
          [only (defd m ''__VER__'' \<and> any_def m [''__ICCAVR__'', ''__ICCRX__'', ''__ICCRH850__'', ''__ICCRL78__'', ''__ICC430__'', ''__ICCRISCV__'', ''__ICCV850__'', ''__ICC8051__'', ''__ICCSTM8__''])
             [MAJOR (DEC (via m ''__VER__'' (\<lambda>v. v div 100))),
              MINOR (DEC (via m ''__VER__'' (\<lambda>v. v - ((v div 100) * 100)))),
              PATCH (DEC (tok m ''__SUBVERSION__'')),
              INTERNAL (DEC (tok m ''__IAR_SYSTEMS_ICC__''))]]]),
   (any_def m [''__SDCC_VERSION_MAJOR'', ''SDCC''],
     build ''SDCC''
       [either (defd m ''__SDCC_VERSION_MAJOR'')
          [MAJOR (DEC (tok m ''__SDCC_VERSION_MAJOR'')),
           MINOR (DEC (tok m ''__SDCC_VERSION_MINOR'')),
           PATCH (DEC (tok m ''__SDCC_VERSION_PATCH''))]
          [MAJOR (DEC (via m ''SDCC'' (\<lambda>v. v div 100))),
           MINOR (DEC (via m ''SDCC'' (\<lambda>v. v div 10 mod 10))),
           PATCH (DEC (via m ''SDCC'' (\<lambda>v. v mod 10)))]]),
   (any_def m [''__hpux'', ''__hpua''],
     build ''HP'' [])]"

definition c_ident :: "predefs \<Rightarrow> ident" where
  "c_ident m = pick (c_rules1 m @ c_rules2 m @ c_rules3 m) (build '''' [])"

section \<open>Platform and architecture\<close>

definition c_platform :: "predefs \<Rightarrow> string" where
  "c_platform m = pick [
   (any_def m [''__linux'', ''__linux__'', ''linux''], ''Linux''),
   (defd m ''__MSYS__'', ''MSYS''),
   (defd m ''__CYGWIN__'', ''Cygwin''),
   (defd m ''__MINGW32__'', ''MinGW''),
   (defd m ''__APPLE__'', ''Darwin''),
   (any_def m [''_WIN32'', ''__WIN32__'', ''WIN32''], ''Windows''),
   (any_def m [''__FreeBSD__'', ''__FreeBSD''], ''FreeBSD''),
   (any_def m [''__NetBSD__'', ''__NetBSD''], ''NetBSD''),
   (any_def m [''__OpenBSD__'', ''__OPENBSD''], ''OpenBSD''),
   (any_def m [''__sun'', ''sun''], ''SunOS''),
   (any_def m [''_AIX'', ''__AIX'', ''__AIX__'', ''__aix'', ''__aix__''], ''AIX''),
   (any_def m [''__hpux'', ''__hpux__''], ''HP-UX''),
   (defd m ''__HAIKU__'', ''Haiku''),
   (any_def m [''__BeOS'', ''__BEOS__'', ''_BEOS''], ''BeOS''),
   (any_def m [''__QNX__'', ''__QNXNTO__''], ''QNX''),
   (any_def m [''__tru64'', ''_tru64'', ''__TRU64__''], ''Tru64''),
   (any_def m [''__riscos'', ''__riscos__''], ''RISCos''),
   (any_def m [''__sinix'', ''__sinix__'', ''__SINIX__''], ''SINIX''),
   (defd m ''__UNIX_SV__'', ''UNIX_SV''),
   (defd m ''__bsdos__'', ''BSDOS''),
   (any_def m [''_MPRAS'', ''MPRAS''], ''MP-RAS''),
   (any_def m [''__osf'', ''__osf__''], ''OSF1''),
   (any_def m [''_SCO_SV'', ''SCO_SV'', ''sco_sv''], ''SCO_SV''),
   (any_def m [''__ultrix'', ''__ultrix__'', ''_ULTRIX''], ''ULTRIX''),
   (any_def m [''__XENIX__'', ''_XENIX'', ''XENIX''], ''Xenix''),
   (defd m ''__WATCOMC__'',
    pick [
     (defd m ''__LINUX__'', ''Linux''),
     (defd m ''__DOS__'', ''DOS''),
     (defd m ''__OS2__'', ''OS2''),
     (defd m ''__WINDOWS__'', ''Windows3x''),
     (defd m ''__VXWORKS__'', ''VxWorks'')]
     ''''),
   (defd m ''__INTEGRITY'',
    pick [
     (defd m ''INT_178B'', ''Integrity178'')]
     ''Integrity'')]
   ''''"

definition c_architecture :: "predefs \<Rightarrow> string" where
  "c_architecture m = pick [
   (defd m ''_WIN32'' \<and> defd m ''_MSC_VER'',
    pick [
     (defd m ''_M_IA64'', ''IA64''),
     (defd m ''_M_ARM64EC'', ''ARM64EC''),
     (any_def m [''_M_X64'', ''_M_AMD64''], ''x64''),
     (defd m ''_M_IX86'', ''X86''),
     (defd m ''_M_ARM64'', ''ARM64''),
     (defd m ''_M_ARM'',
      pick [
       (num m ''_M_ARM'' = 4, ''ARMV4I''),
       (num m ''_M_ARM'' = 5, ''ARMV5I'')]
       ''ARMV'' @ stringify m ''_M_ARM''),
     (defd m ''_M_MIPS'', ''MIPS''),
     (defd m ''_M_SH'', ''SHx'')]
     ''''),
   (defd m ''__WATCOMC__'',
    pick [
     (defd m ''_M_I86'', ''I86''),
     (defd m ''_M_IX86'', ''X86'')]
     ''''),
   (any_def m [''__IAR_SYSTEMS_ICC__'', ''__IAR_SYSTEMS_ICC''],
    pick [
     (defd m ''__ICCARM__'', ''ARM''),
     (defd m ''__ICCRX__'', ''RX''),
     (defd m ''__ICCRH850__'', ''RH850''),
     (defd m ''__ICCRL78__'', ''RL78''),
     (defd m ''__ICCRISCV__'', ''RISCV''),
     (defd m ''__ICCAVR__'', ''AVR''),
     (defd m ''__ICC430__'', ''MSP430''),
     (defd m ''__ICCV850__'', ''V850''),
     (defd m ''__ICC8051__'', ''8051''),
     (defd m ''__ICCSTM8__'', ''STM8'')]
     ''''),
   (defd m ''__ghs__'',
    pick [
     (defd m ''__PPC64__'', ''PPC64''),
     (defd m ''__ppc__'', ''PPC''),
     (defd m ''__ARM__'', ''ARM''),
     (defd m ''__x86_64__'', ''x64''),
     (defd m ''__i386__'', ''X86'')]
     ''''),
   (defd m ''__TI_COMPILER_VERSION__'',
    pick [
     (defd m ''__TI_ARM__'', ''ARM''),
     (defd m ''__MSP430__'', ''MSP430''),
     (defd m ''__TMS320C28XX__'', ''TMS320C28x''),
     (any_def m [''__TMS320C6X__'', ''_TMS320C6X''], ''TMS320C6x'')]
     '''')]
   ''''"

section \<open>Language standard\<close>

definition c_version :: "predefs \<Rightarrow> string" where
  "c_version m = (let v = num m ''__STDC_VERSION__'' in pick [
     (\<not> defd m ''__STDC__'' \<and> \<not> defd m ''__clang__'',
       if any_def m [''_MSC_VER'', ''__ibmxl__'', ''__IBMC__''] then ''90'' else ''''),
     (v > 201710, ''23''), (v \<ge> 201710, ''17''), (v \<ge> 201000, ''11''), (v \<ge> 199901, ''99'')] ''90'')"

definition c_standard :: "predefs \<Rightarrow> string" where
  "c_standard m = bracket ''standard_default'' (c_version m)"

section \<open>The program\<close>

definition c_texts :: "predefs \<Rightarrow> string list option" where
  "c_texts m = (let i = c_ident m in
     if defd m ''__cplusplus'' \<or> \<not> compiles i then None
     else Some ([info_compiler i, bracket ''platform'' (c_platform m), bracket ''arch'' (c_architecture m)] @
       ident_texts i @ (if defd m ''__CRAYXT_COMPUTE_LINUX_TARGET'' then [info_cray] else []) @
       [c_standard m, gnu_extensions m]))"

text \<open>With \<open>__18CXX\<close> the program is an empty \<open>main\<close>.\<close>

definition c_main :: "predefs \<Rightarrow> nat \<Rightarrow> int res option" where
  "c_main m argc = map_option (if defd m ''__18CXX'' then (\<lambda>ts. Inr 0) else require_sum argc) (c_texts m)"

section \<open>Properties\<close>

text \<open>The macros by which only one of the two languages recognises a compiler.\<close>

definition language_macros :: "string list" where
  "language_macros = [''__COMO__'', ''__SUNPRO_C'', ''__SUNPRO_CC'', ''__HP_cc'', ''__HP_aCC'', ''__DECC'', ''__DECCXX'',
     ''__IBMC__'', ''__IBMCPP__'', ''__TINYC__'', ''__BCC__'', ''__GNUG__'', ''__SDCC_VERSION_MAJOR'', ''SDCC'']"

lemma pick_append: "pick (xs @ ys) d = pick xs (pick ys d)"
  by (induction xs d rule: pick.induct) simp_all


text \<open>Every text names its key, and the shortest key is \<open>arch\<close>.\<close>

definition keyed :: "string \<Rightarrow> bool" where
  "keyed s \<longleftrightarrow> (\<exists>key t. s = bracket key t \<and> 4 \<le> length key)"

lemma keyed_bracket: "4 \<le> length key \<Longrightarrow> keyed (bracket key t)"
  by (auto simp: keyed_def)

lemma keyed_length: "keyed s \<Longrightarrow> 11 \<le> length s"
  by (auto simp: keyed_def bracket_def)

lemma keyed_some_text:
  "4 \<le> length key \<Longrightarrow> s \<in> set (some_text d (map_option (map_option (bracket key)) t)) \<Longrightarrow> keyed s"
  by (cases d; cases t; cases "the t") (auto intro: keyed_bracket)

lemma keyed_simulate: "s \<in> set (case info_simulate i of None \<Rightarrow> [] | Some t \<Rightarrow> [t]) \<Longrightarrow> keyed s"
  by (cases "id_simulate i") (auto simp: info_simulate_def intro: keyed_bracket)

lemma keyed_ident: "s \<in> set (ident_texts i) \<Longrightarrow> keyed s"
  unfolding ident_texts_def info_version_def info_version_internal_def info_simulate_version_def set_append
  by (elim UnE keyed_simulate keyed_some_text [rotated]) simp_all

lemma keyed_texts: "cxx_texts m = Some ts \<or> c_texts m = Some ts \<Longrightarrow> s \<in> set ts \<Longrightarrow> keyed s"
  by (auto simp: cxx_texts_def c_texts_def Let_def info_compiler_def info_cray_def cxx_standard_def c_standard_def
      gnu_extensions_def split: if_splits dest: keyed_ident intro!: keyed_bracket)

lemma require_sum_ok: "\<forall>s\<in>set ts. argc \<le> length s \<Longrightarrow> \<exists>n. require_sum argc ts = Inr n"
  by (induction ts) (auto simp: char_at_def)

text \<open>C38: \<open>main\<close> of both programs reads inside its texts as long as it has at most 11 arguments, whatever the
  compiler: the shortest text is the one of an unknown architecture.\<close>

theorem main_reads_in_bounds:
  assumes "argc \<le> 11" "cxx_main m argc = Some r \<or> c_main m argc = Some r"
  shows "\<exists>n. r = Inr n"
proof -
  have ok: "\<exists>n. require_sum argc ts = Inr n" if "cxx_texts m = Some ts \<or> c_texts m = Some ts" for ts
    using keyed_length keyed_texts [OF that] assms(1) by (intro require_sum_ok) (meson le_trans)
  then show ?thesis using assms(2)
    by (auto simp: cxx_main_def c_main_def split: if_splits)
qed

text \<open>The macros of the compiler that configured these directories, GCC on 64-bit Linux.\<close>

definition gnu_linux :: "nat \<Rightarrow> nat \<Rightarrow> nat \<Rightarrow> predefs" where
  "gnu_linux a b c = [''__GNUC__'' \<mapsto> Num a, ''__GNUC_MINOR__'' \<mapsto> Num b, ''__GNUC_PATCHLEVEL__'' \<mapsto> Num c,
     ''__linux__'' \<mapsto> Num 1, ''__x86_64__'' \<mapsto> Num 1]"

lemma gcc_texts:
  "cxx_texts ((gnu_linux a b c)(''__cplusplus'' \<mapsto> Num v)) =
    Some [''INFO:compiler[GNU]'', ''INFO:platform[Linux]'',
      ''INFO:compiler_version['' @ dec_text a @ ''.'' @ dec_text b @ ''.'' @ dec_text c @ '']'',
      ''INFO:standard_default['' @ std_name v @ '']'', ''INFO:extensions_default[ON]'']"
proof -
  let ?m = "(gnu_linux a b c)(''__cplusplus'' \<mapsto> Num v)"
  have "pick (cxx_rules1 ?m) d = d" for d
    by (simp add: cxx_rules1_def any_def_def defd_def gnu_linux_def)
  moreover have "pick (cxx_rules2 ?m) d = d" for d
    by (simp add: cxx_rules2_def any_def_def defd_def gnu_linux_def)
  moreover have "pick (cxx_rules3 ?m) d = build ''GNU'' [MAJOR (Some (dec_text a)), MINOR (Some (dec_text b)), PATCH (Some (dec_text c))]" for d
    by (simp add: cxx_rules3_def any_def_def defd_def gnu_linux_def tok_def DEC_def build_def either_def only_def define_defs)
  ultimately have "cxx_ident ?m = build ''GNU'' [MAJOR (Some (dec_text a)), MINOR (Some (dec_text b)), PATCH (Some (dec_text c))]"
    by (simp add: cxx_ident_def pick_append)
  moreover have "cxx_platform ?m = ''Linux''"
    by (simp add: cxx_platform_def any_def_def defd_def gnu_linux_def)
  moreover have "cxx_standard ?m = bracket ''standard_default'' (std_name v)"
    by (simp add: cxx_standard_def cxx_std_def defd_def gnu_linux_def num_def)
  moreover have "gnu_extensions ?m = bracket ''extensions_default'' ''ON''"
    by (simp add: gnu_extensions_def any_def_def defd_def gnu_linux_def)
  moreover have "defd ?m ''__cplusplus''" "\<not> defd ?m ''__CRAYXT_COMPUTE_LINUX_TARGET''"
    by (simp_all add: defd_def gnu_linux_def)
  ultimately show ?thesis
    by (simp add: cxx_texts_def compiles_def ident_texts_def info_version_def info_version_internal_def
        info_simulate_version_def info_simulate_def info_compiler_def bracket_def build_def define_defs
        dotted_def del: std_name_def)
qed

lemma main_reads_in_bounds_witness:
  "\<exists>n. cxx_main ((gnu_linux 11 4 0)(''__cplusplus'' \<mapsto> Num 201703)) 1 = Some (Inr n)"
proof -
  obtain r where r: "cxx_main ((gnu_linux 11 4 0)(''__cplusplus'' \<mapsto> Num 201703)) 1 = Some r"
    by (simp add: cxx_main_def gcc_texts)
  then show ?thesis using main_reads_in_bounds [OF _ disjI1 [OF r]] by auto
qed

text \<open>GCC on Linux is recognised with its version.  Whatever its three version numbers and its language
  standard, the C++ program carries the name GNU, the platform Linux, the three numbers in eight
  digits each, the year of the standard, and the GNU extensions.\<close>

theorem gcc_on_linux_identified:
  "cxx_texts ((gnu_linux a b c)(''__cplusplus'' \<mapsto> Num v)) =
    Some [''INFO:compiler[GNU]'', ''INFO:platform[Linux]'',
      ''INFO:compiler_version['' @ dec_text a @ ''.'' @ dec_text b @ ''.'' @ dec_text c @ '']'',
      ''INFO:standard_default['' @ std_name v @ '']'', ''INFO:extensions_default[ON]'']"
  by (rule gcc_texts)

end
