(* ===== verification/Loop_Life.thy ===== *)
theory Loop_Life
  imports Poller Timers
begin

text \<open>
  Construction and destruction of an event loop (\<open>EventLoop::EventLoop\<close>, \<open>~EventLoop\<close>,
  \<open>TimerQueue::TimerQueue\<close>, \<open>~TimerQueue\<close>): the three descriptors, the two channels that the loop owns
  itself, and the order in which they go.  The answers of \<open>epoll_create1\<close>, \<open>eventfd\<close> and
  \<open>timerfd_create\<close> are arguments; \<open>LOG_FATAL\<close> aborts.
\<close>

section \<open>State and operations\<close>

datatype loop_cb = WakeupRead | TimerRead

text \<open>\<open>lo_log\<close> records the descriptors that were closed, in order.\<close>

record ('cb, 't, 'k) loop_obj =
  epfd :: fd
  wakeup_fd :: fd
  wakeup_ptr :: chan
  wakeupChannel :: "loop_cb channel"
  timer_fd :: fd
  timer_ptr :: chan
  timerfdChannel :: "loop_cb channel"
  timerQueue :: "('cb, 't) timer_queue"
  lo_poller :: "'k poller"
  lo_closed :: "fd list"

text \<open>What the constructor of the timer queue does: its descriptor, its channel and the registry after it.\<close>

definition new_timer_queue :: "'k epoll_ctl \<Rightarrow> chan \<Rightarrow> fd option \<Rightarrow> 'k poller \<Rightarrow>
    (fd \<times> loop_cb channel \<times> 'k poller) res" where
  "new_timer_queue ctl p tmfd lp = (case tmfd of
     None \<Rightarrow> Inl Aborted
   | Some fd \<Rightarrow>
       (let (ch, lp) = enableReading ctl p ((new_channel fd)\<lparr>readCallback := Some TimerRead\<rparr>) lp
        in Inr (fd, ch, lp)))"

definition new_event_loop :: "'k epoll_ctl \<Rightarrow> chan \<Rightarrow> chan \<Rightarrow> 't \<Rightarrow> (fd \<times> 'k) option \<Rightarrow> fd option \<Rightarrow> fd option \<Rightarrow>
    ('cb, 't, 'k) loop_obj res" where
  "new_event_loop ctl pw pt t0 ep evfd tmfd = (case ep of
     None \<Rightarrow> Inl Aborted
   | Some (ep_fd, k) \<Rightarrow> (case evfd of
       None \<Rightarrow> Inl Aborted
     | Some wfd \<Rightarrow>
         (let lp = \<lparr>channels = (\<lambda>fd. None), kern = k\<rparr>;
              (wch, lp) = enableReading ctl pw ((new_channel wfd)\<lparr>readCallback := Some WakeupRead\<rparr>) lp
          in bind_res (new_timer_queue ctl pt tmfd lp) (\<lambda>(fd, tch, lp).
             Inr \<lparr>epfd = ep_fd, wakeup_fd = wfd, wakeup_ptr = pw, wakeupChannel = wch, timer_fd = fd,
               timer_ptr = pt, timerfdChannel = tch,
               timerQueue = \<lparr>timers = [], heap = (\<lambda>a. None), nextSeq = 0, tfd = t0\<rparr>,
               lo_poller = lp, lo_closed = []\<rparr>))))"

text \<open>\<open>close_fd\<close> is the effect of \<open>close\<close> on the kernel.\<close>

definition lo_close :: "(fd \<Rightarrow> 'k \<Rightarrow> 'k) \<Rightarrow> fd \<Rightarrow> ('cb, 't, 'k) loop_obj \<Rightarrow> ('cb, 't, 'k) loop_obj" where
  "lo_close close_fd fd l = l\<lparr>lo_poller := (lo_poller l)\<lparr>kern := close_fd fd (kern (lo_poller l))\<rparr>,
     lo_closed := lo_closed l @ [fd]\<rparr>"

text \<open>The destructor of the timer queue, its channel member included.\<close>

definition destroy_timer_queue :: "'k epoll_ctl \<Rightarrow> (fd \<Rightarrow> 'k \<Rightarrow> 'k) \<Rightarrow> ('cb, 't, 'k) loop_obj \<Rightarrow>
    ('cb, 't, 'k) loop_obj" where
  "destroy_timer_queue ctl close_fd l =
     (let (ch, lp) = disableAll ctl (timer_ptr l) (timerfdChannel l) (lo_poller l);
          l = lo_close close_fd (timer_fd l) (l\<lparr>timerfdChannel := ch, lo_poller := lp\<rparr>);
          l = l\<lparr>timerQueue := destroy_timers (timerQueue l)\<rparr>
      in l\<lparr>lo_poller := destroy_channel ctl (timer_ptr l) (timerfdChannel l) (lo_poller l)\<rparr>)"

definition destroy_event_loop :: "'k epoll_ctl \<Rightarrow> (fd \<Rightarrow> 'k \<Rightarrow> 'k) \<Rightarrow> ('cb, 't, 'k) loop_obj \<Rightarrow>
    ('cb, 't, 'k) loop_obj" where
  "destroy_event_loop ctl close_fd l =
     (let l = destroy_timer_queue ctl close_fd l;
          (ch, lp) = disableAll ctl (wakeup_ptr l) (wakeupChannel l) (lo_poller l);
          l = l\<lparr>wakeupChannel := ch, lo_poller := removeChannel ctl ch lp\<rparr>;
          l = lo_close close_fd (epfd l) (lo_close close_fd (wakeup_fd l) l)
      in l\<lparr>lo_poller := destroy_channel ctl (wakeup_ptr l) (wakeupChannel l) (lo_poller l)\<rparr>)"

section \<open>Lemmas\<close>

text \<open>The kernel had room for both channels.\<close>

definition both_added :: "'k epoll_ctl \<Rightarrow> chan \<Rightarrow> chan \<Rightarrow> fd \<Rightarrow> fd \<Rightarrow> 'k \<Rightarrow> bool" where
  "both_added ctl pw pt wfd tmfd k \<longleftrightarrow> fst (ctl (CtlAdd wfd EPOLLIN pw) k) \<and>
     fst (ctl (CtlAdd tmfd EPOLLIN pt) (snd (ctl (CtlAdd wfd EPOLLIN pw) k)))"

lemma enable_fresh:
  assumes "channels lp fd = None" "fst (ctl (CtlAdd fd EPOLLIN p) (kern lp))"
  shows "enableReading ctl p ((new_channel fd)\<lparr>readCallback := cb\<rparr>) lp =
    ((new_channel fd)\<lparr>readCallback := cb, events := EPOLLIN\<rparr>,
     \<lparr>channels = (channels lp)(fd \<mapsto> p), kern = snd (ctl (CtlAdd fd EPOLLIN p) (kern lp))\<rparr>)"
  using assms by (cases lp) (simp add: channel_op_defs updateChannel_add new_channel_def Let_def)

lemma new_event_loop_built:
  assumes "both_added ctl pw pt wfd tmfd k" "wfd \<noteq> tmfd"
  defines "k1 \<equiv> snd (ctl (CtlAdd wfd EPOLLIN pw) k)"
  shows "new_event_loop ctl pw pt t0 (Some (ep, k)) (Some wfd) (Some tmfd) =
    Inr \<lparr>epfd = ep, wakeup_fd = wfd, wakeup_ptr = pw,
      wakeupChannel = (new_channel wfd)\<lparr>readCallback := Some WakeupRead, events := EPOLLIN\<rparr>,
      timer_fd = tmfd, timer_ptr = pt,
      timerfdChannel = (new_channel tmfd)\<lparr>readCallback := Some TimerRead, events := EPOLLIN\<rparr>,
      timerQueue = \<lparr>timers = [], heap = (\<lambda>a. None), nextSeq = 0, tfd = t0\<rparr>,
      lo_poller = \<lparr>channels = [wfd \<mapsto> pw, tmfd \<mapsto> pt], kern = snd (ctl (CtlAdd tmfd EPOLLIN pt) k1)\<rparr>,
      lo_closed = []\<rparr>"
  using assms by (simp add: new_event_loop_def new_timer_queue_def both_added_def enable_fresh)

lemma disable_registered:
  assumes "channels lp (ch_fd ch) = Some q"
  shows "disableAll ctl p ch lp = (ch\<lparr>events := 0\<rparr>,
    lp\<lparr>channels := (channels lp)(ch_fd ch := None), kern := snd (ctl (CtlDel (ch_fd ch)) (kern lp))\<rparr>)"
  using assms by (simp add: channel_op_defs updateChannel_del)

section \<open>Properties\<close>

text \<open>C22: An event loop leaves nothing behind.  A constructed loop watches exactly its eventfd and its timerfd for
  input, through its own two channels, and holds an empty timer queue; the destructor takes both out
  of epoll while the epoll descriptor is still open, closes each of the three descriptors once, the
  epoll instance last, and leaves an empty map, whatever timers were added and whatever the
  timerfd did in between.\<close>

theorem event_loop_lifecycle:
  assumes law: "epoll_law ctl tbl" and fds: "wfd \<noteq> tmfd" "ep \<noteq> wfd" "ep \<noteq> tmfd"
    and close: "\<forall>fd k. tbl (close_fd fd k) = (tbl k)(fd := None)"
    and add: "both_added ctl pw pt wfd tmfd k" "tbl k = Map.empty"
    and l: "new_event_loop ctl pw pt t0 (Some (ep, k)) (Some wfd) (Some tmfd) = Inr l"
    and d: "d = destroy_event_loop ctl close_fd (l\<lparr>timerQueue := q\<rparr>)"
  shows "tbl (kern (lo_poller l)) = [wfd \<mapsto> (EPOLLIN, pw), tmfd \<mapsto> (EPOLLIN, pt)] \<and>
    tbl (kern (lo_poller d)) = Map.empty \<and> channels (lo_poller d) = Map.empty \<and>
    lo_closed d = [tmfd, wfd, ep] \<and> timerQueue d = destroy_timers q"
proof -
  let ?k1 = "snd (ctl (CtlAdd wfd EPOLLIN pw) k)"
  let ?k2 = "snd (ctl (CtlAdd tmfd EPOLLIN pt) ?k1)"
  have k2: "tbl ?k2 = [wfd \<mapsto> (EPOLLIN, pw), tmfd \<mapsto> (EPOLLIN, pt)]"
    using add by (simp add: epoll_add(1) [OF law] both_added_def)
  have l': "lo_poller l = \<lparr>channels = [wfd \<mapsto> pw, tmfd \<mapsto> pt], kern = ?k2\<rparr>" "lo_closed l = []"
    "timerfdChannel l = (new_channel tmfd)\<lparr>readCallback := Some TimerRead, events := EPOLLIN\<rparr>"
    "wakeupChannel l = (new_channel wfd)\<lparr>readCallback := Some WakeupRead, events := EPOLLIN\<rparr>"
    "epfd l = ep" "wakeup_fd l = wfd" "timer_fd l = tmfd"
    using l unfolding new_event_loop_built [OF add(1) fds(1)] by auto
  have ch: "ch_fd (new_channel fd) = fd" for fd by (simp add: new_channel_def)
  define k3 where "k3 = close_fd tmfd (snd (ctl (CtlDel tmfd) ?k2))"
  have t: "destroy_timer_queue ctl close_fd (l\<lparr>timerQueue := q\<rparr>) =
      l\<lparr>timerQueue := destroy_timers q, timerfdChannel := (timerfdChannel l)\<lparr>events := 0\<rparr>,
        lo_poller := \<lparr>channels = [wfd \<mapsto> pw], kern = k3\<rparr>, lo_closed := [tmfd]\<rparr>"
    using fds(1) by (simp add: destroy_timer_queue_def disable_registered [where q = pt] l' ch lo_close_def
        destroy_channel_def isNoneEvent_def k3_def fun_upd_twist)
  define k4 where "k4 = close_fd ep (close_fd wfd (snd (ctl (CtlDel wfd) k3)))"
  have d': "lo_poller d = \<lparr>channels = Map.empty, kern = k4\<rparr>" "lo_closed d = [tmfd, wfd, ep]"
    "timerQueue d = destroy_timers q"
    by (simp_all add: d destroy_event_loop_def t disable_registered [where q = pw] l' ch lo_close_def Let_def
        removeChannel_def destroy_channel_def isNoneEvent_def k4_def)
  have "tbl k4 = Map.empty" using close k2 by (auto simp: k4_def k3_def epoll_del(1) [OF law])
  then show ?thesis using k2 l'(1) d' by simp
qed

lemma event_loop_lifecycle_witness:
  "\<exists>l. new_event_loop table_ctl 1 2 () (Some (3, Map.empty)) (Some 4) (Some 5) = Inr l \<and>
     lo_closed (destroy_event_loop table_ctl (\<lambda>fd t. t(fd := None))
       (l\<lparr>timerQueue := (empty_queue () :: (unit, unit) timer_queue)\<rparr>)) = [5, 4, 3]"
proof -
  have add: "both_added table_ctl 1 2 4 5 Map.empty" by (simp add: both_added_def)
  obtain l :: "(unit, unit, interest) loop_obj" where
    l: "new_event_loop table_ctl 1 2 () (Some (3, Map.empty)) (Some 4) (Some 5) = Inr l"
    by (rule that, rule new_event_loop_built [OF add]) simp
  then show ?thesis
    using event_loop_lifecycle [OF table_ctl_law _ _ _ _ add _ l refl, of "\<lambda>fd t. t(fd := None)" "empty_queue ()"]
    by auto
qed

end
