(* ===== verification/Applications.thy ===== *)
theory Applications
  imports Chat_Server Echo_Server Event_Loop Acceptor Async_Logging Logger Number_Text
begin

text \<open>
  The main programs of the two servers built on the library (\<open>reactor/server.cpp\<close>,
  \<open>reactor/bench_server.cpp\<close>): the command line, the order in which the server is set up and
  started, the signal handler, and the log of the chat room, which connects \<open>Logger\<close> to
  \<open>AsyncLogging\<close>.  The callbacks they install are in \<open>Chat_Server\<close> and \<open>Echo_Server\<close>.
\<close>

section \<open>Command line and set-up\<close>

definition arg_value :: "nat \<Rightarrow> int \<Rightarrow> string list \<Rightarrow> int" where
  "arg_value i v0 args = (if i < length args then atoi (args ! i) else v0)"

definition chat_options :: "string list \<Rightarrow> int \<times> int" where
  "chat_options args = (arg_value 0 8080 args, arg_value 1 2 args)"

definition bench_server_options :: "string list \<Rightarrow> int \<times> int" where
  "bench_server_options args = (arg_value 0 8080 args, arg_value 1 2 args)"

text \<open>\<open>htons\<close> takes the low 16 bits of the port.\<close>

definition bound_port :: "int \<Rightarrow> int" where
  "bound_port port = port mod 2 ^ 16"

text \<open>
  What \<open>socket\<close>, \<open>bind\<close> and \<open>listen\<close> answer, the address of the acceptor's channel, and the loops that the
  pool will start.  The main loop is number 0.
\<close>

record 'k setup_env =
  su_ctl :: "'k epoll_ctl"
  su_chan :: chan
  su_sock :: "fd option"
  su_binds :: bool
  su_listens :: bool
  su_loops :: "nat \<Rightarrow> nat"

definition launch :: "'k setup_env \<Rightarrow> acceptor \<Rightarrow> 'k server \<Rightarrow> acceptor \<times> 'k server" where
  "launch env a s = (let s = start_server (su_loops env) s;
       (a, lp) = listen (su_ctl env) (su_listens env) a (regs s ! 0)
     in (a, s\<lparr>regs := (regs s)[0 := lp]\<rparr>))"

definition chat_setup :: "'k setup_env \<Rightarrow> string list \<Rightarrow> 'k poller list \<Rightarrow>
    (int \<times> acceptor \<times> 'k server) res" where
  "chat_setup env args lps = (let (port, ioThreads) = chat_options args in
     bind_res (new_acceptor (su_chan env) (su_sock env) (su_binds env)) (\<lambda>a.
     let s = new_server 0 lps;
         s = srv_setThreadNum ioThreads s;
         s = setHeartbeat 5000 1000 s;
         s = s\<lparr>has_connectionCallback := True\<rparr>;
         s = s\<lparr>has_messageCallback := True\<rparr>;
         s = s\<lparr>has_closeCallback := True\<rparr>
     in Inr (bound_port port, launch env a s)))"

definition bench_setup :: "'k setup_env \<Rightarrow> string list \<Rightarrow> 'k poller list \<Rightarrow>
    (int \<times> acceptor \<times> 'k server) res" where
  "bench_setup env args lps = (let (port, ioThreads) = bench_server_options args in
     bind_res (new_acceptor (su_chan env) (su_sock env) (su_binds env)) (\<lambda>a.
     let s = new_server 0 lps;
         s = srv_setThreadNum ioThreads s;
         s = s\<lparr>has_messageCallback := True\<rparr>
     in Inr (bound_port port, launch env a s)))"

section \<open>Signals\<close>

text \<open>The handler of both programs: \<open>main_loop\<close> is \<open>None\<close> until \<open>g_mainLoop\<close> has been set.\<close>

definition chat_signal :: "'e eventfd \<Rightarrow> ('f, 'e) eloop option \<Rightarrow> ('f, 'e) eloop option" where
  "chat_signal ev main_loop = (case main_loop of None \<Rightarrow> None | Some l \<Rightarrow> Some (quit_loop ev l))"

definition bench_signal :: "'e eventfd \<Rightarrow> ('f, 'e) eloop option \<Rightarrow> ('f, 'e) eloop option" where
  "bench_signal ev main_loop = (case main_loop of None \<Rightarrow> None | Some l \<Rightarrow> Some (quit_loop ev l))"

section \<open>The log of the chat room\<close>

text \<open>A statement of the program: what the logger finds, the line of the source, and the message.\<close>

type_synonym statement = "log_env \<times> 32 word \<times> string"

text \<open>\<open>LOG_INFO\<close> with the two functions that \<open>initLogging\<close> installs.\<close>

fun chat_log :: "statement \<Rightarrow> async \<Rightarrow> async res" where
  "chat_log (env, line, msg) a =
     log_statement async_append (\<lambda>a. Inr (flush_log a)) INFO env ''server.cpp'' line INFO msg a"

definition started_text :: string where
  "started_text = ''[logging] async logging started (server.*.log)''"

definition chat_logging :: "(nat \<Rightarrow> bool) \<Rightarrow> log_env \<Rightarrow> async \<Rightarrow> async res" where
  "chat_logging fo env a = bind_res (start_log fo a) (chat_log (env, 62, started_text))"

fun chat_logs :: "statement list \<Rightarrow> async \<Rightarrow> async res" where
  "chat_logs [] a = Inr a"
| "chat_logs (st # sts) a = bind_res (chat_log st a) (chat_logs sts)"

text \<open>The destructor of the global log at the end of the program: \<open>stop()\<close> and the thread's last round.\<close>

definition chat_log_end :: "(string \<Rightarrow> nat) \<Rightarrow> (nat \<Rightarrow> bool) \<Rightarrow> async \<Rightarrow> async res" where
  "chat_log_end fw fo a = bind_res (async_exec fw fo FinalDrain (stop_request a)) (\<lambda>a. Inr (stop_join a))"

section \<open>Lemmas\<close>

fun statement_text :: "statement \<Rightarrow> string" where
  "statement_text (env, line, msg) = log_head env ''server.cpp'' line INFO @ msg @ [CHR 0x0A]"

fun short_statement :: "statement \<Rightarrow> bool" where
  "short_statement (env, line, msg) \<longleftrightarrow> length (log_head env ''server.cpp'' line INFO) + length msg < 3990"

lemma chat_log_appends: "short_statement st \<Longrightarrow> chat_log st a = async_append (statement_text st) a"
  by (cases st) (simp add: log_statement_cases less_log_level_def less_eq_log_level_def bind_res_def split: sum.split)

lemma statement_text_short: "short_statement st \<Longrightarrow> length (statement_text st) < kLargeBuffer"
  by (cases st) (simp add: kLargeBuffer_def)

lemma async_append_backend: "async_append msg a = Inr b \<Longrightarrow> backend b = backend a"
  by (auto simp: async_append_def bind_res_eq_Inr Let_def split: option.splits if_splits)

lemma chat_log_good:
  assumes "async_inv a" "backend a = LoopTop" "short_statement st"
  shows "\<exists>b. chat_log st a = Inr b \<and> async_inv b \<and> backend b = LoopTop \<and> log_text b = log_text a @ statement_text st"
proof -
  have len: "length (statement_text st) < kLargeBuffer" using assms(3) by (rule statement_text_short)
  then have "async_ok (AppendMsg (statement_text st)) a" using assms(2) kLarge_small by simp
  from async_append_good [OF assms(1) this] len obtain b where "async_append (statement_text st) a = Inr b"
    "async_inv b" "log_text b = log_text a @ statement_text st"
    by auto
  then show ?thesis using chat_log_appends [OF assms(3)] async_append_backend assms(2) by metis
qed

lemma chat_logs_good:
  "async_inv a \<Longrightarrow> backend a = LoopTop \<Longrightarrow> \<forall>st\<in>set sts. short_statement st \<Longrightarrow>
   \<exists>b. chat_logs sts a = Inr b \<and> async_inv b \<and> backend b = LoopTop \<and>
     log_text b = log_text a @ concat (map statement_text sts)"
proof (induction sts arbitrary: a)
  case (Cons st sts)
  obtain b where b: "chat_log st a = Inr b" "async_inv b" "backend b = LoopTop"
    "log_text b = log_text a @ statement_text st"
    using chat_log_good [OF Cons.prems(1,2), of st] Cons.prems(3) by (auto simp del: chat_log.simps)
  then show ?case using Cons.IH [of b] Cons.prems(3) by (auto simp del: chat_log.simps)
qed simp

lemma listen_watches:
  assumes "epoll_law ec tbl" "channels lp fd = None" "fst (ec (CtlAdd fd EPOLLIN p) (kern lp))"
    and "new_acceptor p (Some fd) True = Inr a"
  shows "listening (fst (listen ec True a lp))" "tbl (kern (snd (listen ec True a lp))) fd = Some (EPOLLIN, p)"
proof -
  have a: "a = \<lparr>acc_self = p, accept_fd = fd, accept_channel = (new_channel fd)\<lparr>readCallback := Some AcceptRead\<rparr>,
      listening = False\<rparr>" using assms(4) by (simp add: new_acceptor_def)
  show "listening (fst (listen ec True a lp))" by (simp add: listen_def case_prod_beta)
  have "kern (snd (listen ec True a lp)) = snd (ec (CtlAdd fd EPOLLIN p) (kern lp))"
    using assms(2) by (simp add: a listen_def new_channel_def channel_op_defs updateChannel_add Let_def)
  then show "tbl (kern (snd (listen ec True a lp))) fd = Some (EPOLLIN, p)"
    using epoll_add(1) [OF assms(1), of fd EPOLLIN p "kern lp"] assms(3) by simp
qed

section \<open>Properties\<close>

text \<open>The chat room starts as its command line says.  When the calls of the set-up succeed, the port is the given
  number in 16 bits, the pool hands out the given number of started loops (the main one if it is 0),
  the acceptor listens and is the reader of its descriptor in the main loop's epoll, the heartbeat
  runs with 5 and 1 seconds, every callback is set and there is no connection yet.\<close>

theorem chat_setup_ready:
  assumes "epoll_law (su_ctl env) tbl" "su_sock env = Some fd" "su_binds env" "su_listens env"
    and "lps \<noteq> []" "channels (lps ! 0) fd = None"
    and "fst (su_ctl env (CtlAdd fd EPOLLIN (su_chan env)) (kern (lps ! 0)))"
    and "int_range port" "int_range (int n)"
  shows "\<exists>a s. chat_setup env [int_text port, int_text (int n)] lps = Inr (port mod 65536, a, s) \<and>
    listening a \<and> tbl (kern (regs s ! 0)) fd = Some (EPOLLIN, su_chan env) \<and>
    loops (pool s) = (if n = 0 then [0] else map (su_loops env) [0..<n]) \<and>
    heartbeat_on s \<and> heartbeatTimeout s = 5000 \<and> heartbeatInterval s = 1000 \<and>
    has_connectionCallback s \<and> has_messageCallback s \<and> has_closeCallback s \<and> connections s = []"
proof -
  obtain a where a: "new_acceptor (su_chan env) (Some fd) True = Inr a" by (simp add: new_acceptor_def)
  have o: "chat_options [int_text port, int_text (int n)] = (port, int n)"
    using assms(8,9) by (simp add: chat_options_def arg_value_def atoi_text)
  note l = listen_watches [OF assms(1,6,7) a]
  show ?thesis using a l assms(2-5)
    by (auto simp: chat_setup_def o launch_def bound_port_def new_server_def srv_setThreadNum_def setHeartbeat_def
        start_server_def start_pool_def setThreadNum_def new_pool_def Let_def case_prod_beta)
qed

definition demo_setup :: "interest setup_env" where
  "demo_setup = \<lparr>su_ctl = table_ctl, su_chan = 7, su_sock = Some 4, su_binds = True, su_listens = True,
     su_loops = Suc\<rparr>"

lemma chat_setup_ready_witness:
  "\<exists>a s. chat_setup demo_setup [int_text 9090, int_text 2] [\<lparr>channels = (\<lambda>fd. None), kern = (\<lambda>fd. None)\<rparr>] =
     Inr (9090, a, s) \<and> loops (pool s) = [1, 2]"
proof -
  have "map Suc [0..<2] = [1, 2]" by code_simp
  then show ?thesis
    using chat_setup_ready [of demo_setup id 4 "[\<lparr>channels = (\<lambda>fd. None), kern = (\<lambda>fd. None)\<rparr>]" 9090 2] table_ctl_law
    by (auto simp: demo_setup_def int_range_def)
qed



end
