(* ===== verification/Os_Practice.thy ===== *)
theory Os_Practice
  imports Prelude
begin

text \<open>
  The exercises in process control (\<open>os_practice/exec_.cpp\<close>, \<open>os_practice/fork_.cpp\<close>,
  \<open>os_practice/pipe_.cpp\<close>).  The answers of \<open>fork\<close>, \<open>execv\<close> and \<open>pipe\<close> are arguments; the
  dialogue of two processes over two pipes is a step relation in which either may run.  The two
  read from one terminal, which gives each the lines that are typed while it stands at its prompt.
\<close>

section \<open>exec\<close>

text \<open>What a process printed and what its \<open>main\<close> returned; \<open>None\<close> when \<open>execv\<close> has replaced it.\<close>

datatype fork_answer = ForkFailed | InChild | InParent

definition exec_main :: "fork_answer \<Rightarrow> bool \<Rightarrow> string list \<times> int option" where
  "exec_main pid exec_fails = (case pid of
     ForkFailed \<Rightarrow> ([''Failed to fork''], Some 1)
   | InChild \<Rightarrow> if exec_fails then ([''before exec'', ''Failed to execute ls''], Some 1)
       else ([''before exec''], None)
   | InParent \<Rightarrow> ([], Some 0))"

section \<open>fork\<close>

definition fork_line :: "nat \<Rightarrow> string" where
  "fork_line i = (if i = 5 then ''i am parent'' else ''i am '' @ decimal (i + 1) @ ''th child'')"

text \<open>
  The lines of all processes.  A child leaves the loop with the number it was born with, the parent
  goes on, also when a \<open>fork\<close> fails (\<open>False\<close>), because the code tests for 0 only.
\<close>

fun fork_loop :: "nat \<Rightarrow> bool list \<Rightarrow> string list" where
  "fork_loop i [] = [fork_line i]"
| "fork_loop i (born # answers) = (if born then [fork_line i] else []) @ fork_loop (Suc i) answers"

definition fork_main :: "bool list \<Rightarrow> string list" where
  "fork_main answers = ''before fork'' # fork_loop 0 (take 5 answers)"

lemma fork_loop_lines:
  "fork_loop i answers =
     map fork_line (filter (\<lambda>j. answers ! (j - i)) [i..<i + length answers]) @ [fork_line (i + length answers)]"
proof (induction i answers rule: fork_loop.induct)
  case (2 i born answers)
  have "filter (\<lambda>j. (born # answers) ! (j - i)) [Suc i..<Suc i + length answers] =
      filter (\<lambda>j. answers ! (j - Suc i)) [Suc i..<Suc i + length answers]"
    by (rule filter_cong) (auto simp: Suc_diff_le nth_Cons')
  moreover have "[i..<i + length (born # answers)] = i # [Suc i..<Suc i + length answers]"
    using upt_conv_Cons [of i "i + length (born # answers)"] by simp
  ultimately have "map fork_line (filter (\<lambda>j. (born # answers) ! (j - i)) [i..<i + length (born # answers)]) =
      (if born then [fork_line i] else []) @
      map fork_line (filter (\<lambda>j. answers ! (j - Suc i)) [Suc i..<Suc i + length answers])"
    by (cases born) (simp_all del: upt_Suc list.size)
  then show ?case using 2 by (simp del: upt_Suc)
qed simp

lemma fork_main_lines:
  "length answers = 5 \<Longrightarrow>
   fork_main answers = ''before fork'' # map fork_line (filter (\<lambda>i. answers ! i) [0..<5]) @ [''i am parent'']"
  by (simp add: fork_main_def fork_loop_lines fork_line_def)

section \<open>A dialogue over two pipes\<close>

text \<open>
  The parent stands at its prompt or in \<open>read\<close>, or has closed its ends; the child stands in \<open>read\<close>,
  at its prompt with the text it received, or has closed its ends.  A process that writes to a pipe
  without a reader is killed by \<open>SIGPIPE\<close>.  \<open>in_lines\<close> and \<open>out_lines\<close> are what the user will type
  for the parent and for the child.
\<close>

datatype parent_pc = ParentPrompt | ParentRead | ParentEnd | ParentKilled

datatype child_pc = ChildRead | ChildPrompt "byte list" | ChildEnd | ChildKilled

record dialogue =
  parent :: parent_pc
  child :: child_pc
  in_lines :: "byte list list"
  out_lines :: "byte list list"
  p2c :: "byte list"
  c2p :: "byte list"
  child_shown :: "byte list list"
  parent_shown :: "byte list list"

definition c_text :: "byte list \<Rightarrow> byte list" where
  "c_text xs = takeWhile (\<lambda>x. x \<noteq> 0) xs"

definition exit_line :: "byte list" where
  "exit_line = [101, 120, 105, 116]"

definition pipe_read :: "byte list \<Rightarrow> byte list \<times> byte list" where
  "pipe_read p = (take 4095 p, drop 4095 p)"

definition parent_gone :: "dialogue \<Rightarrow> bool" where
  "parent_gone s \<longleftrightarrow> parent s = ParentEnd \<or> parent s = ParentKilled"

definition child_gone :: "dialogue \<Rightarrow> bool" where
  "child_gone s \<longleftrightarrow> child s = ChildEnd \<or> child s = ChildKilled"

inductive dialogue_step :: "dialogue \<Rightarrow> dialogue \<Rightarrow> bool" where
  parent_exits: "parent s = ParentPrompt \<Longrightarrow> in_lines s = exit_line # ls \<Longrightarrow>
    dialogue_step s (s\<lparr>parent := ParentEnd, in_lines := ls\<rparr>)"
| parent_writes: "parent s = ParentPrompt \<Longrightarrow> in_lines s = l # ls \<Longrightarrow> l \<noteq> exit_line \<Longrightarrow>
    \<not> child_gone s \<or> c_text l = [] \<Longrightarrow>
    dialogue_step s (s\<lparr>parent := ParentRead, in_lines := ls, p2c := p2c s @ c_text l\<rparr>)"
| parent_killed: "parent s = ParentPrompt \<Longrightarrow> in_lines s = l # ls \<Longrightarrow> l \<noteq> exit_line \<Longrightarrow>
    child_gone s \<Longrightarrow> c_text l \<noteq> [] \<Longrightarrow>
    dialogue_step s (s\<lparr>parent := ParentKilled, in_lines := ls\<rparr>)"
| parent_reads: "parent s = ParentRead \<Longrightarrow> c2p s \<noteq> [] \<Longrightarrow> pipe_read (c2p s) = (data, rest) \<Longrightarrow>
    dialogue_step s (s\<lparr>parent := ParentPrompt, c2p := rest, parent_shown := parent_shown s @ [c_text data]\<rparr>)"
| parent_reads_eof: "parent s = ParentRead \<Longrightarrow> c2p s = [] \<Longrightarrow> child_gone s \<Longrightarrow>
    dialogue_step s (s\<lparr>parent := ParentPrompt\<rparr>)"
| child_reads: "child s = ChildRead \<Longrightarrow> p2c s \<noteq> [] \<Longrightarrow> pipe_read (p2c s) = (data, rest) \<Longrightarrow>
    dialogue_step s (s\<lparr>child := ChildPrompt (c_text data), p2c := rest,
      child_shown := child_shown s @ [c_text data]\<rparr>)"
| child_reads_eof: "child s = ChildRead \<Longrightarrow> p2c s = [] \<Longrightarrow> parent_gone s \<Longrightarrow>
    dialogue_step s (s\<lparr>child := ChildEnd\<rparr>)"
| child_answers: "child s = ChildPrompt buf \<Longrightarrow> out_lines s = r # rs \<Longrightarrow> \<not> parent_gone s \<or> r = [] \<Longrightarrow>
    dialogue_step s (s\<lparr>child := (if buf = exit_line then ChildEnd else ChildRead), out_lines := rs,
      c2p := c2p s @ r\<rparr>)"
| child_killed: "child s = ChildPrompt buf \<Longrightarrow> out_lines s = r # rs \<Longrightarrow> parent_gone s \<Longrightarrow> r \<noteq> [] \<Longrightarrow>
    dialogue_step s (s\<lparr>child := ChildKilled, out_lines := rs\<rparr>)"

definition start_dialogue :: "byte list list \<Rightarrow> byte list list \<Rightarrow> dialogue" where
  "start_dialogue ls rs = \<lparr>parent = ParentPrompt, child = ChildRead, in_lines = ls, out_lines = rs,
     p2c = [], c2p = [], child_shown = [], parent_shown = []\<rparr>"

text \<open>
  \<open>main\<close>: without pipes it returns 1.  A failed \<open>fork\<close> is not 0, so the only process then acts as a
  parent whose pipes have no other end.
\<close>

definition pipe_main :: "bool \<Rightarrow> bool \<Rightarrow> byte list list \<Rightarrow> byte list list \<Rightarrow> int + dialogue" where
  "pipe_main has_pipes has_child ls rs =
     (if \<not> has_pipes then Inl 1
      else Inr ((start_dialogue ls rs)\<lparr>child := (if has_child then ChildRead else ChildEnd)\<rparr>))"

inductive_cases dialogue_stepE: "dialogue_step s t"

section \<open>Every run ends\<close>

definition child_weight :: "child_pc \<Rightarrow> nat" where
  "child_weight c = (case c of ChildRead \<Rightarrow> 1 | ChildPrompt b \<Rightarrow> 2 | _ \<Rightarrow> 0)"

definition dialogue_fuel :: "dialogue \<Rightarrow> nat" where
  "dialogue_fuel s = sum_list (map (\<lambda>l. 2 * length l + 2) (in_lines s)) +
     sum_list (map (\<lambda>r. length r + 1) (out_lines s)) + 2 * length (p2c s) + length (c2p s) +
     (if parent s = ParentRead then 1 else 0) + child_weight (child s)"

lemma c_text_le: "length (c_text l) \<le> length l"
  by (simp add: c_text_def length_takeWhile_le)

lemma pipe_read_less: "p \<noteq> [] \<Longrightarrow> pipe_read p = (data, rest) \<Longrightarrow> length rest < length p"
  by (auto simp: pipe_read_def)

lemma dialogue_step_fuel: "dialogue_step s t \<Longrightarrow> dialogue_fuel t < dialogue_fuel s"
proof (induction rule: dialogue_step.induct)
  case (parent_writes s l ls)
  then show ?case using c_text_le [of l] by (simp add: dialogue_fuel_def)
next
  case (parent_reads s data rest)
  then show ?case using pipe_read_less [of "c2p s"] by (simp add: dialogue_fuel_def)
next
  case (child_reads s data rest)
  then show ?case using pipe_read_less [of "p2c s"] by (simp add: dialogue_fuel_def child_weight_def)
qed (simp_all add: dialogue_fuel_def child_weight_def)

section \<open>The rounds of an undisturbed dialogue\<close>

definition plain :: "byte list \<Rightarrow> bool" where
  "plain l \<longleftrightarrow> l \<noteq> [] \<and> 0 \<notin> set l \<and> length l \<le> 4095"

lemma plain_text: "plain l \<Longrightarrow> c_text l = l" "plain l \<Longrightarrow> pipe_read l = (l, [])"
  by (auto simp: plain_def c_text_def pipe_read_def takeWhile_eq_all_conv [THEN iffD2])

definition orderly :: "byte list list \<Rightarrow> byte list list \<Rightarrow> bool" where
  "orderly ls rs \<longleftrightarrow> length rs = length ls \<and> (\<forall>l\<in>set ls. plain l \<and> l \<noteq> exit_line) \<and> (\<forall>r\<in>set rs. plain r)"

text \<open>The state in round \<open>k\<close>, after as many of its four steps as \<open>stage\<close> says.\<close>

definition round_state :: "byte list list \<Rightarrow> byte list list \<Rightarrow> nat \<Rightarrow> nat \<Rightarrow> dialogue" where
  "round_state ls rs k stage = \<lparr>
     parent = (if stage = 0 then ParentPrompt else ParentRead),
     child = (if stage = 2 then ChildPrompt (ls ! k) else ChildRead),
     in_lines = drop (if stage = 0 then k else Suc k) ls @ [exit_line],
     out_lines = drop (if stage = 3 then Suc k else k) rs,
     p2c = (if stage = 1 then ls ! k else []),
     c2p = (if stage = 3 then rs ! k else []),
     child_shown = take (if stage < 2 then k else Suc k) ls,
     parent_shown = take k rs\<rparr>"

definition final_state :: "byte list list \<Rightarrow> byte list list \<Rightarrow> child_pc \<Rightarrow> dialogue" where
  "final_state ls rs c = \<lparr>parent = ParentEnd, child = c, in_lines = [], out_lines = [], p2c = [], c2p = [],
     child_shown = ls, parent_shown = rs\<rparr>"

definition in_rounds :: "byte list list \<Rightarrow> byte list list \<Rightarrow> dialogue \<Rightarrow> bool" where
  "in_rounds ls rs s \<longleftrightarrow> (\<exists>k\<le>length ls. s = round_state ls rs k 0) \<or>
     (\<exists>k<length ls. \<exists>stage\<in>{1, 2, 3}. s = round_state ls rs k stage) \<or>
     s = final_state ls rs ChildRead \<or> s = final_state ls rs ChildEnd"

lemma in_rounds_intros:
  "k \<le> length ls \<Longrightarrow> in_rounds ls rs (round_state ls rs k 0)"
  "k < length ls \<Longrightarrow> in_rounds ls rs (round_state ls rs k 1)"
  "k < length ls \<Longrightarrow> in_rounds ls rs (round_state ls rs k 2)"
  "k < length ls \<Longrightarrow> in_rounds ls rs (round_state ls rs k 3)"
  unfolding in_rounds_def by blast+

lemma round_facts:
  assumes "orderly ls rs" "k < length ls"
  shows "plain (ls ! k)" "ls ! k \<noteq> exit_line" "plain (rs ! k)" "ls ! k \<noteq> []" "rs ! k \<noteq> []"
    "drop k ls = ls ! k # drop (Suc k) ls" "drop k rs = rs ! k # drop (Suc k) rs"
    "take (Suc k) ls = take k ls @ [ls ! k]" "take (Suc k) rs = take k rs @ [rs ! k]"
  using assms by (auto simp: orderly_def plain_def Cons_nth_drop_Suc take_Suc_conv_app_nth)

lemma round_step:
  assumes o: "orderly ls rs" and k: "k < length ls"
  shows "dialogue_step (round_state ls rs k 0) t \<longleftrightarrow> t = round_state ls rs k 1"
    "dialogue_step (round_state ls rs k 1) t \<longleftrightarrow> t = round_state ls rs k 2"
    "dialogue_step (round_state ls rs k 2) t \<longleftrightarrow> t = round_state ls rs k 3"
    "dialogue_step (round_state ls rs k 3) t \<longleftrightarrow> t = round_state ls rs (Suc k) 0"
  using round_facts [OF o k]
  by (auto simp: round_state_def dialogue_step.simps plain_text child_gone_def parent_gone_def)

lemma last_step:
  assumes "orderly ls rs"
  shows "dialogue_step (round_state ls rs (length ls) 0) t \<longleftrightarrow> t = final_state ls rs ChildRead"
    "dialogue_step (final_state ls rs ChildRead) t \<longleftrightarrow> t = final_state ls rs ChildEnd"
    "\<not> dialogue_step (final_state ls rs ChildEnd) t"
  using assms by (auto simp: round_state_def final_state_def dialogue_step.simps orderly_def parent_gone_def)

definition dialogue_init :: "byte list list \<Rightarrow> byte list list \<Rightarrow> dialogue \<Rightarrow> bool" where
  "dialogue_init ls rs s \<longleftrightarrow> orderly ls rs \<and> s = start_dialogue (ls @ [exit_line]) rs"

lemma start_round: "start_dialogue (ls @ [exit_line]) rs = round_state ls rs 0 0"
  by (simp add: start_dialogue_def round_state_def)

interpretation pipe_dialogue:
  inductive_invariant "dialogue_init ls rs" dialogue_step "\<lambda>s. orderly ls rs \<and> in_rounds ls rs s" for ls rs
proof unfold_locales
  show "orderly ls rs \<and> in_rounds ls rs s" if "dialogue_init ls rs s" for s
    using that by (auto simp: dialogue_init_def start_round in_rounds_def)
  show "orderly ls rs \<and> in_rounds ls rs t" if step: "dialogue_step s t" and inv: "orderly ls rs \<and> in_rounds ls rs s" for s t
  proof -
    have o: "orderly ls rs" using inv by simp
    consider k where "k \<le> length ls" "s = round_state ls rs k 0"
      | k stage where "k < length ls" "stage \<in> {1, 2, 3}" "s = round_state ls rs k stage"
      | "s = final_state ls rs ChildRead" | "s = final_state ls rs ChildEnd"
      using inv by (auto simp: in_rounds_def)
    then have "in_rounds ls rs t"
    proof cases
      case 1
      show ?thesis
      proof (cases "k = length ls")
        case True
        then show ?thesis using 1 step last_step(1) [OF o] by (simp add: in_rounds_def)
      next
        case False
        then have "k < length ls" "t = round_state ls rs k 1" using 1 step round_step(1) [OF o, of k] by auto
        then show ?thesis using in_rounds_intros(2) by simp
      qed
    next
      case 2
      then have "t = round_state ls rs k 2 \<or> t = round_state ls rs k 3 \<or> t = round_state ls rs (Suc k) 0"
        using step round_step(2-4) [OF o 2(1)] by auto
      then show ?thesis using 2(1) in_rounds_intros(3,4) [of k ls rs] in_rounds_intros(1) [of "Suc k" ls rs] by auto
    next
      case 3
      then show ?thesis using step last_step(2) [OF o] by (auto simp: in_rounds_def)
    next
      case 4
      then show ?thesis using step last_step(3) [OF o] by simp
    qed
    then show ?thesis using o by simp
  qed
qed

lemma round_not_stuck:
  assumes "orderly ls rs" "in_rounds ls rs s" "\<forall>t. \<not> dialogue_step s t"
  shows "s = final_state ls rs ChildEnd"
proof -
  consider k where "k \<le> length ls" "s = round_state ls rs k 0"
    | k stage where "k < length ls" "stage \<in> {1, 2, 3}" "s = round_state ls rs k stage"
    | "s = final_state ls rs ChildRead" | "s = final_state ls rs ChildEnd"
    using assms(2) by (auto simp: in_rounds_def)
  then show ?thesis
  proof cases
    case 1
    then show ?thesis using assms(3) round_step(1) [OF assms(1)] last_step(1) [OF assms(1)]
      by (cases "k = length ls") auto
  next
    case 2
    then show ?thesis using assms(3) round_step(2-4) [OF assms(1) 2(1)] by auto
  next
    case 3
    then show ?thesis using assms(3) last_step(2) [OF assms(1)] by simp
  qed
qed

section \<open>Properties\<close>

text \<open>C39: The dialogue over the two pipes is carried out.  When the user types plain lines for both processes and
  \<open>exit\<close> after the last, then every reachable state from which neither process can go on is the one
  where both have ended, the child has shown every line and the parent every answer, in order; a
  dialogue in lockstep never deadlocks.\<close>

theorem dialogue_completes:
  assumes "orderly ls rs" "reach (\<lambda>s. s = start_dialogue (ls @ [exit_line]) rs) dialogue_step s"
    and "\<forall>t. \<not> dialogue_step s t"
  shows "parent s = ParentEnd \<and> child s = ChildEnd \<and> child_shown s = ls \<and> parent_shown s = rs"
proof -
  have "dialogue_init ls rs = (\<lambda>s. s = start_dialogue (ls @ [exit_line]) rs)"
    using assms(1) by (auto simp: dialogue_init_def fun_eq_iff)
  then have "in_rounds ls rs s" using pipe_dialogue.inv_reach [of ls rs s] assms(2) by auto
  then have "s = final_state ls rs ChildEnd" using round_not_stuck assms(1,3) by blast
  then show ?thesis by (simp add: final_state_def)
qed

lemma dialogue_completes_witness:
  "child_shown (final_state [[104, 105]] [[111, 107]] ChildEnd) = [[104, 105]]"
proof -
  let ?ls = "[[104, 105]] :: byte list list" and ?rs = "[[111, 107]] :: byte list list"
  let ?R = "reach (\<lambda>s. s = start_dialogue (?ls @ [exit_line]) ?rs) dialogue_step"
  have o: "orderly ?ls ?rs" by (simp add: orderly_def plain_def exit_line_def)
  have "?R (round_state ?ls ?rs 0 0)" by (rule reach_init) (simp only: start_round)
  then have "?R (round_state ?ls ?rs 0 1)" by (rule reach_step) (simp add: round_step [OF o])
  then have "?R (round_state ?ls ?rs 0 2)" by (rule reach_step) (simp add: round_step [OF o] del: One_nat_def)
  then have "?R (round_state ?ls ?rs 0 3)" by (rule reach_step) (simp add: round_step [OF o])
  then have "?R (round_state ?ls ?rs (length ?ls) 0)" by (rule reach_step) (simp add: round_step [OF o])
  then have "?R (final_state ?ls ?rs ChildRead)" by (rule reach_step) (simp only: last_step [OF o])
  then have "?R (final_state ?ls ?rs ChildEnd)" by (rule reach_step) (simp only: last_step [OF o])
  from dialogue_completes [OF o this] show ?thesis using last_step(3) [OF o] by blast
qed


text \<open>Without a child the parent is killed by its first line.\<close>

lemma failed_fork_kills:
  assumes "pipe_main True False (l # ls) rs = Inr s" "l \<noteq> exit_line" "c_text l \<noteq> []"
  shows "dialogue_step s t \<longleftrightarrow> t = s\<lparr>parent := ParentKilled, in_lines := ls\<rparr>"
  using assms by (auto simp: pipe_main_def start_dialogue_def dialogue_step.simps child_gone_def)

text \<open>An empty line deadlocks the dialogue: the parent writes nothing and reads, the child reads too, and neither
  can go on although both have more to type.\<close>

theorem empty_line_deadlocks:
  "reach (\<lambda>s. s = start_dialogue ([] # ls) rs) dialogue_step
     (start_dialogue ls rs\<lparr>parent := ParentRead\<rparr>) \<and>
   \<not> (\<exists>t. dialogue_step (start_dialogue ls rs\<lparr>parent := ParentRead\<rparr>) t)"
proof -
  let ?s = "start_dialogue ([] # ls) rs"
  have "dialogue_step ?s (?s\<lparr>parent := ParentRead, in_lines := ls, p2c := p2c ?s @ c_text []\<rparr>)"
    by (rule parent_writes) (simp_all add: start_dialogue_def exit_line_def c_text_def)
  then have "dialogue_step ?s (start_dialogue ls rs\<lparr>parent := ParentRead\<rparr>)"
    by (simp add: start_dialogue_def c_text_def)
  then have "reach (\<lambda>s. s = ?s) dialogue_step (start_dialogue ls rs\<lparr>parent := ParentRead\<rparr>)"
    using reach_step [OF reach_init [of "\<lambda>s. s = ?s" ?s]] by simp
  then show ?thesis
    by (auto simp: dialogue_step.simps start_dialogue_def child_gone_def parent_gone_def)
qed

end
