(* ===== verification/Spec2Isabelle.thy ===== *)
theory Spec2Isabelle
  imports Net_Buffer Poller Timers Loop_Quit Server_Shutdown Chat_Delivery
    Acceptor Async_Logging Echo_Server Chat_Server Select_Server Epoll_Server Thread_Server Console_Clients
    Perf_Client Compiler_Id_C Loop_Life Applications Os_Practice
begin

text \<open>
  A verification library for this repository: a multi-threaded network library in the style of a
  reactor (\<open>src/reactor/\<close>), the chat room and the benchmark server that use it, their clients, the three
  earlier servers it grew from (\<open>src/select/\<close>, \<open>src/epoll/\<close>, \<open>src/oneThread2oneFd/\<close>), the exercises in
  \<open>src/os_practice/\<close>, and the programs with which CMake identifies the compilers
  (\<open>CompilerIdC\<close>, \<open>CompilerIdCXX\<close> under every \<open>build/\<close> directory).

  THE PROGRAM.  An \<open>EventLoop\<close> waits in \<open>epoll_wait\<close> and calls \<open>handleEvent\<close> of the \<open>Channel\<close> of every ready
  descriptor, then the functors that any thread queued (\<open>queueInLoop\<close>, woken through an eventfd).  A
  \<open>TimerQueue\<close> gives a loop its timers through a timerfd.  A \<open>TcpConnection\<close> owns a channel and two
  \<open>Buffer\<close>s, and moves between \<open>kConnected\<close>, \<open>kDisconnecting\<close> and \<open>kDisconnected\<close>.  A \<open>Server\<close> has an
  \<open>Acceptor\<close> on the main loop, an \<open>EventLoopThreadPool\<close> of \<open>EventLoopThread\<close>s among which it
  distributes connections, a table of \<open>shared_ptr\<close>s to them, and a heartbeat.  A log line goes through
  \<open>LogStream\<close> and \<open>Logger\<close> to \<open>AsyncLogging\<close>, whose thread writes it to a file.

  THEORIES (in the order of their imports; source files are under \<open>src/reactor/\<close> unless named).
  \<^item> \<open>Prelude\<close>: machine types, answers of system calls, faults as values (\<open>'a res\<close>), blocks of storage, C
    strings, and the two interfaces \<open>op_machine\<close> (a list of operations with an invariant and a
    refinement) and \<open>inductive_invariant\<close> (a step relation with an invariant).  \<open>Number_Text\<close>: digits,
    \<open>std::stoi\<close>, \<open>std::atoi\<close>.
  \<^item> \<open>Net_Buffer\<close>: \<open>Buffer.h\<close>, \<open>Buffer.cpp\<close>.  The record \<open>buffer\<close> is the vector with its two indices; it
    refines a byte queue under \<open>buf_inv\<close>.
  \<^item> \<open>Poller\<close>: \<open>Channel.h\<close>, \<open>Channel.cpp\<close>, and \<open>updateChannel\<close>, \<open>removeChannel\<close> of \<open>EventLoop.cpp\<close>.  The map of
    channels mirrors the interest list of the kernel; \<open>handleEvent\<close> reads its channel again before each
    test, so that a callback that destroys it shows as \<open>UseAfterFree\<close>.
  \<^item> \<open>Timers\<close>: \<open>Timer\<close>, \<open>TimerQueue\<close>, \<open>runAt\<close>, \<open>runAfter\<close>, \<open>runEvery\<close>.  The set of entries is a sorted list, the
    timers a heap; no entry dangles, and the timerfd is armed for the earliest.
  \<^item> \<open>Event_Loop\<close>: the loop thread and the threads that post to it, as a step relation with a program
    counter; wakeups, order and completeness of functors, \<open>quit()\<close>.  \<open>Loop_Quit\<close>: infinite runs of this
    relation, and why a fair one leaves a loop that was told to quit.
  \<^item> \<open>Loop_Life\<close>: construction and destruction of a loop with its timer queue.
  \<^item> \<open>Tcp_Connection\<close>: every operation of a connection on a \<open>conn_world\<close> (the object, the loop's registry,
    the bytes written, the functors posted, the callbacks called); the byte streams as an
    \<open>op_machine\<close>.
  \<^item> \<open>Loop_Threads\<close>: \<open>EventLoopThread\<close> (a step relation of owner and thread) and \<open>EventLoopThreadPool\<close>.
  \<^item> \<open>Server\<close>: the table, creation and removal of connections, heartbeat, shutdown.  Connection objects
    live in a heap; an object goes when no place that holds a \<open>shared_ptr\<close> refers to it.
    \<open>Server_Memory\<close>: the well-formed states of the server, over every sequence of its operations.
    \<open>Acceptor\<close>.
  \<^item> \<open>Connection_Steps\<close>: one operation of a connection as the server sees it, from the lemmas of
    \<open>Tcp_Connection\<close>.  \<open>Server_Sound\<close>: the invariant of a server with all its connections, registries, queues
    and its table, and the calculus \<open>succeeds\<close> that shows of each call that it does not fault and
    keeps the invariant.  \<open>Server_Safety\<close>: every operation and every run, and rounds of a loop over the
    batch of \<open>epoll_wait\<close>.  \<open>Server_Liveness\<close>: forced closes are carried out.  \<open>Server_Places\<close>: connections
    live on the loops of the pool.  \<open>Server_Shutdown\<close>: the destructor.  \<open>Server_Delivery\<close>: a message sent from
    another loop's thread is in the stream of its connection after one round of functors.
  \<^item> \<open>Log_Stream\<close>, \<open>Logger\<close>, \<open>Async_Logging\<close>: the log, from the digits of an integer to the file.
  \<^item> \<open>Chat_Server\<close>, \<open>Echo_Server\<close>, \<open>Applications\<close>: the callbacks and the main programs of \<open>server.cpp\<close> and
    \<open>bench_server.cpp\<close>.  \<open>Chat_Delivery\<close>: the chat room in the sound states of the server; a typed line reaches
    the connections of every loop.
  \<^item> \<open>Select_Server\<close>, \<open>Epoll_Server\<close>, \<open>Thread_Server\<close>: \<open>server.cpp\<close> of the three earlier stages.
    \<open>Console_Clients\<close>: the four \<open>client.cpp\<close>.  \<open>Perf_Client\<close>: \<open>src/benchmark/perf_client.cpp\<close>.
  \<^item> \<open>Os_Practice\<close>: \<open>exec_.cpp\<close>, \<open>fork_.cpp\<close>, \<open>pipe_.cpp\<close>.
  \<^item> \<open>Compiler_Id\<close>, \<open>Compiler_Id_Cxx\<close>, \<open>Compiler_Id_C\<close>: the identification programs, as functions of the
    predefined macros.  The four pairs of files are byte for byte the same.
  \<^item> This theory: sessions between a client and a server.

  WHAT THE LEMMAS SHOW.  Invariants that every operation keeps (\<open>buf_inv\<close>, \<open>mirrors\<close>, \<open>tq_inv\<close>, \<open>conn_wf\<close>,
  \<open>wake_inv\<close>, \<open>fifo_inv\<close>, \<open>thread_inv\<close>, \<open>srv_sound\<close>, \<open>srv_placed\<close>, \<open>async_inv\<close>, \<open>sel_wf\<close>); refinements of byte queues and
  streams; order and completeness of functors, log lines and messages under every interleaving;
  that the server as a whole never faults as long as no peer closes (a peer that closes makes it
  fault: \<open>peer_close_uses_freed_channel\<close>), removes what is idle, delivers what is sent across loops and shuts down cleanly; the functional
  behaviour of the handlers on every branch; and the errors that the code has, as theorems about
  a concrete fault or a state that no step leaves.

  WHAT IS ASSUMED OF THE OUTSIDE.  \<open>epoll_law\<close>, \<open>ep_law\<close>, \<open>select_law\<close> (what \<open>epoll_ctl\<close>, \<open>close\<close> and \<open>select\<close>
  do), \<open>eventfd_law\<close>, \<open>settime_law\<close>, \<open>new_law\<close> (fresh addresses), \<open>readv_law\<close>, \<open>write_law\<close> (a call transfers
  no more than it was asked to), \<open>writes_succeed\<close> (no write fails for good), \<open>disk_law\<close> (\<open>fwrite\<close> and \<open>fopen\<close> succeed), \<open>env_law\<close> (all that a server needs, with
  room in the interest lists and an application that sends to connections it was given),
  \<open>fresh_fd\<close> (\<open>accept\<close> returns a descriptor that nobody owns), \<open>event_ok\<close> (a read that brings data or an
  error), \<open>thread_fair\<close> and \<open>waker_fair\<close> (a thread that can go on is scheduled).  Each is a hypothesis of the
  theorems that need it and is met by a concrete instance in their witnesses.

  BOUNDS AND FUEL.  There is no fuel: every definition is total.  The loops that do not recurse on
  their data (\<open>push_digits\<close>, \<open>strip_log\<close>, \<open>decimal\<close>) have termination proofs; a loop that waits for
  the outside recurses on the list of its answers, and says so when the list has ended
  (\<open>None\<close>, \<open>StillWaiting\<close>, \<open>BlockedInRecv\<close>).  \<open>size_t\<close> and \<open>int\<close> keep their width where it matters
  (\<open>size_sub\<close>, \<open>to_int\<close>, \<open>recv_size\<close>, \<open>bandwidth\<close>); times are unbounded integers of nanoseconds.

  NOT MODELLED.  Socket options, addresses and \<open>signal(SIGPIPE)\<close>, prompts and captions on the console,
  names of log files, \<open>fflush\<close>, thread names, and the
  rounding of floating point.  Data races on plain members (\<open>last_active_\<close>, read by the heartbeat)
  are outside the model, which interleaves whole operations.  \<open>src/epoll/server1.cpp\<close> has only comments.
\<close>

section \<open>Sessions between the console clients and the early servers\<close>

text \<open>A line that a user types: not empty, without a null, at most \<open>n\<close> bytes, and not \<open>quit\<close>.\<close>

definition typed_line :: "nat \<Rightarrow> byte list \<Rightarrow> bool" where
  "typed_line n line \<longleftrightarrow> line \<noteq> [] \<and> length line \<le> n \<and> 0 \<notin> set line \<and> line \<noteq> quit_line"

text \<open>
  What a client receives for a line: the echo of the epoll server for the descriptor \<open>fd\<close>, and
  the reply of the \<open>select\<close> server.
\<close>

definition epoll_answer :: "'k ep_kernel \<Rightarrow> fd \<Rightarrow> fd \<Rightarrow> 'k ep_server \<Rightarrow> byte list \<Rightarrow> read_answer" where
  "epoll_answer K l_fd fd s line = Delivered (concat (map snd (drop (length (echoes s))
     (echoes (ep_event K l_fd None (\<lambda>c. Delivered line) (fd, EPOLLIN) s)))))"

definition select_answer :: "fd \<Rightarrow> byte list \<Rightarrow> read_answer" where
  "select_answer fd line = (case serve_client fd (Delivered line) \<lparr>replies = [], closed = []\<rparr> of
     Inl e \<Rightarrow> ReadFail EAGAIN | Inr (keep, out) \<Rightarrow> Delivered (concat (map snd (replies out))))"

lemma epoll_answer_eq: "fd \<noteq> l_fd \<Longrightarrow> line \<noteq> [] \<Longrightarrow> epoll_answer K l_fd fd s line = Delivered line"
  by (cases line) (simp_all add: epoll_answer_def ep_event_echoes echo_of_def bad_event_def epoll_masks)

lemma select_answer_eq:
  "line \<noteq> [] \<Longrightarrow> length line \<le> 1023 \<Longrightarrow> select_answer fd line = Delivered (reply_block line)"
  using serve_client_data [of "\<lambda>c. Delivered line" fd line] by (simp add: select_answer_def reply_to_def)



text \<open>A session with the \<open>select\<close> server shows a zero behind every line: the server ends its reply with the
  character \<open>0\<close> instead of a null, and the client prints it.\<close>

theorem select_session_shows_zero:
  assumes "\<forall>line\<in>set lines. typed_line 1022 line"
  shows "select_client lines (map (select_answer fd) lines) =
    Inr (lines, map (\<lambda>line. echo_line (line @ [48])) lines, AwaitsInput)"
proof -
  have line: "length (reply_block d) = 1024 \<and> reply_block d \<noteq> [] \<and>
      takeWhile (\<lambda>x. x \<noteq> 0) (reply_block d) = d @ [48] \<and> 0 \<in> set (reply_block d)"
    if d: "typed_line 1022 d" for d
  proof -
    have "1023 - length d = Suc (1022 - length d)" using d by (auto simp: typed_line_def)
    moreover have "takeWhile (\<lambda>x. x \<noteq> 0) (d @ ys) = d @ takeWhile (\<lambda>x. x \<noteq> 0) ys" for ys
      using d by (intro takeWhile_append2) (auto simp: typed_line_def)
    ultimately show ?thesis using d by (simp add: reply_block_def typed_line_def)
  qed
  have ans: "map (select_answer fd) lines = map Delivered (map reply_block lines)"
    using assms by (auto simp: select_answer_eq typed_line_def)
  have "c_string (d @ replicate (1024 - length d) 0) = Inr (takeWhile (\<lambda>x. x \<noteq> 0) d)"
    if "d \<in> set (map reply_block lines)" for d
    using that line assms by (auto simp: c_string_def)
  then have "select_client lines (map (select_answer fd) lines) =
      Inr (lines, map (\<lambda>d. echo_line (takeWhile (\<lambda>x. x \<noteq> 0) d)) (map reply_block lines), AwaitsInput)"
    unfolding select_client_def ans using line assms by (intro client_loop_shows) (auto simp: typed_line_def)
  also have "map (\<lambda>d. echo_line (takeWhile (\<lambda>x. x \<noteq> 0) d)) (map reply_block lines) = map (\<lambda>line. echo_line (line @ [48])) lines"
    using line assms by simp
  finally show ?thesis .
qed

lemma select_session_shows_zero_witness:
  "select_client [[104, 105]] (map (select_answer 5) [[104, 105]]) = Inr ([[104, 105]], [echo_line [104, 105, 48]], AwaitsInput)"
  using select_session_shows_zero [of "[[104, 105]]" 5] by (simp add: typed_line_def quit_line_def)

text \<open>A line of 1023 bytes overruns the client of the \<open>select\<close> stage: the server fills the reply without a
  null, and the client prints past its buffer.\<close>

theorem select_full_line_overreads:
  assumes "length line = 1023" "0 \<notin> set line"
  shows "select_client (line # lines) (select_answer fd line # answers) = Inl OutOfBounds"
proof -
  obtain x xs where l: "line = x # xs" using assms(1) by (cases line) auto
  have "line \<noteq> quit_line" using assms(1) by (auto simp: quit_line_def)
  moreover have ans: "select_answer fd line = Delivered (x # (xs @ [48]))"
    using assms select_answer_eq [of line fd] by (simp add: l reply_block_def)
  moreover have "length xs = 1022" "0 \<notin> set (x # xs)" using assms by (simp_all add: l)
  ultimately show ?thesis by (simp add: select_client_def c_string_def)
qed

lemma select_full_line_overreads_witness:
  "select_client [replicate 1023 65] [select_answer 5 (replicate 1023 65)] = Inl OutOfBounds"
  using select_full_line_overreads [of "replicate 1023 65" "[]" 5 "[]"] by simp

end
